(* ===== verification/Prelude.thy ===== *)
theory Prelude
  imports Main "HOL-Library.Word"
begin

text \<open>
  The shared vocabulary of the development: the C integer types, the wait channels of the
  kernel, the outcome of a kernel operation, the small state-passing combinators every
  component is written with, and the lemma collections the component proofs share.
\<close>

section \<open>Machine types\<close>

text \<open>
  \<open>uint\<close>, \<open>ushort\<close> and \<open>uchar\<close> are the typedefs of types.h. A C \<open>int\<close> or \<open>short\<close> is kept as
  the word of its width and read with \<open>sint\<close> where the source compares it as signed.
\<close>

type_synonym uchar = "8 word"
type_synonym ushort = "16 word"
type_synonym uint = "32 word"
type_synonym cint = "32 word"
type_synonym cshort = "16 word"

text \<open>The constants of param.h and the block size of fs.h.\<close>

definition NPROC :: nat where "NPROC = 64"

definition NOFILE :: nat where "NOFILE = 16"

definition NFILE :: nat where "NFILE = 100"

definition NINODE :: nat where "NINODE = 50"

definition NDEV :: nat where "NDEV = 10"

definition ROOTDEV :: uint where "ROOTDEV = 1"

definition MAXOPBLOCKS :: nat where "MAXOPBLOCKS = 10"

definition LOGSIZE :: nat where "LOGSIZE = MAXOPBLOCKS * 3"

definition NBUF :: nat where "NBUF = MAXOPBLOCKS * 3"

definition BSIZE :: nat where "BSIZE = 512"

lemmas param_defs = NPROC_def NOFILE_def NFILE_def NINODE_def NDEV_def ROOTDEV_def
  MAXOPBLOCKS_def LOGSIZE_def NBUF_def BSIZE_def

section \<open>Outcomes of a kernel operation\<close>

text \<open>
  A wait channel is the address of the object a process sleeps on. The kernel uses buffers,
  inodes, processes, the two counters of a pipe, the log, the tick counter and the console
  read index as channels; distinct constructors are distinct addresses. \<open>ChYield\<close> and \<open>ChExit\<close>
  are no addresses: they mark that a process gave up the processor in \<open>yield\<close> and in \<open>exit\<close>.
\<close>

datatype chan =
    ChBuf nat
  | ChInode nat
  | ChProc nat
  | ChPipeRead nat
  | ChPipeWrite nat
  | ChLog
  | ChTicks
  | ChInput
  | ChYield
  | ChExit

text \<open>
  An operation running in the kernel returns a value (\<open>Done\<close>), halts the machine (\<open>Panic\<close>,
  the argument of the source's \<open>panic\<close>), gives up the processor in \<open>sleep\<close> (\<open>Sleep\<close>, with the
  state it leaves behind), loops for ever (\<open>Diverge\<close>), or reads or writes outside an object, which
  C leaves undefined (\<open>Fault\<close>).
\<close>

datatype ('a, 's) outcome =
    Done 'a 's
  | Panic string
  | Sleep chan 's
  | Diverge
  | Fault

type_synonym ('s, 'a) kop = "'s \<Rightarrow> ('a, 's) outcome"

definition kret :: "'a \<Rightarrow> ('s, 'a) kop" where
  "kret x = (\<lambda>s. Done x s)"

definition kpanic :: "string \<Rightarrow> ('s, 'a) kop" where
  "kpanic msg = (\<lambda>s. Panic msg)"

definition kfault :: "('s, 'a) kop" where
  "kfault = (\<lambda>s. Fault)"

definition kget :: "('s \<Rightarrow> 'a) \<Rightarrow> ('s, 'a) kop" where
  "kget f = (\<lambda>s. Done (f s) s)"

definition kmodify :: "('s \<Rightarrow> 's) \<Rightarrow> ('s, unit) kop" where
  "kmodify f = (\<lambda>s. Done () (f s))"

definition kbind :: "('s, 'a) kop \<Rightarrow> ('a \<Rightarrow> ('s, 'b) kop) \<Rightarrow> ('s, 'b) kop" where
  "kbind m f = (\<lambda>s. case m s of
       Done x s' \<Rightarrow> f x s'
     | Panic msg \<Rightarrow> Panic msg
     | Sleep c s' \<Rightarrow> Sleep c s'
     | Diverge \<Rightarrow> Diverge
     | Fault \<Rightarrow> Fault)"

text \<open>\<open>kseq m n\<close> is the statement sequence \<open>m; n\<close>; \<open>kwhen\<close> is an \<open>if\<close> without \<open>else\<close>.\<close>

definition kseq :: "('s, 'a) kop \<Rightarrow> ('s, 'b) kop \<Rightarrow> ('s, 'b) kop" where
  "kseq m n = kbind m (\<lambda>_. n)"

definition kwhen :: "bool \<Rightarrow> ('s, unit) kop \<Rightarrow> ('s, unit) kop" where
  "kwhen c m = (if c then m else kret ())"

text \<open>A counting \<open>for\<close> loop: the body is run for each index in order.\<close>

fun kfor :: "('i \<Rightarrow> ('s, unit) kop) \<Rightarrow> 'i list \<Rightarrow> ('s, unit) kop" where
  "kfor body [] = kret ()"
| "kfor body (i # is) = kseq (body i) (kfor body is)"

named_theorems kop_simps \<open>evaluation of the state-passing combinators\<close>

named_theorems kop_inv \<open>inversion of a composite operation that returned\<close>

lemma kret_eq [kop_simps]: "kret x s = Done x s"
  by (simp add: kret_def)

lemma kpanic_eq [kop_simps]: "kpanic msg s = Panic msg"
  by (simp add: kpanic_def)

lemma kfault_eq [kop_simps]: "kfault s = Fault"
  by (simp add: kfault_def)

lemma kget_eq [kop_simps]: "kget f s = Done (f s) s"
  by (simp add: kget_def)

lemma kmodify_eq [kop_simps]: "kmodify f s = Done () (f s)"
  by (simp add: kmodify_def)

lemma kwhen_eq [kop_simps]: "kwhen c m s = (if c then m s else Done () s)"
  by (simp add: kwhen_def kret_def)

lemma kbind_eq [kop_simps]:
  "kbind m f s = (case m s of Done x s' \<Rightarrow> f x s' | Panic msg \<Rightarrow> Panic msg
     | Sleep c s' \<Rightarrow> Sleep c s' | Diverge \<Rightarrow> Diverge | Fault \<Rightarrow> Fault)"
  by (simp add: kbind_def)

lemma kseq_eq [kop_simps]:
  "kseq m n s = (case m s of Done x s' \<Rightarrow> n s' | Panic msg \<Rightarrow> Panic msg
     | Sleep c s' \<Rightarrow> Sleep c s' | Diverge \<Rightarrow> Diverge | Fault \<Rightarrow> Fault)"
  by (simp add: kseq_def kbind_def)

lemma kbind_Done: "m s = Done x s' \<Longrightarrow> kbind m f s = f x s'"
  by (simp add: kbind_def)

lemma kbind_Panic: "m s = Panic msg \<Longrightarrow> kbind m f s = Panic msg"
  by (simp add: kbind_def)

lemma kbind_Sleep: "m s = Sleep c s' \<Longrightarrow> kbind m f s = Sleep c s'"
  by (simp add: kbind_def)

lemma kseq_Done: "m s = Done x s' \<Longrightarrow> kseq m n s = n s'"
  by (simp add: kseq_def kbind_def)

lemma kseq_Panic: "m s = Panic msg \<Longrightarrow> kseq m n s = Panic msg"
  by (simp add: kseq_def kbind_def)

lemma kseq_Sleep: "m s = Sleep c s' \<Longrightarrow> kseq m n s = Sleep c s'"
  by (simp add: kseq_def kbind_def)

lemma kbind_Done_iff [kop_inv]:
  "kbind m f s = Done y t \<longleftrightarrow> (\<exists>x s'. m s = Done x s' \<and> f x s' = Done y t)"
  by (simp add: kbind_def split: outcome.split)

lemma kseq_Done_iff [kop_inv]:
  "kseq m n s = Done y t \<longleftrightarrow> (\<exists>x s'. m s = Done x s' \<and> n s' = Done y t)"
  by (simp add: kseq_def kbind_Done_iff)

lemma kbind_cong [fundef_cong]:
  assumes "m s = m' s'"
    and "\<And>x t. m' s' = Done x t \<Longrightarrow> f x t = f' x t"
    and "s = s'"
  shows "kbind m f s = kbind m' f' s'"
  using assms by (simp add: kbind_def split: outcome.split)

lemma kfor_Nil [kop_simps]: "kfor body [] s = Done () s"
  by (simp add: kret_def)

lemma kfor_append:
  "kfor body (is @ js) s = kseq (kfor body is) (kfor body js) s"
  by (induction "is" arbitrary: s)
    (simp_all add: kseq_def kbind_def kret_def split: outcome.split)

text \<open>
  The rule for a loop that always returns: an indexed assertion that each iteration carries
  from one index to the next.
\<close>

lemma kfor_upt_rule:
  assumes "P a s" and "a \<le> b"
    and step: "\<And>i s. a \<le> i \<Longrightarrow> i < b \<Longrightarrow> P i s \<Longrightarrow> \<exists>s'. body i s = Done () s' \<and> P (Suc i) s'"
  shows "\<exists>s'. kfor body [a..<b] s = Done () s' \<and> P b s'"
  using assms
proof (induction "b - a" arbitrary: a s)
  case 0
  then show ?case by (simp add: kop_simps)
next
  case (Suc n)
  then have "a < b" by simp
  with Suc.prems obtain s1 where s1: "body a s = Done () s1" "P (Suc a) s1" by blast
  have "\<exists>s'. kfor body [Suc a..<b] s1 = Done () s' \<and> P b s'"
    using Suc.hyps(1) [of "Suc a" s1] Suc.hyps(2) s1(2) \<open>a < b\<close> Suc.prems(3) by simp
  with s1(1) \<open>a < b\<close> show ?case by (simp add: upt_conv_Cons kop_simps)
qed

section \<open>Table scans\<close>

text \<open>
  The kernel's tables are arrays scanned from the first slot for the first entry that fits
  (\<open>filealloc\<close>, \<open>allocproc\<close>, \<open>iget\<close>, \<open>fdalloc\<close>, \<open>kill\<close>).
\<close>

definition first_slot :: "nat \<Rightarrow> (nat \<Rightarrow> bool) \<Rightarrow> nat option" where
  "first_slot n P = find P [0..<n]"

lemma first_slot_Some:
  "first_slot n P = Some i \<longleftrightarrow> i < n \<and> P i \<and> (\<forall>j<i. \<not> P j)"
proof
  assume "first_slot n P = Some i"
  then show "i < n \<and> P i \<and> (\<forall>j<i. \<not> P j)"
    by (auto simp: first_slot_def find_Some_iff)
next
  assume "i < n \<and> P i \<and> (\<forall>j<i. \<not> P j)"
  then show "first_slot n P = Some i"
    by (auto simp: first_slot_def find_Some_iff intro!: exI [of _ i])
qed

lemma first_slot_None: "first_slot n P = None \<longleftrightarrow> (\<forall>i<n. \<not> P i)"
  by (auto simp: first_slot_def find_None_iff)

lemma first_slot_exists: "i < n \<Longrightarrow> P i \<Longrightarrow> \<exists>j. first_slot n P = Some j"
  by (metis first_slot_None not_Some_eq)

section \<open>Words\<close>

lemma uint_add_of_nat:
  fixes a :: uint
  assumes "uint a + int i < 2 ^ 32"
  shows "uint (a + of_nat i) = uint a + int i"
proof -
  have "uint (a + of_nat i) = (uint a + int i mod 2 ^ 32) mod 2 ^ 32"
    by (simp add: uint_word_ariths unsigned_of_nat take_bit_eq_mod of_nat_mod)
  also have "\<dots> = (uint a + int i) mod 2 ^ 32" by (simp add: mod_add_right_eq)
  also have "\<dots> = uint a + int i" using assms by (intro mod_pos_pos_trivial) auto
  finally show ?thesis .
qed

end
