(* ===== verification/Bytes.thy ===== *)
theory Bytes
  imports Prelude
begin

text \<open>
  Bytes in C objects: a block or a structure is the list of its bytes, \<open>memmove\<close> into and out
  of the middle of one is \<open>blit\<close> and \<open>slice\<close>, and the 16 and 32 bit fields of the on-disk
  structures are little endian.
\<close>

unbundle bit_operations_syntax

definition slice :: "nat \<Rightarrow> nat \<Rightarrow> 'a list \<Rightarrow> 'a list" where
  "slice off n bs = take n (drop off bs)"

definition blit :: "nat \<Rightarrow> 'a list \<Rightarrow> 'a list \<Rightarrow> 'a list" where
  "blit off src dst = take off dst @ src @ drop (off + length src) dst"

definition u16_bytes :: "ushort \<Rightarrow> uchar list" where
  "u16_bytes w = [ucast w, ucast (drop_bit 8 w)]"

definition bytes_u16 :: "uchar list \<Rightarrow> ushort" where
  "bytes_u16 bs = ucast (bs ! 0) OR push_bit 8 (ucast (bs ! 1))"

definition u32_bytes :: "uint \<Rightarrow> uchar list" where
  "u32_bytes w = [ucast w, ucast (drop_bit 8 w), ucast (drop_bit 16 w), ucast (drop_bit 24 w)]"

definition bytes_u32 :: "uchar list \<Rightarrow> uint" where
  "bytes_u32 bs = ucast (bs ! 0) OR push_bit 8 (ucast (bs ! 1)) OR push_bit 16 (ucast (bs ! 2))
     OR push_bit 24 (ucast (bs ! 3))"

definition get16 :: "nat \<Rightarrow> uchar list \<Rightarrow> ushort" where
  "get16 off bs = bytes_u16 (slice off 2 bs)"

definition get32 :: "nat \<Rightarrow> uchar list \<Rightarrow> uint" where
  "get32 off bs = bytes_u32 (slice off 4 bs)"

definition put16 :: "nat \<Rightarrow> ushort \<Rightarrow> uchar list \<Rightarrow> uchar list" where
  "put16 off w bs = blit off (u16_bytes w) bs"

definition put32 :: "nat \<Rightarrow> uint \<Rightarrow> uchar list \<Rightarrow> uchar list" where
  "put32 off w bs = blit off (u32_bytes w) bs"

named_theorems byte_simps \<open>lengths and read-over-write laws of byte lists\<close>

lemma length_slice [byte_simps]: "length (slice off n bs) = min n (length bs - off)"
  by (simp add: slice_def)

lemma length_blit [byte_simps]:
  "off + length src \<le> length dst \<Longrightarrow> length (blit off src dst) = length dst"
  by (simp add: blit_def)

lemma nth_blit:
  "off + length src \<le> length dst \<Longrightarrow> i < length dst \<Longrightarrow>
   blit off src dst ! i = (if off \<le> i \<and> i < off + length src then src ! (i - off) else dst ! i)"
  by (auto simp: blit_def nth_append)

lemma nth_slice: "i < n \<Longrightarrow> off + i < length bs \<Longrightarrow> slice off n bs ! i = bs ! (off + i)"
  by (simp add: slice_def)

lemma slice_blit_same [byte_simps]:
  "off + length src \<le> length dst \<Longrightarrow> n = length src \<Longrightarrow> slice off n (blit off src dst) = src"
  by (simp add: slice_def blit_def)

lemma slice_blit_other [byte_simps]:
  assumes "off + length src \<le> length dst" and "o' + n \<le> off \<or> off + length src \<le> o'"
  shows "slice o' n (blit off src dst) = slice o' n dst"
proof (rule nth_equalityI)
  show "length (slice o' n (blit off src dst)) = length (slice o' n dst)"
    using assms(1) by (simp add: length_slice length_blit)
next
  fix i
  assume "i < length (slice o' n (blit off src dst))"
  then have "i < n" "o' + i < length dst" using assms(1) by (auto simp: length_slice length_blit)
  with assms show "slice o' n (blit off src dst) ! i = slice o' n dst ! i"
    by (auto simp: nth_slice nth_blit length_blit)
qed

lemma blit_all: "length src = length dst \<Longrightarrow> blit 0 src dst = src"
  by (simp add: blit_def)

lemma length_bytes [byte_simps]: "length (u16_bytes v) = 2" "length (u32_bytes w) = 4"
  by (simp_all add: u16_bytes_def u32_bytes_def)

lemma bytes_u16_bytes [byte_simps]: "bytes_u16 (u16_bytes w) = w"
proof (rule bit_word_eqI)
  fix n
  assume "n < LENGTH(16)"
  then show "bit (bytes_u16 (u16_bytes w)) n = bit w n"
    by (auto simp: bytes_u16_def u16_bytes_def bit_simps)
qed

lemma bytes_u32_bytes [byte_simps]: "bytes_u32 (u32_bytes w) = w"
proof (rule bit_word_eqI)
  fix n
  assume "n < LENGTH(32)"
  then consider "n < 8" | "8 \<le> n" "n < 16" | "16 \<le> n" "n < 24" | "24 \<le> n" "n < 32" by fastforce
  then show "bit (bytes_u32 (u32_bytes w)) n = bit w n"
    by cases (simp_all add: bytes_u32_def u32_bytes_def bit_simps, arith+)
qed

lemma get_put_same [byte_simps]:
  "off + 2 \<le> length bs \<Longrightarrow> get16 off (put16 off v bs) = v"
  "off + 4 \<le> length bs \<Longrightarrow> get32 off (put32 off w bs) = w"
  by (simp_all add: get16_def put16_def get32_def put32_def byte_simps)

lemma get_put_other [byte_simps]:
  "off + 2 \<le> length bs \<Longrightarrow> o' + 2 \<le> off \<or> off + 2 \<le> o' \<Longrightarrow> get16 o' (put16 off v bs) = get16 o' bs"
  "off + 4 \<le> length bs \<Longrightarrow> o' + 2 \<le> off \<or> off + 4 \<le> o' \<Longrightarrow> get16 o' (put32 off w bs) = get16 o' bs"
  "off + 2 \<le> length bs \<Longrightarrow> o' + 4 \<le> off \<or> off + 2 \<le> o' \<Longrightarrow> get32 o' (put16 off v bs) = get32 o' bs"
  "off + 4 \<le> length bs \<Longrightarrow> o' + 4 \<le> off \<or> off + 4 \<le> o' \<Longrightarrow> get32 o' (put32 off w bs) = get32 o' bs"
  by (simp_all add: get16_def put16_def get32_def put32_def byte_simps)

lemma length_put [byte_simps]:
  "off + 2 \<le> length bs \<Longrightarrow> length (put16 off v bs) = length bs"
  "off + 4 \<le> length bs \<Longrightarrow> length (put32 off w bs) = length bs"
  by (simp_all add: put16_def put32_def byte_simps)

end
