(* ===== verification/Memory.thy ===== *)
theory Memory
  imports Bytes
begin

text \<open>
  Byte-addressed memory, the 32-bit accesses the kernel makes to it, and string.c: \<open>memset\<close>,
  \<open>memcmp\<close>, \<open>memmove\<close>, \<open>strncmp\<close>, \<open>strncpy\<close>, \<open>safestrcpy\<close> and \<open>strlen\<close>, each as the loop of the source
  over that memory. Addresses are 32-bit and wrap.
\<close>

section \<open>Memory\<close>

type_synonym memory = "uint \<Rightarrow> uchar"

definition ld32 :: "memory \<Rightarrow> uint \<Rightarrow> uint" where
  "ld32 m a = bytes_u32 [m a, m (a + 1), m (a + 2), m (a + 3)]"

definition st32 :: "uint \<Rightarrow> uint \<Rightarrow> memory \<Rightarrow> memory" where
  "st32 a w m = m(a := ucast w, a + 1 := ucast (drop_bit 8 w), a + 2 := ucast (drop_bit 16 w),
     a + 3 := ucast (drop_bit 24 w))"

text \<open>The bytes at an address, and a NUL-terminated string there.\<close>

definition bytes_at :: "memory \<Rightarrow> uint \<Rightarrow> nat \<Rightarrow> uchar list" where
  "bytes_at m a n = map (\<lambda>i. m (a + of_nat i)) [0..<n]"

definition cstr :: "memory \<Rightarrow> uint \<Rightarrow> uchar list \<Rightarrow> bool" where
  "cstr m a cs \<longleftrightarrow> bytes_at m a (length cs) = cs \<and> 0 \<notin> set cs \<and> m (a + of_nat (length cs)) = 0"

text \<open>Two ranges with no byte in common.\<close>

definition apart :: "uint \<Rightarrow> nat \<Rightarrow> uint \<Rightarrow> nat \<Rightarrow> bool" where
  "apart s k t l \<longleftrightarrow> (\<forall>i<k. \<forall>j<l. s + of_nat i \<noteq> t + of_nat j)"

section \<open>string.c\<close>

text \<open>\<open>rep stosb\<close> and \<open>rep stosl\<close> (x86.h).\<close>

fun stosb :: "uint \<Rightarrow> uchar \<Rightarrow> nat \<Rightarrow> memory \<Rightarrow> memory" where
  "stosb a c 0 m = m"
| "stosb a c (Suc k) m = stosb (a + 1) c k (m(a := c))"

fun stosl :: "uint \<Rightarrow> uint \<Rightarrow> nat \<Rightarrow> memory \<Rightarrow> memory" where
  "stosl a w 0 m = m"
| "stosl a w (Suc k) m = stosl (a + 4) w k (st32 a w m)"

definition memset :: "uint \<Rightarrow> cint \<Rightarrow> uint \<Rightarrow> memory \<Rightarrow> memory" where
  "memset dst c n m =
     (if dst mod 4 = 0 \<and> n mod 4 = 0 then
        let c = c AND 0xFF in
        stosl dst (push_bit 24 c OR push_bit 16 c OR push_bit 8 c OR c) (unat (n div 4)) m
      else stosb dst (ucast c) (unat n) m)"

text \<open>The loop of \<open>memcmp\<close>; the counter \<open>n\<close> is the number of iterations left.\<close>

fun memcmp_loop :: "memory \<Rightarrow> uint \<Rightarrow> uint \<Rightarrow> nat \<Rightarrow> cint" where
  "memcmp_loop m s1 s2 0 = 0"
| "memcmp_loop m s1 s2 (Suc k) =
     (if m s1 \<noteq> m s2 then ucast (m s1) - ucast (m s2) else memcmp_loop m (s1 + 1) (s2 + 1) k)"

definition memcmp :: "memory \<Rightarrow> uint \<Rightarrow> uint \<Rightarrow> uint \<Rightarrow> cint" where
  "memcmp m v1 v2 n = memcmp_loop m v1 v2 (unat n)"

text \<open>The two copying loops of \<open>memmove\<close>: upwards from the start, downwards from the end.\<close>

fun copy_up :: "uint \<Rightarrow> uint \<Rightarrow> nat \<Rightarrow> memory \<Rightarrow> memory" where
  "copy_up d s 0 m = m"
| "copy_up d s (Suc k) m = copy_up (d + 1) (s + 1) k (m(d := m s))"

fun copy_down :: "uint \<Rightarrow> uint \<Rightarrow> nat \<Rightarrow> memory \<Rightarrow> memory" where
  "copy_down d s 0 m = m"
| "copy_down d s (Suc k) m = copy_down (d - 1) (s - 1) k (m(d - 1 := m (s - 1)))"

definition memmove :: "uint \<Rightarrow> uint \<Rightarrow> uint \<Rightarrow> memory \<Rightarrow> memory" where
  "memmove d s n m =
     (if s < d \<and> s + n > d then copy_down (d + n) (s + n) (unat n) m else copy_up d s (unat n) m)"

definition memcpy :: "uint \<Rightarrow> uint \<Rightarrow> uint \<Rightarrow> memory \<Rightarrow> memory" where
  "memcpy dst src n m = memmove dst src n m"

fun strncmp_loop :: "memory \<Rightarrow> uint \<Rightarrow> uint \<Rightarrow> nat \<Rightarrow> cint" where
  "strncmp_loop m p q 0 = 0"
| "strncmp_loop m p q (Suc k) =
     (if m p \<noteq> 0 \<and> m p = m q then strncmp_loop m (p + 1) (q + 1) k else ucast (m p) - ucast (m q))"

definition strncmp :: "memory \<Rightarrow> uint \<Rightarrow> uint \<Rightarrow> uint \<Rightarrow> cint" where
  "strncmp m p q n = strncmp_loop m p q (unat n)"

text \<open>The first loop of \<open>strncpy\<close>; it returns the count that is left, the destination and memory.\<close>

fun strncpy_copy :: "nat \<Rightarrow> uint \<Rightarrow> uint \<Rightarrow> memory \<Rightarrow> nat \<times> uint \<times> memory" where
  "strncpy_copy 0 s t m = (0, s, m)"
| "strncpy_copy (Suc k) s t m =
     (let m' = m(s := m t) in
      if m t \<noteq> 0 then strncpy_copy k (s + 1) (t + 1) m' else (k, s + 1, m'))"

definition strncpy :: "uint \<Rightarrow> uint \<Rightarrow> cint \<Rightarrow> memory \<Rightarrow> memory" where
  "strncpy s t n m =
     (let (k, s', m') = strncpy_copy (nat (sint n)) s t m in stosb s' 0 k m')"

fun safestrcpy_copy :: "nat \<Rightarrow> uint \<Rightarrow> uint \<Rightarrow> memory \<Rightarrow> uint \<times> memory" where
  "safestrcpy_copy 0 s t m = (s, m)"
| "safestrcpy_copy (Suc k) s t m =
     (let m' = m(s := m t) in
      if m t \<noteq> 0 then safestrcpy_copy k (s + 1) (t + 1) m' else (s + 1, m'))"

definition safestrcpy :: "uint \<Rightarrow> uint \<Rightarrow> cint \<Rightarrow> memory \<Rightarrow> memory" where
  "safestrcpy s t n m =
     (if sint n \<le> 0 then m
      else let (s', m') = safestrcpy_copy (nat (sint n) - 1) s t m in m'(s' := 0))"

text \<open>\<open>strlen\<close>: the counter is an \<open>int\<close> and the loop runs until it meets a NUL, if it ever does.\<close>

partial_function (option) strlen_from :: "memory \<Rightarrow> uint \<Rightarrow> cint \<Rightarrow> cint option" where
  "strlen_from m s n = (if m (s + n) = 0 then Some n else strlen_from m s (n + 1))"

definition strlen :: "memory \<Rightarrow> uint \<Rightarrow> cint option" where
  "strlen m s = strlen_from m s 0"

section \<open>Words in memory\<close>

lemma u32_bytes_nth:
  "u32_bytes w = [ucast w, ucast (drop_bit 8 w), ucast (drop_bit 16 w), ucast (drop_bit 24 w)]"
  by (simp add: u32_bytes_def)

lemma ld32_st32_same [simp]: "ld32 (st32 a w m) a = w"
proof -
  have "[st32 a w m a, st32 a w m (a + 1), st32 a w m (a + 2), st32 a w m (a + 3)] = u32_bytes w"
    by (simp add: st32_def u32_bytes_def)
  then show ?thesis unfolding ld32_def by (simp only: bytes_u32_bytes)
qed

lemma st32_other: "b \<noteq> a \<Longrightarrow> b \<noteq> a + 1 \<Longrightarrow> b \<noteq> a + 2 \<Longrightarrow> b \<noteq> a + 3 \<Longrightarrow> st32 a w m b = m b"
  by (simp add: st32_def)

section \<open>The loops of string.c\<close>

lemma unat_pred:
  fixes x :: uint
  shows "unat (x - 1) < k \<and> x \<noteq> 0 \<or> x = 0 \<longleftrightarrow> unat x < Suc k"
proof (cases "x = 0")
  case False
  then have "0 < unat x" by (simp add: unat_gt_0)
  with False show ?thesis by (auto simp: unat_minus_one)
qed simp

lemma unat_neg_one: "unat (- 1 :: uint) = 4294967295"
  by (simp add: unsigned_minus_1_eq_mask mask_eq_exp_minus_1)

lemma stosb_eq: "stosb a c k m b = (if unat (b - a) < k then c else m b)"
proof (induction k arbitrary: a m)
  case (Suc k)
  have "b - (a + 1) = (b - a) - 1" by (simp add: algebra_simps)
  then have "stosb a c (Suc k) m b = (if unat ((b - a) - 1) < k then c else (m(a := c)) b)"
    by (simp only: stosb.simps Suc.IH)
  then show ?case using unat_pred [of "b - a" k] by (cases "b = a") auto
qed simp

lemma copy_up_eq:
  "unat (s - d) + k \<le> 2 ^ 32 \<Longrightarrow> copy_up d s k m b = (if unat (b - d) < k then m (s + (b - d)) else m b)"
proof (induction k arbitrary: d s m)
  case (Suc k)
  let ?x = "b - d"
  have IH: "copy_up (d + 1) (s + 1) k (m(d := m s)) b =
    (if unat (?x - 1) < k then (m(d := m s)) (s + ?x) else (m(d := m s)) b)"
  proof -
    have e: "(s + 1) - (d + 1) = s - d" "b - (d + 1) = ?x - 1" "s + 1 + (?x - 1) = s + ?x"
      by (simp_all add: algebra_simps)
    have "unat ((s + 1) - (d + 1)) + k \<le> 2 ^ 32" using Suc.prems unfolding e by simp
    from Suc.IH [OF this] show ?thesis by (simp only: e)
  qed
  show ?case
  proof (cases "?x = 0")
    case True
    then have "\<not> unat (?x - 1) < k" using Suc.prems by (simp add: unat_neg_one)
    with IH True show ?thesis by simp
  next
    case False
    have "s + ?x \<noteq> d" if "unat ?x \<le> k"
    proof
      assume "s + ?x = d"
      then have "(s - d) + ?x = 0" by (simp add: algebra_simps)
      then have "unat ((s - d) + ?x) = 0" by simp
      moreover have "unat ((s - d) + ?x) = unat (s - d) + unat ?x"
        using that Suc.prems by (intro unat_add_lem [THEN iffD1]) simp
      ultimately have "unat ?x = 0" by linarith
      with False show False by (metis unat_eq_0)
    qed
    then show ?thesis using IH False unat_pred [of ?x k] by auto
  qed
qed simp

lemma copy_down_eq:
  "unat (d - s) + k \<le> 2 ^ 32 \<Longrightarrow> copy_down d s k m b = (if unat (d - 1 - b) < k then m (s - (d - b)) else m b)"
proof (induction k arbitrary: d s m)
  case (Suc k)
  let ?x = "d - 1 - b"
  have IH: "copy_down (d - 1) (s - 1) k (m(d - 1 := m (s - 1))) b =
    (if unat (?x - 1) < k then (m(d - 1 := m (s - 1))) (s - (d - b)) else (m(d - 1 := m (s - 1))) b)"
  proof -
    have e: "(d - 1) - (s - 1) = d - s" "s - 1 - (d - 1 - b) = s - (d - b)"
      "d - 1 - 1 - b = ?x - 1"
      by (simp_all add: algebra_simps)
    have "unat ((d - 1) - (s - 1)) + k \<le> 2 ^ 32" using Suc.prems unfolding e by simp
    from Suc.IH [OF this] show ?thesis by (simp only: e)
  qed
  show ?case
  proof (cases "?x = 0")
    case True
    then have "\<not> unat (?x - 1) < k" "b = d - 1" using Suc.prems by (simp_all add: unat_neg_one)
    with IH True show ?thesis by simp
  next
    case False
    have "s - (d - b) \<noteq> d - 1" if "unat ?x \<le> k"
    proof
      assume "s - (d - b) = d - 1"
      then have "(d - s) + ?x = 0" by (simp add: algebra_simps)
      then have "unat ((d - s) + ?x) = 0" by simp
      moreover have "unat ((d - s) + ?x) = unat (d - s) + unat ?x"
        using that Suc.prems by (intro unat_add_lem [THEN iffD1]) simp
      ultimately have "unat ?x = 0" by linarith
      with False show False by (metis unat_eq_0)
    qed
    moreover have "b \<noteq> d - 1" using False by auto
    ultimately show ?thesis using IH False unat_pred [of ?x k] by auto
  qed
qed simp

text \<open>\<open>memset\<close> fills whole words where it can; either way it fills the bytes.\<close>

lemma fill_word:
  fixes c :: cint
  defines "w \<equiv> push_bit 24 (c AND 0xFF) OR push_bit 16 (c AND 0xFF) OR push_bit 8 (c AND 0xFF) OR (c AND 0xFF)"
  shows "ucast w = (ucast c :: uchar)" "ucast (drop_bit 8 w) = (ucast c :: uchar)"
    "ucast (drop_bit 16 w) = (ucast c :: uchar)" "ucast (drop_bit 24 w) = (ucast c :: uchar)"
proof -
  have ff: "bit (0xFF :: cint) n \<longleftrightarrow> n < 8" for n
  proof -
    have e: "(0xFF :: cint) = mask 8" by (simp add: mask_eq_exp_minus_1)
    show ?thesis unfolding e by (auto simp: bit_mask_iff)
  qed
  have ff8: "bit (0xFF :: int) n \<longleftrightarrow> n < 8" for n
  proof -
    have e: "(0xFF :: int) = mask 8" by (simp add: mask_eq_exp_minus_1)
    show ?thesis unfolding e by (auto simp: bit_mask_iff)
  qed
  show "ucast w = (ucast c :: uchar)"
    by (rule bit_word_eqI) (auto simp: w_def bit_simps ff ff8)
  show "ucast (drop_bit 8 w) = (ucast c :: uchar)"
    by (rule bit_word_eqI) (auto simp: w_def bit_simps ff ff8)
  show "ucast (drop_bit 16 w) = (ucast c :: uchar)"
    by (rule bit_word_eqI) (auto simp: w_def bit_simps ff ff8)
  show "ucast (drop_bit 24 w) = (ucast c :: uchar)"
    by (rule bit_word_eqI) (auto simp: w_def bit_simps ff ff8)
qed

lemma stosl_stosb:
  assumes "ucast w = c" "ucast (drop_bit 8 w) = c" "ucast (drop_bit 16 w) = c" "ucast (drop_bit 24 w) = c"
  shows "stosl a w k m = stosb a c (4 * k) m"
proof (induction k arbitrary: a m)
  case (Suc k)
  have four: "4 * Suc k = Suc (Suc (Suc (Suc (4 * k))))" by simp
  have "a + 1 + 1 = a + 2" "a + 1 + 1 + 1 = a + 3" "a + 1 + 1 + 1 + 1 = a + 4" by simp_all
  then have "stosb a c (4 * Suc k) m = stosb (a + 4) c (4 * k) (st32 a w m)"
    unfolding four by (simp only: stosb.simps st32_def assms)
  then show ?case by (simp only: stosl.simps Suc.IH)
qed simp

lemma memset_eq: "memset a c n m b = (if b - a < n then ucast c else m b)"
proof -
  have "stosl a (push_bit 24 (c AND 0xFF) OR push_bit 16 (c AND 0xFF) OR push_bit 8 (c AND 0xFF) OR (c AND 0xFF)) (unat (n div 4)) m
      = stosb a (ucast c) (unat n) m" if "n mod 4 = 0"
  proof -
    have "unat n = 4 * unat (n div 4)"
    proof -
      have "unat n mod 4 = 0" using arg_cong [OF that, of unat] by (simp add: unat_mod_distrib)
      then show ?thesis using mult_div_mod_eq [of 4 "unat n"] by (simp add: unat_div_distrib)
    qed
    then show ?thesis using stosl_stosb [OF fill_word] by simp
  qed
  then show ?thesis by (simp add: memset_def Let_def stosb_eq word_less_nat_alt)
qed

lemma unat_sub_uint: "unat (x - y :: uint) = (if unat y \<le> unat x then unat x - unat y else unat x + 2 ^ 32 - unat y)"
  using unat_sub_if' [of x y] by simp

lemma unat_mirror:
  fixes n x :: uint
  shows "unat (n - 1 - x) < unat n \<longleftrightarrow> x < n"
proof -
  have "unat n < 2 ^ 32" "unat x < 2 ^ 32" using unsigned_less [where 'a = nat, of n] unsigned_less [where 'a = nat, of x] by simp_all
  then show ?thesis by (auto simp: word_less_nat_alt unat_sub_uint)
qed

lemma memmove_eq:
  assumes "unat s + unat n < 2 ^ 32" "unat d + unat n \<le> 2 ^ 32"
  shows "memmove d s n m b = (if b - d < n then m (s + (b - d)) else m b)"
proof (cases "s < d \<and> s + n > d")
  case True
  then have sd: "unat (d - s) = unat d - unat s" "unat s < unat d"
    by (simp_all add: unat_sub word_less_nat_alt less_imp_le)
  have "unat (d + n - (s + n)) + unat n \<le> 2 ^ 32" using sd assms(2) by (simp add: algebra_simps)
  from copy_down_eq [OF this] have *: "memmove d s n m b = (if unat (d + n - 1 - b) < unat n then m (s + n - (d + n - b)) else m b)"
    using True by (simp add: memmove_def)
  have "unat (n - 1 - (b - d)) < unat n \<longleftrightarrow> b - d < n" by (rule unat_mirror)
  moreover have "d + n - 1 - b = n - 1 - (b - d)" "s + n - (d + n - b) = s + (b - d)" by (simp_all add: algebra_simps)
  ultimately show ?thesis using * by (simp only:)
next
  case False
  have "unat (s - d) + unat n \<le> 2 ^ 32"
  proof (cases "s < d")
    case True
    then have "\<not> d < s + n" using False by simp
    moreover have "unat (s + n) = unat s + unat n" using assms(1) by (intro unat_add_lem [THEN iffD1]) simp
    ultimately show ?thesis using True unsigned_less [where 'a = nat, of d] by (simp add: unat_sub_uint word_less_nat_alt)
  next
    case False
    then have "unat (s - d) = unat s - unat d" by (simp add: unat_sub not_less)
    then show ?thesis using assms(1) by simp
  qed
  from copy_up_eq [OF this] have "copy_up d s (unat n) m b = (if b - d < n then m (s + (b - d)) else m b)"
    by (simp add: word_less_nat_alt)
  with False show ?thesis by (auto simp: memmove_def)
qed

section \<open>Strings\<close>

lemma length_bytes_at [simp]: "length (bytes_at m a n) = n"
  by (simp add: bytes_at_def)

lemma bytes_at_nth [simp]: "i < n \<Longrightarrow> bytes_at m a n ! i = m (a + of_nat i)"
  by (simp add: bytes_at_def)

lemma bytes_at_Suc: "bytes_at m a (Suc n) = m a # bytes_at m (a + 1) n"
proof -
  have "[0..<Suc n] = 0 # map Suc [0..<n]" by (simp add: map_Suc_upt upt_conv_Cons del: upt_Suc)
  then show ?thesis by (simp add: bytes_at_def o_def add.assoc)
qed

lemma bytes_at_0 [simp]: "bytes_at m a 0 = []"
  by (simp add: bytes_at_def)

lemma bytes_at_eq_iff: "bytes_at m a n = bytes_at m' b n \<longleftrightarrow> (\<forall>i<n. m (a + of_nat i) = m' (b + of_nat i))"
  by (simp add: list_eq_iff_nth_eq)

lemma cstr_Nil [simp]: "cstr m a [] \<longleftrightarrow> m a = 0"
  by (simp add: cstr_def)

lemma cstr_Cons: "cstr m a (c # cs) \<longleftrightarrow> m a = c \<and> c \<noteq> 0 \<and> cstr m (a + 1) cs"
  by (auto simp: cstr_def bytes_at_Suc add.assoc)

lemma cstr_nth: "cstr m a cs \<Longrightarrow> i < length cs \<Longrightarrow> m (a + of_nat i) = cs ! i \<and> cs ! i \<noteq> 0"
  by (metis bytes_at_nth cstr_def nth_mem)

lemma cstr_end: "cstr m a cs \<Longrightarrow> m (a + of_nat (length cs)) = 0"
  by (simp add: cstr_def)

lemma cstr_cong:
  "(\<And>j. j \<le> length cs \<Longrightarrow> m' (a + of_nat j) = m (a + of_nat j)) \<Longrightarrow> cstr m' a cs = cstr m a cs"
proof -
  assume eq: "\<And>j. j \<le> length cs \<Longrightarrow> m' (a + of_nat j) = m (a + of_nat j)"
  then have "bytes_at m' a (length cs) = bytes_at m a (length cs)" by (simp add: bytes_at_eq_iff)
  with eq show ?thesis by (simp add: cstr_def)
qed

lemma strlen_from_eq:
  "cstr m s cs \<Longrightarrow> k \<le> length cs \<Longrightarrow> strlen_from m s (of_nat k) = Some (of_nat (length cs))"
proof (induction "length cs - k" arbitrary: k)
  case 0
  then show ?case using cstr_end [of m s cs] by (subst strlen_from.simps) auto
next
  case (Suc d)
  then have "m (s + of_nat k) \<noteq> 0" using cstr_nth [of m s cs k] by simp
  moreover have "strlen_from m s (of_nat (Suc k)) = Some (of_nat (length cs))" using Suc by (intro Suc.hyps) auto
  ultimately show ?case by (subst strlen_from.simps) (simp add: add.commute)
qed

lemma ucast_uchar_inj: "ucast (x :: uchar) = (ucast y :: cint) \<longleftrightarrow> x = y"
proof
  assume "ucast x = (ucast y :: cint)"
  then have "ucast (ucast x :: cint) = (ucast (ucast y :: cint) :: uchar)" by simp
  then show "x = y" by (simp add: bit_eq_iff bit_simps)
qed simp

lemma ucast_uchar_0: "ucast (x :: uchar) = (0 :: cint) \<longleftrightarrow> x = 0"
  using ucast_uchar_inj [of x 0] by simp

lemma memcmp_loop_0: "memcmp_loop m a b k = 0 \<longleftrightarrow> bytes_at m a k = bytes_at m b k"
proof (induction k arbitrary: a b)
  case (Suc k)
  then show ?case by (auto simp: bytes_at_Suc ucast_uchar_inj)
qed simp

lemma strncmp_loop_0:
  "cstr m p cs \<Longrightarrow> cstr m q ds \<Longrightarrow> strncmp_loop m p q k = 0 \<longleftrightarrow> take k cs = take k ds"
proof (induction k arbitrary: p q cs ds)
  case (Suc k)
  then show ?case by (cases cs; cases ds) (auto simp: cstr_Cons ucast_uchar_inj ucast_uchar_0)
qed simp

text \<open>The memory after the first loop of \<open>strncpy\<close> and \<open>safestrcpy\<close>, for a destination apart from the source.\<close>

lemma apart_Suc: "apart s (Suc k) t (Suc l) \<Longrightarrow> apart (s + 1) k (t + 1) l"
  unfolding apart_def
proof (intro allI impI)
  fix i j
  assume "\<forall>i<Suc k. \<forall>j<Suc l. s + of_nat i \<noteq> t + of_nat j" "i < k" "j < l"
  then have "s + of_nat (Suc i) \<noteq> t + of_nat (Suc j)" by (metis Suc_less_eq)
  then show "s + 1 + of_nat i \<noteq> t + 1 + of_nat j" by (simp add: ac_simps)
qed

lemma strncpy_copy_spec:
  assumes "cstr m t cs" "apart s k t (Suc (length cs))" "k < 2 ^ 32"
  defines "l \<equiv> min k (Suc (length cs))"
  shows "\<exists>m'. strncpy_copy k s t m = (k - l, s + of_nat l, m') \<and>
    (\<forall>b. m' b = (if unat (b - s) < l then (cs @ [0]) ! unat (b - s) else m b))"
  using assms(1-3) unfolding l_def
proof (induction k arbitrary: s t cs m)
  case (Suc k)
  show ?case
  proof (cases cs)
    case Nil
    then show ?thesis using Suc.prems(1) by (auto simp: Let_def unat_eq_0)
  next
    case (Cons c ds)
    define m1 where "m1 = m(s := c)"
    have c: "m t = c" "c \<noteq> 0" "cstr m (t + 1) ds" using Suc.prems(1) Cons by (auto simp: cstr_Cons)
    have ap: "apart (s + 1) k (t + 1) (Suc (length ds))" using Suc.prems(2) Cons apart_Suc by auto
    have "m1 (t + 1 + of_nat j) = m (t + 1 + of_nat j)" if "j \<le> length ds" for j
    proof -
      have "s + of_nat 0 \<noteq> t + of_nat (Suc j)"
        using Suc.prems(2) that Cons unfolding apart_def by (metis Suc_less_eq le_imp_less_Suc length_Cons zero_less_Suc)
      then show ?thesis by (simp add: add.assoc m1_def)
    qed
    then have "cstr m1 (t + 1) ds" using c(3) cstr_cong by metis
    from Suc.IH [OF this ap] Suc.prems(3) obtain m' where
      m': "strncpy_copy k (s + 1) (t + 1) m1 = (k - min k (Suc (length ds)), s + 1 + of_nat (min k (Suc (length ds))), m')"
      "\<And>b. m' b = (if unat (b - (s + 1)) < min k (Suc (length ds)) then (ds @ [0]) ! unat (b - (s + 1)) else m1 b)"
      by auto
    have "m' b = (if unat (b - s) < Suc (min k (Suc (length ds))) then (c # ds @ [0]) ! unat (b - s) else m b)" for b
    proof -
      have e: "b - (s + 1) = (b - s) - 1" by (simp add: algebra_simps)
      show ?thesis
      proof (cases "b = s")
        case True
        then show ?thesis using m'(2) [of b] Suc.prems(3) e by (auto simp: unat_neg_one m1_def)
      next
        case False
        then have "0 < unat (b - s)" "unat (b - s - 1) = unat (b - s) - 1" by (simp_all add: unat_gt_0 unat_minus_one)
        then show ?thesis using m'(2) [of b] False unfolding e by (auto simp: nth_Cons' m1_def)
      qed
    qed
    then show ?thesis using m'(1) c Cons by (auto simp: Let_def add.assoc m1_def)
  qed
qed simp

lemma safestrcpy_copy_eq:
  "safestrcpy_copy k s t m = (case strncpy_copy k s t m of (r, s', m') \<Rightarrow> (s', m'))"
  by (induction k arbitrary: s t m) (auto simp: Let_def)

lemma unat_of_nat_uint: "i < 2 ^ 32 \<Longrightarrow> unat (of_nat i :: uint) = i"
  by (simp add: unsigned_of_nat take_bit_nat_eq_self)

lemma sint_nat_less: "nat (sint (n :: cint)) < 2 ^ 31"
  using sint_less [of n] by simp

lemma strncpy_eq:
  assumes "cstr m t cs" "apart s (nat (sint n)) t (Suc (length cs))"
  defines "k \<equiv> nat (sint n)"
  shows "strncpy s t n m b = (if unat (b - s) < k then (cs @ replicate k 0) ! unat (b - s) else m b)"
proof -
  let ?l = "min k (Suc (length cs))"
  have k: "k < 2 ^ 31" unfolding k_def by (rule sint_nat_less)
  obtain m' where m': "strncpy_copy k s t m = (k - ?l, s + of_nat ?l, m')"
    "\<And>b. m' b = (if unat (b - s) < ?l then (cs @ [0]) ! unat (b - s) else m b)"
    using strncpy_copy_spec [OF assms(1), of s k] assms(2) k by (auto simp: k_def)
  have "unat (b - (s + of_nat ?l)) < k - ?l \<longleftrightarrow> ?l \<le> unat (b - s) \<and> unat (b - s) < k"
  proof -
    have e: "b - (s + of_nat ?l) = (b - s) - of_nat ?l" by (simp add: algebra_simps)
    have u: "unat (of_nat ?l :: uint) = ?l" using k by (intro unat_of_nat_uint) simp
    have lt: "unat (b - s) < 2 ^ 32" using unsigned_less [where 'a = nat, of "b - s"] by simp
    show ?thesis unfolding e unat_sub_uint u using k lt by auto
  qed
  then have "strncpy s t n m b = (if ?l \<le> unat (b - s) \<and> unat (b - s) < k then 0 else m' b)"
    using m'(1) by (simp add: strncpy_def k_def [symmetric] stosb_eq)
  then show ?thesis using m'(2) [of b] by (auto simp: nth_append)
qed

lemma safestrcpy_eq:
  assumes "cstr m t cs" "apart s (nat (sint n)) t (Suc (length cs))" "0 < sint n"
  defines "l \<equiv> min (nat (sint n) - 1) (Suc (length cs))"
  shows "safestrcpy s t n m b = (if unat (b - s) < l then (cs @ [0]) ! unat (b - s)
     else if unat (b - s) = l then 0 else m b)"
proof -
  let ?k = "nat (sint n) - 1"
  have k: "nat (sint n) < 2 ^ 31" by (rule sint_nat_less)
  then have k1: "?k < 2 ^ 32" by simp
  have "apart s ?k t (Suc (length cs))" using assms(2) by (auto simp: apart_def)
  with k1 obtain m' where m': "strncpy_copy ?k s t m = (?k - l, s + of_nat l, m')"
    "\<And>b. m' b = (if unat (b - s) < l then (cs @ [0]) ! unat (b - s) else m b)"
    using strncpy_copy_spec [OF assms(1), of s ?k] unfolding l_def by auto
  have "b = s + of_nat l \<longleftrightarrow> unat (b - s) = l"
  proof
    assume "b = s + of_nat l"
    then have "b - s = of_nat l" by simp
    moreover have "unat (of_nat l :: uint) = l" using k by (intro unat_of_nat_uint) (simp add: l_def)
    ultimately show "unat (b - s) = l" by simp
  next
    assume "unat (b - s) = l"
    moreover have "b - s = of_nat (unat (b - s))" by simp
    ultimately have "b - s = of_nat l" by simp
    then show "b = s + of_nat l" by (simp add: algebra_simps)
  qed
  then show ?thesis
    using m' assms(3) by (simp add: safestrcpy_def safestrcpy_copy_eq)
qed

section \<open>Properties\<close>

text \<open>
  C34. \<open>memmove\<close> copies correctly whatever the overlap of source and destination: the destination
  range holds the bytes the source range held before the call and nothing else changes, as
  long as neither range runs past the top of the address space.
\<close>

theorem memmove_overlap:
  assumes "unat s + unat n < 2 ^ 32" and "unat d + unat n \<le> 2 ^ 32"
  shows "bytes_at (memmove d s n m) d (unat n) = bytes_at m s (unat n) \<and>
    (\<forall>b. \<not> b - d < n \<longrightarrow> memmove d s n m b = m b)"
proof -
  have "of_nat i < n" if "i < unat n" for i
    using that unsigned_less [where 'a = nat, of n] by (simp add: word_less_nat_alt unat_of_nat_uint)
  then show ?thesis by (auto simp: bytes_at_def memmove_eq [OF assms])
qed

theorem memmove_overlap_witness:
  "bytes_at (memmove 1001 1000 3 (\<lambda>a. ucast a)) 1001 3 = [0xE8, 0xE9, 0xEA]"
  using memmove_overlap [of 1000 3 1001 "\<lambda>a. ucast a"]
  by (simp add: bytes_at_def upt_rec)

text \<open>
  Copying a string to a destination apart from it. \<open>strncpy\<close> with a count \<open>n\<close> writes exactly \<open>n\<close>
  bytes: the string, cut at \<open>n\<close> and padded with NULs. \<open>safestrcpy\<close> with a positive count leaves the
  first \<open>n - 1\<close> bytes of the string at the destination, always NUL-terminated. Neither writes
  outside the \<open>n\<close> bytes.
\<close>

lemma string_copies:
  assumes "cstr m t cs" and "apart s (nat (sint n)) t (Suc (length cs))" and "0 < sint n"
  shows "bytes_at (strncpy s t n m) s (nat (sint n)) = take (nat (sint n)) (cs @ replicate (nat (sint n)) 0) \<and>
    cstr (safestrcpy s t n m) s (take (nat (sint n) - 1) cs) \<and>
    (\<forall>b. nat (sint n) \<le> unat (b - s) \<longrightarrow> strncpy s t n m b = m b \<and> safestrcpy s t n m b = m b)"
proof -
  let ?k = "nat (sint n)"
  have k: "?k < 2 ^ 31" "0 < ?k" using sint_nat_less assms(3) by auto
  have u: "unat (of_nat i :: uint) = i" if "i \<le> ?k" for i
    using that k by (intro unat_of_nat_uint) simp
  have "bytes_at (strncpy s t n m) s ?k = take ?k (cs @ replicate ?k 0)"
    using k u by (intro nth_equalityI) (auto simp: strncpy_eq [OF assms(1,2)] nth_append)
  moreover have "cstr (safestrcpy s t n m) s (take (?k - 1) cs)"
  proof -
    have "bytes_at (safestrcpy s t n m) s (length (take (?k - 1) cs)) = take (?k - 1) cs"
    proof (rule nth_equalityI)
      fix i
      assume "i < length (bytes_at (safestrcpy s t n m) s (length (take (?k - 1) cs)))"
      then have "i < length cs" "i < ?k - 1" "unat (of_nat i :: uint) = i" using u by auto
      then show "bytes_at (safestrcpy s t n m) s (length (take (?k - 1) cs)) ! i = take (?k - 1) cs ! i"
        by (simp add: safestrcpy_eq [OF assms] nth_append)
    qed simp
    moreover have "safestrcpy s t n m (s + of_nat (min (length cs) (?k - 1))) = 0"
    proof (cases "length cs \<le> ?k - 1")
      case True
      then have "unat (of_nat (length cs) :: uint) = length cs" by (intro u) simp
      with True show ?thesis by (auto simp: safestrcpy_eq [OF assms] nth_append)
    next
      case False
      have "unat (of_nat (?k - 1) :: uint) = ?k - 1" by (rule u) simp
      with False show ?thesis by (simp add: safestrcpy_eq [OF assms] min_def)
    qed
    moreover have "0 \<notin> set (take (?k - 1) cs)" using assms(1) by (auto simp: cstr_def dest: in_set_takeD)
    ultimately show ?thesis by (simp add: cstr_def)
  qed
  moreover have "strncpy s t n m b = m b \<and> safestrcpy s t n m b = m b" if "?k \<le> unat (b - s)" for b
  proof -
    have "min (?k - 1) (Suc (length cs)) < unat (b - s)" using that k(2) by linarith
    with that show ?thesis by (auto simp: strncpy_eq [OF assms(1,2)] safestrcpy_eq [OF assms])
  qed
  ultimately show ?thesis by blast
qed

text \<open>
  Comparing and measuring strings. \<open>strlen\<close> returns the length of every NUL-terminated string;
  \<open>strncmp\<close> of two strings is 0 exactly when their first \<open>n\<close> characters agree; \<open>memcmp\<close> is 0 exactly
  when the two ranges hold the same bytes.
\<close>

lemma string_compare:
  assumes "cstr m p cs" and "cstr m q ds"
  shows "strlen m p = Some (of_nat (length cs)) \<and>
    (strncmp m p q n = 0 \<longleftrightarrow> take (unat n) cs = take (unat n) ds) \<and>
    (memcmp m p q n = 0 \<longleftrightarrow> bytes_at m p (unat n) = bytes_at m q (unat n))"
  using strlen_from_eq [OF assms(1), of 0] strncmp_loop_0 [OF assms]
  by (simp add: strlen_def strncmp_def memcmp_def memcmp_loop_0)

end
