(* ===== verification/Mmu.thy ===== *)
theory Mmu
  imports Memory
begin

text \<open>
  The memory layout of the kernel (memlayout.h) and the paging constants and macros of mmu.h,
  with the arithmetic of pages the other theories use.
\<close>

section \<open>memlayout.h\<close>

definition EXTMEM :: uint where "EXTMEM = 0x100000"

definition PHYSTOP :: uint where "PHYSTOP = 0xE000000"

definition DEVSPACE :: uint where "DEVSPACE = 0xFE000000"

definition KERNBASE :: uint where "KERNBASE = 0x80000000"

definition KERNLINK :: uint where "KERNLINK = KERNBASE + EXTMEM"

definition v2p :: "uint \<Rightarrow> uint" where "v2p a = a - KERNBASE"

definition p2v :: "uint \<Rightarrow> uint" where "p2v a = a + KERNBASE"

section \<open>mmu.h\<close>

definition PGSIZE :: uint where "PGSIZE = 4096"

definition PGROUNDUP :: "uint \<Rightarrow> uint" where "PGROUNDUP sz = (sz + PGSIZE - 1) AND NOT (PGSIZE - 1)"

definition PGROUNDDOWN :: "uint \<Rightarrow> uint" where "PGROUNDDOWN a = a AND NOT (PGSIZE - 1)"

definition PDX :: "uint \<Rightarrow> uint" where "PDX va = drop_bit 22 va AND 0x3FF"

definition PTX :: "uint \<Rightarrow> uint" where "PTX va = drop_bit 12 va AND 0x3FF"

definition PGADDR :: "uint \<Rightarrow> uint \<Rightarrow> uint \<Rightarrow> uint" where
  "PGADDR d t o' = push_bit 22 d OR push_bit 12 t OR o'"

definition NPDENTRIES :: nat where "NPDENTRIES = 1024"

definition NPTENTRIES :: nat where "NPTENTRIES = 1024"

definition PTE_P :: uint where "PTE_P = 1"

definition PTE_W :: uint where "PTE_W = 2"

definition PTE_U :: uint where "PTE_U = 4"

definition PTE_ADDR :: "uint \<Rightarrow> uint" where "PTE_ADDR pte = pte AND NOT 0xFFF"

definition PTE_FLAGS :: "uint \<Rightarrow> uint" where "PTE_FLAGS pte = pte AND 0xFFF"

lemmas layout_defs = EXTMEM_def PHYSTOP_def DEVSPACE_def KERNBASE_def KERNLINK_def v2p_def p2v_def

section \<open>Pages\<close>

definition pg_aligned :: "uint \<Rightarrow> bool" where
  "pg_aligned a \<longleftrightarrow> a mod PGSIZE = 0"

definition in_page :: "uint \<Rightarrow> uint \<Rightarrow> bool" where
  "in_page a b \<longleftrightarrow> b - a < PGSIZE"

lemma v2p_p2v [simp]: "v2p (p2v a) = a" "p2v (v2p a) = a"
  by (simp_all add: v2p_def p2v_def)

lemma pg_aligned_unat: "pg_aligned a \<longleftrightarrow> unat a mod 4096 = 0"
  by (simp add: pg_aligned_def PGSIZE_def unat_mod_distrib flip: unat_eq_0)

lemma pg_alignedE:
  assumes "pg_aligned a"
  obtains q where "unat a = 4096 * q"
proof -
  have "unat a = 4096 * (unat a div 4096)" using assms mult_div_mod_eq [of 4096 "unat a"] by (simp add: pg_aligned_unat)
  then show thesis by (rule that)
qed

lemma pg_aligned_bits: "pg_aligned a \<longleftrightarrow> (\<forall>n<12. \<not> bit a n)"
proof -
  have "pg_aligned a \<longleftrightarrow> take_bit 12 a = 0" by (simp add: pg_aligned_def PGSIZE_def take_bit_eq_mod)
  also have "\<dots> \<longleftrightarrow> (\<forall>n<12. \<not> bit a n)" by (auto simp: bit_eq_iff bit_simps possible_bit_def)
  finally show ?thesis .
qed

lemma page_mask_bit: "bit (NOT (PGSIZE - 1)) n \<longleftrightarrow> 12 \<le> n \<and> n < 32"
proof -
  have e: "PGSIZE - 1 = mask 12" by (simp add: PGSIZE_def mask_eq_exp_minus_1)
  show ?thesis unfolding e by (auto simp: bit_simps possible_bit_def)
qed

lemma PGROUNDDOWN_bit: "bit (PGROUNDDOWN a) n \<longleftrightarrow> 12 \<le> n \<and> bit a n"
proof -
  have "bit a n \<Longrightarrow> n < 32" using bit_imp_le_length [of a n] by simp
  then show ?thesis unfolding PGROUNDDOWN_def bit_and_iff page_mask_bit by auto
qed

lemma PGROUNDDOWN_aligned [simp]: "pg_aligned (PGROUNDDOWN a)"
  by (simp add: pg_aligned_bits PGROUNDDOWN_bit)

lemma PGROUNDDOWN_id: "pg_aligned a \<Longrightarrow> PGROUNDDOWN a = a"
  by (rule bit_word_eqI) (metis PGROUNDDOWN_bit not_le pg_aligned_bits)

lemma PGROUNDDOWN_eq: "PGROUNDDOWN a = a - a mod PGSIZE"
proof -
  have "PGROUNDDOWN a = push_bit 12 (drop_bit 12 a)"
    by (rule bit_word_eqI) (auto simp: PGROUNDDOWN_bit bit_simps)
  also have "\<dots> = a - take_bit 12 a"
    by (metis add_diff_cancel_right' bits_ident)
  finally show ?thesis by (simp add: take_bit_eq_mod PGSIZE_def)
qed

lemma PGROUNDUP_down: "PGROUNDUP a = PGROUNDDOWN (a + PGSIZE - 1)"
  by (simp add: PGROUNDUP_def PGROUNDDOWN_def)

lemma PGROUNDUP_aligned [simp]: "pg_aligned (PGROUNDUP a)"
  by (simp add: PGROUNDUP_down)

lemma unat_PGROUNDDOWN: "unat (PGROUNDDOWN a) = unat a - unat a mod 4096"
proof -
  have "unat (a mod PGSIZE) = unat a mod 4096" by (simp add: PGSIZE_def unat_mod_distrib)
  then show ?thesis unfolding PGROUNDDOWN_eq by (simp add: unat_sub_uint)
qed

lemma pg_aligned_less: "pg_aligned a \<Longrightarrow> unat a \<le> 2 ^ 32 - 4096"
proof -
  assume "pg_aligned a"
  then obtain q where q: "unat a = 4096 * q" by (rule pg_alignedE)
  have "unat a < 2 ^ 32" using unsigned_less [where 'a = nat, of a] by simp
  with q have "q < 1048576" by simp
  with q show ?thesis by simp
qed

lemma unat_page_add: "pg_aligned a \<Longrightarrow> i < 4096 \<Longrightarrow> unat (a + of_nat i) = unat a + i"
  using pg_aligned_less [of a] by (subst unat_add_lem [THEN iffD1]) (simp_all add: unat_of_nat_uint)

text \<open>Different pages have no byte in common.\<close>

lemma pages_apart:
  assumes "pg_aligned a" "pg_aligned b" "a \<noteq> b" "i < 4096"
  shows "\<not> in_page a (b + of_nat i)"
proof -
  have le: "unat a \<le> 2 ^ 32 - 4096" "unat b \<le> 2 ^ 32 - 4096" using assms(1,2) pg_aligned_less by auto
  have ne: "unat a \<noteq> unat b" using assms(3) by (simp add: word_unat_eq_iff)
  obtain p q where pq: "unat a = 4096 * p" "unat b = 4096 * q" using assms(1,2) by (metis pg_alignedE)
  have "unat b + 4096 \<le> unat a \<or> unat a + 4096 \<le> unat b" using ne unfolding pq by (cases p q rule: linorder_cases) auto
  then have "4096 \<le> unat (b + of_nat i - a)"
    using assms(4) le by (auto simp: unat_sub_uint unat_page_add [OF assms(2,4)])
  then show ?thesis by (simp add: in_page_def PGSIZE_def word_less_nat_alt)
qed

lemma in_page_self: "i < 4096 \<Longrightarrow> in_page a (a + of_nat i)"
  by (simp add: in_page_def PGSIZE_def word_less_nat_alt unat_of_nat_uint)

text \<open>Words of a page.\<close>

lemma ld32_cong: "(\<And>i. i < 4 \<Longrightarrow> m (a + of_nat i) = m' (a + of_nat i)) \<Longrightarrow> ld32 m a = ld32 m' a"
proof -
  assume eq: "\<And>i. i < 4 \<Longrightarrow> m (a + of_nat i) = m' (a + of_nat i)"
  from eq [of 0] eq [of 1] eq [of 2] eq [of 3] show ?thesis by (simp add: ld32_def)
qed

lemma st32_outside: "\<not> unat (b - a) < 4 \<Longrightarrow> st32 a w m b = m b"
proof (rule st32_other)
  assume n: "\<not> unat (b - a) < 4"
  have "unat (b - a) = 0 \<Longrightarrow> False" "unat (b - a) = 1 \<Longrightarrow> False" "unat (b - a) = 2 \<Longrightarrow> False" "unat (b - a) = 3 \<Longrightarrow> False"
    using n by simp_all
  then show "b \<noteq> a" "b \<noteq> a + 1" "b \<noteq> a + 2" "b \<noteq> a + 3" by auto
qed

end
