(* ===== verification/Kalloc.thy ===== *)
theory Kalloc
  imports Mmu
begin

text \<open>
  The physical page allocator (kalloc.c). The free list is in the free pages themselves: the
  first word of a free page is the address of the next one. The kernel's memory and the list
  head are the bottom of the chain of state records; \<open>kend\<close> and \<open>kdata\<close> are the linker's symbols
  \<open>end\<close> and \<open>data\<close>, the first address after the kernel image and the start of its writable data;
  \<open>kpgdir\<close> is the variable of vm.c and \<open>cr3\<close> the page table register. \<open>kmem.lock\<close> makes each call atomic.
\<close>

section \<open>Data\<close>

record mstate =
  mem :: memory
  freelist :: uint
  use_lock :: bool
  kend :: uint
  kdata :: uint
  kpgdir :: uint
  cr3 :: uint

section \<open>Operations\<close>

definition kfree :: "uint \<Rightarrow> ('z mstate_scheme, unit) kop" where
  "kfree v s =
     (if v mod PGSIZE \<noteq> 0 \<or> v < kend s \<or> v2p v \<ge> PHYSTOP then Panic ''kfree''
      else Done () (s\<lparr>mem := st32 v (freelist s) (memset v 1 PGSIZE (mem s)), freelist := v\<rparr>))"

definition kalloc :: "('z mstate_scheme, uint) kop" where
  "kalloc s =
     (let r = freelist s in
      if r \<noteq> 0 then Done r (s\<lparr>freelist := ld32 (mem s) r\<rparr>) else Done r s)"

text \<open>The loop of \<open>freerange\<close>: \<open>kfree\<close> panics above \<open>PHYSTOP\<close>, so the pointer never wraps.\<close>

function freerange_loop :: "uint \<Rightarrow> uint \<Rightarrow> ('z mstate_scheme, unit) kop" where
  "freerange_loop p vend s =
     (if p + PGSIZE \<le> vend then
        (case kfree p s of
           Done _ s' \<Rightarrow> freerange_loop (p + PGSIZE) vend s'
         | Panic msg \<Rightarrow> Panic msg
         | Sleep c s' \<Rightarrow> Sleep c s'
         | Diverge \<Rightarrow> Diverge
         | Fault \<Rightarrow> Fault)
      else Done () s)"
  by pat_completeness auto

termination
proof (relation "measure (\<lambda>(p, vend, s). 2 ^ 32 - unat p)")
  fix p vend :: uint and s s' :: "'z mstate_scheme" and u
  assume "kfree p s = Done u s'"
  then have "p - KERNBASE < PHYSTOP" by (auto simp: kfree_def v2p_def not_le split: if_splits)
  then have "unat (p - KERNBASE) < unat PHYSTOP" by (simp add: word_less_nat_alt)
  moreover have "unat p < 2 ^ 32" using unsigned_less [where 'a = nat, of p] by simp
  ultimately have b: "unat p < 0x8E000000" by (auto simp: unat_sub_uint KERNBASE_def PHYSTOP_def split: if_splits)
  then have "unat (p + PGSIZE) = unat p + 4096" by (subst unat_add_lem [THEN iffD1]) (simp_all add: PGSIZE_def)
  with b show "((p + PGSIZE, vend, s'), p, vend, s) \<in> measure (\<lambda>(p, vend, s). 2 ^ 32 - unat p)" by simp
qed simp

definition freerange :: "uint \<Rightarrow> uint \<Rightarrow> ('z mstate_scheme, unit) kop" where
  "freerange vstart vend = freerange_loop (PGROUNDUP vstart) vend"

definition kinit1 :: "uint \<Rightarrow> uint \<Rightarrow> ('z mstate_scheme, unit) kop" where
  "kinit1 vstart vend =
     kseq (kmodify (\<lambda>s. s\<lparr>use_lock := False\<rparr>))
     (freerange vstart vend)"

definition kinit2 :: "uint \<Rightarrow> uint \<Rightarrow> ('z mstate_scheme, unit) kop" where
  "kinit2 vstart vend =
     kseq (freerange vstart vend)
     (kmodify (\<lambda>s. s\<lparr>use_lock := True\<rparr>))"

section \<open>The free list\<close>

definition page_ok :: "'z mstate_scheme \<Rightarrow> uint \<Rightarrow> bool" where
  "page_ok s v \<longleftrightarrow> pg_aligned v \<and> kend s \<le> v \<and> v2p v < PHYSTOP \<and> v \<noteq> 0"

fun run_list :: "memory \<Rightarrow> uint \<Rightarrow> uint list \<Rightarrow> bool" where
  "run_list m a [] \<longleftrightarrow> a = 0"
| "run_list m a (x # xs) \<longleftrightarrow> a = x \<and> run_list m (ld32 m x) xs"

text \<open>The free pages of a state, in the order of the list.\<close>

definition free_pages :: "'z mstate_scheme \<Rightarrow> uint list \<Rightarrow> bool" where
  "free_pages s xs \<longleftrightarrow> run_list (mem s) (freelist s) xs \<and> distinct xs \<and> (\<forall>x \<in> set xs. page_ok s x)"

text \<open>What the allocator leaves alone.\<close>

definition mframe :: "'z mstate_scheme \<Rightarrow> 'z mstate_scheme \<Rightarrow> bool" where
  "mframe s s' \<longleftrightarrow> use_lock s' = use_lock s \<and> kend s' = kend s \<and> kdata s' = kdata s \<and>
     kpgdir s' = kpgdir s \<and> cr3 s' = cr3 s \<and> mstate.more s' = mstate.more s"

definition upd_mem :: "(memory \<Rightarrow> memory) \<Rightarrow> 'z mstate_scheme \<Rightarrow> 'z mstate_scheme" where
  "upd_mem f s = s\<lparr>mem := f (mem s)\<rparr>"

text \<open>The pages of a range.\<close>

definition page_range :: "uint \<Rightarrow> nat \<Rightarrow> uint list" where
  "page_range p n = map (\<lambda>i. p + of_nat i * PGSIZE) [0..<n]"

text \<open>A machine whose memory is clear and whose kernel image ends at the given address.\<close>

definition demo_mem :: "uint \<Rightarrow> mstate" where
  "demo_mem e = \<lparr>mem = (\<lambda>_. 0), freelist = 0, use_lock = False, kend = e, kdata = e, kpgdir = 0, cr3 = 0\<rparr>"

section \<open>Lemmas\<close>

lemma run_list_cong:
  "(\<And>x i. x \<in> set xs \<Longrightarrow> i < 4 \<Longrightarrow> m' (x + of_nat i) = m (x + of_nat i)) \<Longrightarrow> run_list m' a xs = run_list m a xs"
proof (induction xs arbitrary: a)
  case (Cons x xs)
  moreover have "ld32 m' x = ld32 m x" by (rule ld32_cong) (use Cons.prems in simp)
  ultimately show ?case by simp
qed simp

lemma run_list_unique: "run_list m a xs \<Longrightarrow> run_list m a ys \<Longrightarrow> 0 \<notin> set xs \<Longrightarrow> 0 \<notin> set ys \<Longrightarrow> xs = ys"
proof (induction xs arbitrary: a ys)
  case Nil
  then show ?case by (cases ys) auto
next
  case (Cons x xs)
  then show ?case by (cases ys) auto
qed

text \<open>The list depends on the free pages only: writing to other pages does not change it.\<close>

lemma free_pages_cong:
  assumes "free_pages s xs" "freelist t = freelist s" "kend t = kend s"
    and "\<And>x b. x \<in> set xs \<Longrightarrow> in_page x b \<Longrightarrow> mem t b = mem s b"
  shows "free_pages t xs"
proof -
  have "run_list (mem t) (freelist s) xs = run_list (mem s) (freelist s) xs"
    using assms(4) in_page_self by (intro run_list_cong) simp
  with assms(1-3) show ?thesis by (simp add: free_pages_def page_ok_def)
qed

lemma kfree_outside: "\<not> in_page v b \<Longrightarrow> st32 v w (memset v 1 PGSIZE m) b = m b"
proof -
  assume n: "\<not> in_page v b"
  then have "\<not> unat (b - v) < 4" by (simp add: in_page_def word_less_nat_alt PGSIZE_def)
  with n show ?thesis by (simp add: st32_outside memset_eq in_page_def)
qed

lemma kfree_spec:
  assumes "free_pages s xs" "page_ok s v" "v \<notin> set xs"
  shows "\<exists>s'. kfree v s = Done () s' \<and> free_pages s' (v # xs) \<and> mframe s s' \<and>
    (\<forall>b. \<not> in_page v b \<longrightarrow> mem s' b = mem s b)"
proof -
  let ?s = "s\<lparr>mem := st32 v (freelist s) (memset v 1 PGSIZE (mem s)), freelist := v\<rparr>"
  have v: "pg_aligned v" "kend s \<le> v" "v2p v < PHYSTOP" "v \<noteq> 0" using assms(2) by (auto simp: page_ok_def)
  then have run: "kfree v s = Done () ?s" by (simp add: kfree_def pg_aligned_def not_less not_le)
  have "mem ?s (x + of_nat i) = mem s (x + of_nat i)" if "x \<in> set xs" "i < 4" for x i
  proof -
    have "pg_aligned x" "x \<noteq> v" using that assms by (auto simp: free_pages_def page_ok_def)
    then show ?thesis using kfree_outside [OF pages_apart [OF v(1)]] that(2) by simp
  qed
  then have "run_list (mem ?s) (freelist s) xs = run_list (mem s) (freelist s) xs" by (rule run_list_cong)
  then have "free_pages ?s (v # xs)"
    using assms v by (auto simp: free_pages_def page_ok_def)
  with run show ?thesis using kfree_outside by (auto simp: mframe_def)
qed

lemma kalloc_nil: "free_pages s [] \<Longrightarrow> kalloc s = Done 0 s"
  by (simp add: free_pages_def kalloc_def)

lemma kalloc_cons:
  "free_pages s (x # xs) \<Longrightarrow> \<exists>s'. kalloc s = Done x s' \<and> free_pages s' xs \<and> mframe s s' \<and> mem s' = mem s"
  by (auto simp: free_pages_def kalloc_def page_ok_def mframe_def)

section \<open>The contract of the allocator\<close>

text \<open>
  What the page table, process and pipe code relies on: a page that is allocated was free and
  is no longer, freeing gives it back, and a client that writes to its own pages does not
  disturb the list.
\<close>

locale page_allocator =
  fixes alloc :: "('s, uint) kop"
    and free :: "uint \<Rightarrow> ('s, unit) kop"
    and frees :: "'s \<Rightarrow> uint list \<Rightarrow> bool"
    and pmem :: "'s \<Rightarrow> memory"
    and poke :: "(memory \<Rightarrow> memory) \<Rightarrow> 's \<Rightarrow> 's"
    and okpg :: "'s \<Rightarrow> uint \<Rightarrow> bool"
    and frame :: "'s \<Rightarrow> 's \<Rightarrow> bool"
  assumes frame_refl: "frame s s"
    and frame_trans: "frame s t \<Longrightarrow> frame t u \<Longrightarrow> frame s u"
    and frame_okpg: "frame s t \<Longrightarrow> okpg t v = okpg s v"
    and okpg_aligned: "okpg s v \<Longrightarrow> pg_aligned v \<and> v \<noteq> 0"
    and frees_ok: "frees s xs \<Longrightarrow> distinct xs \<and> (\<forall>x \<in> set xs. okpg s x)"
    and poke_law: "pmem (poke f s) = f (pmem s) \<and> frame s (poke f s)"
    and poke_frees: "frees s xs \<Longrightarrow> (\<And>x b. x \<in> set xs \<Longrightarrow> in_page x b \<Longrightarrow> f (pmem s) b = pmem s b) \<Longrightarrow>
      frees (poke f s) xs"
    and alloc_nil: "frees s [] \<Longrightarrow> alloc s = Done 0 s"
    and alloc_cons: "frees s (x # xs) \<Longrightarrow>
      \<exists>s'. alloc s = Done x s' \<and> frees s' xs \<and> frame s s' \<and> pmem s' = pmem s"
    and free_law: "frees s xs \<Longrightarrow> okpg s v \<Longrightarrow> v \<notin> set xs \<Longrightarrow>
      \<exists>s'. free v s = Done () s' \<and> frees s' (v # xs) \<and> frame s s' \<and>
        (\<forall>b. \<not> in_page v b \<longrightarrow> pmem s' b = pmem s b)"
begin

text \<open>Allocate a page and clear it, the way page tables and user pages are made.\<close>

lemma alloc_zeroed:
  assumes "frees s (x # xs)"
  shows "\<exists>s'. kbind alloc (\<lambda>p. kseq (kmodify (poke (memset p 0 PGSIZE))) (kret p)) s = Done x s' \<and>
    frees s' xs \<and> frame s s' \<and> okpg s' x \<and> x \<notin> set xs \<and>
    (\<forall>b. pmem s' b = (if in_page x b then 0 else pmem s b))"
proof -
  obtain s1 where s1: "alloc s = Done x s1" "frees s1 xs" "frame s s1" "pmem s1 = pmem s"
    using alloc_cons [OF assms] by blast
  have x: "okpg s x" "x \<notin> set xs" and al: "\<And>y. y \<in> set xs \<Longrightarrow> okpg s y"
    using frees_ok [OF assms] by auto
  have "memset x 0 PGSIZE (pmem s1) b = pmem s1 b" if "y \<in> set xs" "in_page y b" for y b
  proof -
    have "pg_aligned x" "pg_aligned y" "x \<noteq> y" using x al that okpg_aligned by blast+
    moreover have "b = y + of_nat (unat (b - y))" "unat (b - y) < 4096"
      using that(2) by (simp_all add: in_page_def PGSIZE_def word_less_nat_alt)
    ultimately have "\<not> in_page x b" using pages_apart by metis
    then show ?thesis by (simp add: memset_eq in_page_def)
  qed
  then have "frees (poke (memset x 0 PGSIZE) s1) xs" using poke_frees s1(2) by blast
  moreover have "frame s (poke (memset x 0 PGSIZE) s1)" using poke_law frame_trans s1(3) by blast
  moreover have "pmem (poke (memset x 0 PGSIZE) s1) b = (if in_page x b then 0 else pmem s b)" for b
    using poke_law [of "memset x 0 PGSIZE" s1] s1(4) by (simp add: memset_eq in_page_def)
  ultimately show ?thesis using s1(1) x frame_okpg by (auto simp: kop_simps)
qed

text \<open>A page that is allocated and freed again is the next one to be allocated.\<close>

lemma alloc_free:
  assumes "frees s (x # xs)"
  shows "\<exists>s'. kbind alloc free s = Done () s' \<and> frees s' (x # xs) \<and> frame s s' \<and>
    (\<forall>b. \<not> in_page x b \<longrightarrow> pmem s' b = pmem s b)"
proof -
  obtain s1 where s1: "alloc s = Done x s1" "frees s1 xs" "frame s s1" "pmem s1 = pmem s"
    using alloc_cons [OF assms] by blast
  have "okpg s1 x" "x \<notin> set xs" using frees_ok [OF assms] frame_okpg [OF s1(3)] by auto
  from free_law [OF s1(2) this] obtain s2 where "free x s1 = Done () s2" "frees s2 (x # xs)" "frame s1 s2"
    "\<forall>b. \<not> in_page x b \<longrightarrow> pmem s2 b = pmem s1 b" by blast
  with s1 frame_trans show ?thesis by (auto simp: kop_simps)
qed

end

interpretation km: page_allocator kalloc kfree free_pages mem upd_mem page_ok mframe
proof
  fix s :: "'a mstate_scheme" and f xs
  assume "free_pages s xs" "\<And>x b. x \<in> set xs \<Longrightarrow> in_page x b \<Longrightarrow> f (mem s) b = mem s b"
  then show "free_pages (upd_mem f s) xs" by (auto intro: free_pages_cong simp: upd_mem_def)
next
  fix s :: "'a mstate_scheme" and xs v
  assume "free_pages s xs" "page_ok s v" "v \<notin> set xs"
  then show "\<exists>s'. kfree v s = Done () s' \<and> free_pages s' (v # xs) \<and> mframe s s' \<and>
      (\<forall>b. \<not> in_page v b \<longrightarrow> mem s' b = mem s b)" by (rule kfree_spec)
next
  fix s :: "'a mstate_scheme" and x xs
  assume "free_pages s (x # xs)"
  then show "\<exists>s'. kalloc s = Done x s' \<and> free_pages s' xs \<and> mframe s s' \<and> mem s' = mem s" by (rule kalloc_cons)
qed (auto simp: mframe_def page_ok_def free_pages_def upd_mem_def kalloc_def)

section \<open>Freeing a range\<close>

lemma kernel_page:
  assumes "pg_aligned p" "kend s \<le> p" "KERNBASE \<le> p" "unat p < unat KERNBASE + unat PHYSTOP"
  shows "page_ok s p" "unat (p + PGSIZE) = unat p + 4096" "pg_aligned (p + PGSIZE)"
proof -
  have u: "unat KERNBASE = 0x80000000" "unat PHYSTOP = 0xE000000" by (simp_all add: layout_defs)
  have p: "unat KERNBASE \<le> unat p" using assms(3) by (simp add: word_le_nat_alt)
  have "unat (v2p p) = unat p - unat KERNBASE" using p by (simp add: v2p_def unat_sub_uint)
  then have "v2p p < PHYSTOP" using assms(4) p by (simp add: word_less_nat_alt)
  moreover have "p \<noteq> 0" using p u by auto
  ultimately show "page_ok s p" using assms by (simp add: page_ok_def)
  show n: "unat (p + PGSIZE) = unat p + 4096"
    using assms(4) u by (subst unat_add_lem [THEN iffD1]) (simp_all add: PGSIZE_def)
  show "pg_aligned (p + PGSIZE)" using assms(1) by (simp add: pg_aligned_unat n)
qed

lemma page_range_Suc: "page_range p (Suc n) = p # page_range (p + PGSIZE) n"
proof -
  have "[0..<Suc n] = 0 # map Suc [0..<n]" by (simp add: map_Suc_upt upt_conv_Cons del: upt_Suc)
  then show ?thesis by (simp add: page_range_def o_def algebra_simps)
qed

lemma unat_page_range:
  assumes "unat p + 4096 * n \<le> 2 ^ 32 - 1" "i < n"
  shows "unat (p + of_nat i * PGSIZE) = unat p + 4096 * i"
proof -
  have "i < 2 ^ 20" using assms by simp
  then have "unat (of_nat i * PGSIZE) = 4096 * i"
    by (subst unat_mult_lem [THEN iffD1]) (simp_all add: PGSIZE_def unat_of_nat_uint)
  then show ?thesis using assms by (subst unat_add_lem [THEN iffD1]) simp_all
qed

lemma page_range_above:
  assumes "unat p + 4096 * Suc n \<le> 2 ^ 32 - 1" "unat (p + PGSIZE) = unat p + 4096"
  shows "p \<notin> set (page_range (p + PGSIZE) n)"
proof
  assume "p \<in> set (page_range (p + PGSIZE) n)"
  then obtain i where i: "i < n" "p = p + PGSIZE + of_nat i * PGSIZE" by (auto simp: page_range_def)
  have "unat (p + PGSIZE + of_nat i * PGSIZE) = unat (p + PGSIZE) + 4096 * i"
    using assms i(1) by (intro unat_page_range) simp_all
  moreover have "unat p = unat (p + PGSIZE + of_nat i * PGSIZE)" using i(2) by (rule arg_cong)
  ultimately show False using assms(2) by linarith
qed

lemma freerange_loop_spec:
  assumes "free_pages s xs" "pg_aligned p" "kend s \<le> p" "KERNBASE \<le> p" "unat vend \<le> unat KERNBASE + unat PHYSTOP"
    and "unat p + 4096 * n \<le> unat vend" "unat vend < unat p + 4096 * Suc n"
    and "set (page_range p n) \<inter> set xs = {}"
  shows "\<exists>s'. freerange_loop p vend s = Done () s' \<and> free_pages s' (rev (page_range p n) @ xs) \<and> mframe s s' \<and>
    (\<forall>b. (\<forall>q \<in> set (page_range p n). \<not> in_page q b) \<longrightarrow> mem s' b = mem s b)"
  using assms
proof (induction n arbitrary: p s xs)
  case 0
  have "unat KERNBASE + unat PHYSTOP = 0x8E000000" by (simp add: layout_defs)
  then have "unat (p + PGSIZE) = unat p + 4096"
    using 0 by (subst unat_add_lem [THEN iffD1]) (simp_all add: PGSIZE_def)
  then have "\<not> p + PGSIZE \<le> vend" using 0 by (simp add: word_le_nat_alt)
  then have "freerange_loop p vend s = Done () s" by simp
  with 0 show ?case by (simp add: page_range_def mframe_def)
next
  case (Suc n)
  have KP: "unat KERNBASE + unat PHYSTOP = 0x8E000000" by (simp add: layout_defs)
  have "unat p < unat KERNBASE + unat PHYSTOP" using Suc.prems(5,6) by simp
  note kp = kernel_page [OF Suc.prems(2,3,4) this]
  have le: "p + PGSIZE \<le> vend" using Suc.prems(6) kp(2) by (simp add: word_le_nat_alt)
  have "p \<notin> set xs" using Suc.prems(8) by (auto simp: page_range_Suc)
  from kfree_spec [OF Suc.prems(1) kp(1) this] obtain s1 where
    s1: "kfree p s = Done () s1" "free_pages s1 (p # xs)" "mframe s s1" "\<forall>b. \<not> in_page p b \<longrightarrow> mem s1 b = mem s b"
    by blast
  have "p \<notin> set (page_range (p + PGSIZE) n)"
    using Suc.prems(5,6) KP kp(2) by (intro page_range_above) simp_all
  then have dj: "set (page_range (p + PGSIZE) n) \<inter> set (p # xs) = {}"
    using Suc.prems(8) by (auto simp: page_range_Suc)
  have "kend s1 \<le> p + PGSIZE" "KERNBASE \<le> p + PGSIZE"
    using Suc.prems(3,4) s1(3) kp(2) by (simp_all add: word_le_nat_alt mframe_def)
  from Suc.IH [OF s1(2) kp(3) this Suc.prems(5) _ _ dj] Suc.prems(6,7) kp(2) obtain s' where
    s': "freerange_loop (p + PGSIZE) vend s1 = Done () s'" "free_pages s' (rev (page_range (p + PGSIZE) n) @ p # xs)"
    "mframe s1 s'" "\<forall>b. (\<forall>q \<in> set (page_range (p + PGSIZE) n). \<not> in_page q b) \<longrightarrow> mem s' b = mem s1 b"
    by auto
  have "freerange_loop p vend s = Done () s'" using le s1(1) s'(1) by simp
  with s' s1 show ?case by (auto simp: page_range_Suc mframe_def)
qed

lemma set_page_range:
  assumes "pg_aligned p" "unat p + 4096 * n \<le> 2 ^ 32 - 1"
  shows "set (page_range p n) = {v. pg_aligned v \<and> unat p \<le> unat v \<and> unat v < unat p + 4096 * n}"
proof (rule set_eqI, rule iffI)
  fix v
  assume "v \<in> set (page_range p n)"
  then obtain i where i: "i < n" "v = p + of_nat i * PGSIZE" by (auto simp: page_range_def)
  with unat_page_range [OF assms(2) i(1)] have u: "unat v = unat p + 4096 * i" by simp
  then show "v \<in> {v. pg_aligned v \<and> unat p \<le> unat v \<and> unat v < unat p + 4096 * n}"
    using i(1) assms(1) by (auto simp: pg_aligned_unat)
next
  fix v
  assume "v \<in> {v. pg_aligned v \<and> unat p \<le> unat v \<and> unat v < unat p + 4096 * n}"
  then have v: "pg_aligned v" "unat p \<le> unat v" "unat v < unat p + 4096 * n" by auto
  obtain a b where ab: "unat p = 4096 * a" "unat v = 4096 * b"
    using assms(1) v(1) by (metis pg_alignedE)
  let ?i = "b - a"
  have i: "?i < n" "unat v = unat p + 4096 * ?i" using v(2,3) ab by auto
  with unat_page_range [OF assms(2) i(1)] have "unat v = unat (p + of_nat ?i * PGSIZE)" by simp
  then have "v = p + of_nat ?i * PGSIZE" by (simp add: word_unat_eq_iff)
  with i(1) show "v \<in> set (page_range p n)" by (auto simp: page_range_def)
qed

lemma freerange_spec:
  assumes "free_pages s xs" "kend s \<le> vstart" "KERNBASE \<le> vstart" "vstart \<le> vend"
    "unat vend \<le> unat KERNBASE + unat PHYSTOP" "pg_aligned vend"
    and xs: "\<forall>x \<in> set xs. \<not> (unat vstart \<le> unat x \<and> unat x < unat vend)"
  shows "\<exists>s' ys. freerange vstart vend s = Done () s' \<and> free_pages s' (ys @ xs) \<and> mframe s s' \<and>
    set ys = {v. pg_aligned v \<and> unat vstart \<le> unat v \<and> unat v < unat vend}"
proof -
  let ?p = "PGROUNDUP vstart"
  have KP: "unat KERNBASE + unat PHYSTOP = 0x8E000000" by (simp add: layout_defs)
  have vs: "unat vstart \<le> unat vend" using assms(4) by (simp add: word_le_nat_alt)
  have up: "unat (vstart + PGSIZE - 1) = unat vstart + 4095"
  proof -
    have "vstart + PGSIZE - 1 = vstart + 4095" by (simp add: PGSIZE_def)
    moreover have "unat (vstart + 4095) = unat vstart + 4095"
      using vs assms(5) KP by (subst unat_add_lem [THEN iffD1]) simp_all
    ultimately show ?thesis by (simp only:)
  qed
  then have p: "unat ?p = unat vstart + 4095 - (unat vstart + 4095) mod 4096"
    by (simp add: PGROUNDUP_down unat_PGROUNDDOWN)
  have "(unat vstart + 4095) mod 4096 < 4096" by simp
  with p have ge: "unat vstart \<le> unat ?p" and lt: "unat ?p < unat vstart + 4096" by linarith+
  obtain q where q: "unat vend = 4096 * q" using assms(6) by (rule pg_alignedE)
  obtain r where r: "unat ?p = 4096 * r" using PGROUNDUP_aligned [of vstart] by (rule pg_alignedE)
  have rq: "r \<le> q" using lt q r vs by simp
  let ?n = "q - r"
  have n: "unat ?p + 4096 * ?n = unat vend" using q r rq by simp
  have sr: "set (page_range ?p ?n) = {v. pg_aligned v \<and> unat vstart \<le> unat v \<and> unat v < unat vend}"
  proof -
    have "unat ?p \<le> unat v" if v: "pg_aligned v" "unat vstart \<le> unat v" for v
    proof -
      obtain b where "unat v = 4096 * b" using v(1) by (rule pg_alignedE)
      moreover from this have "r < Suc b" using v(2) lt r by simp
      ultimately show ?thesis using r by simp
    qed
    then show ?thesis using set_page_range [OF PGROUNDUP_aligned, of vstart ?n] n assms(5) KP ge by auto
  qed
  have "\<exists>s'. freerange_loop ?p vend s = Done () s' \<and> free_pages s' (rev (page_range ?p ?n) @ xs) \<and> mframe s s' \<and>
    (\<forall>b. (\<forall>q \<in> set (page_range ?p ?n). \<not> in_page q b) \<longrightarrow> mem s' b = mem s b)"
    using assms(1-3,5) xs n ge sr by (intro freerange_loop_spec) (auto simp: word_le_nat_alt)
  then obtain s' where "freerange_loop ?p vend s = Done () s'" "free_pages s' (rev (page_range ?p ?n) @ xs)" "mframe s s'"
    by blast
  then show ?thesis using sr by (intro exI [of _ s'] exI [of _ "rev (page_range ?p ?n)"]) (simp add: freerange_def)
qed

section \<open>Properties\<close>

text \<open>
  C5. The allocator refines a stack of pages. With the free pages \<open>xs\<close> in the order of the linked
  list, \<open>kalloc\<close> returns 0 when there are none and otherwise pops the first, changing no memory;
  \<open>kfree\<close> of a page that is not free pushes it and changes no byte outside it; \<open>kfree\<close> of an
  address that is not a page of the allocator's range panics.
\<close>

theorem kalloc_refines_stack:
  assumes "free_pages s xs"
  shows "(case xs of [] \<Rightarrow> kalloc s = Done 0 s
      | x # ys \<Rightarrow> \<exists>s'. kalloc s = Done x s' \<and> free_pages s' ys \<and> mframe s s' \<and> mem s' = mem s) \<and>
    (if page_ok s v then v \<notin> set xs \<longrightarrow> (\<exists>s'. kfree v s = Done () s' \<and> free_pages s' (v # xs) \<and> mframe s s' \<and>
        (\<forall>b. \<not> in_page v b \<longrightarrow> mem s' b = mem s b))
     else kfree v s = Panic ''kfree'')"
proof -
  have "kfree v s = Panic ''kfree''" if "\<not> page_ok s v"
  proof -
    have "v2p 0 \<ge> PHYSTOP" by (simp add: layout_defs)
    then show ?thesis using that by (auto simp: page_ok_def kfree_def pg_aligned_def not_le not_less)
  qed
  then show ?thesis
    using assms km.alloc_nil km.alloc_cons km.free_law [OF assms] by (auto split: list.split)
qed

theorem kalloc_refines_stack_witness:
  "\<exists>s1 s2. kfree 0x80200000 (demo_mem 0x80100000) = Done () s1 \<and> kalloc s1 = Done 0x80200000 s2 \<and> kalloc s2 = Done 0 s2 \<and>
     kfree 0x80200001 s2 = Panic ''kfree''"
proof -
  let ?s = "demo_mem 0x80100000" and ?v = "0x80200000 :: uint"
  have "free_pages ?s []" by (simp add: free_pages_def demo_mem_def)
  moreover have ok: "page_ok ?s ?v" by (simp add: page_ok_def demo_mem_def pg_aligned_def PGSIZE_def layout_defs)
  ultimately obtain s1 where s1: "kfree ?v ?s = Done () s1" "free_pages s1 [?v]"
    using kalloc_refines_stack [of ?s "[]" ?v] by auto
  from kalloc_refines_stack [OF s1(2)] obtain s2 where s2: "kalloc s1 = Done ?v s2" "free_pages s2 []" by auto
  have "\<not> page_ok s2 0x80200001" by (simp add: page_ok_def pg_aligned_def PGSIZE_def)
  with kalloc_refines_stack [OF s2(2), of "0x80200001"] s1(1) s2(1) show ?thesis by auto
qed

text \<open>
  C6. The two calls of \<open>main\<close> (\<open>kinit1(end, P2V(4*1024*1024))\<close> and \<open>kinit2(P2V(4*1024*1024),
  P2V(PHYSTOP))\<close>) return, and then the free list holds every page between the end of the kernel
  and \<open>PHYSTOP\<close> exactly once.
\<close>

theorem kinit_frees_every_page:
  assumes "freelist s = 0" and "KERNBASE \<le> kend s" and "kend s \<le> p2v 0x400000"
  shows "\<exists>s' xs. kseq (kinit1 (kend s) (p2v 0x400000)) (kinit2 (p2v 0x400000) (p2v PHYSTOP)) s = Done () s' \<and>
    free_pages s' xs \<and> set xs = {v. page_ok s v} \<and> use_lock s'"
proof -
  let ?m = "p2v 0x400000" and ?e = "p2v PHYSTOP"
  have u: "unat ?m = 0x80400000" "unat ?e = 0x8E000000" "unat KERNBASE + unat PHYSTOP = 0x8E000000" by (simp_all add: layout_defs)
  have al: "pg_aligned ?m" "pg_aligned ?e" by (simp_all add: pg_aligned_def PGSIZE_def layout_defs)
  let ?s0 = "s\<lparr>use_lock := False\<rparr>"
  have "free_pages ?s0 []" using assms(1) by (simp add: free_pages_def)
  from freerange_spec [OF this, of "kend s" ?m] assms(2,3) u al obtain s1 xs where
    s1: "freerange (kend s) ?m ?s0 = Done () s1" "free_pages s1 xs" "mframe ?s0 s1"
      "set xs = {v. pg_aligned v \<and> unat (kend s) \<le> unat v \<and> unat v < unat ?m}"
    by auto
  have k1: "kend s1 = kend s" using s1(3) by (simp add: mframe_def)
  have "KERNBASE \<le> ?m" "?m \<le> ?e" by (simp_all add: layout_defs)
  from freerange_spec [OF s1(2), of ?m ?e] this assms(3) k1 u al s1(4) obtain s2 ys where
    s2: "freerange ?m ?e s1 = Done () s2" "free_pages s2 (ys @ xs)" "mframe s1 s2"
      "set ys = {v. pg_aligned v \<and> unat ?m \<le> unat v \<and> unat v < unat ?e}"
    by auto
  have "page_ok s v \<longleftrightarrow> pg_aligned v \<and> unat (kend s) \<le> unat v \<and> unat v < unat ?e" for v
  proof -
    have "unat (v2p v) < unat PHYSTOP \<longleftrightarrow> unat v < unat ?e" if "unat KERNBASE \<le> unat v"
      using that u(2,3) by (auto simp: v2p_def unat_sub_uint)
    moreover have "unat KERNBASE \<le> unat (kend s)" "v = 0 \<Longrightarrow> unat v < unat KERNBASE"
      using assms(2) by (simp_all add: word_le_nat_alt) (simp add: layout_defs)
    ultimately show ?thesis by (auto simp: page_ok_def word_le_nat_alt word_less_nat_alt)
  qed
  then have all: "set (ys @ xs) = {v. page_ok s v}"
    using s1(4) s2(4) assms(3) u by (auto simp: word_le_nat_alt)
  have "free_pages (s2\<lparr>use_lock := True\<rparr>) (ys @ xs)" using s2(2) by (simp add: free_pages_def page_ok_def)
  with all show ?thesis
    using s1(1) s2(1) by (intro exI [of _ "s2\<lparr>use_lock := True\<rparr>"] exI [of _ "ys @ xs"]) (simp add: kinit1_def kinit2_def kop_simps)
qed

theorem kinit_frees_every_page_witness:
  "\<exists>s' xs. kseq (kinit1 0x80100000 (p2v 0x400000)) (kinit2 (p2v 0x400000) (p2v PHYSTOP)) (demo_mem 0x80100000) = Done () s' \<and>
     free_pages s' xs \<and> 0x80100000 \<in> set xs \<and> 0x80FFF000 \<in> set xs \<and> 0x8E000000 \<notin> set xs"
proof -
  let ?s = "demo_mem 0x80100000"
  have k: "kend ?s = 0x80100000" "freelist ?s = 0" by (simp_all add: demo_mem_def)
  obtain s' xs where r: "kseq (kinit1 0x80100000 (p2v 0x400000)) (kinit2 (p2v 0x400000) (p2v PHYSTOP)) ?s = Done () s'"
    "free_pages s' xs" "set xs = {v. page_ok ?s v}"
    using kinit_frees_every_page [of ?s] k by (auto simp: layout_defs)
  have "page_ok ?s 0x80100000" "page_ok ?s 0x80FFF000" "\<not> page_ok ?s 0x8E000000"
    using k by (simp_all add: page_ok_def pg_aligned_def PGSIZE_def layout_defs)
  with r show ?thesis by blast
qed

end
