(* ===== verification/Ptable.thy ===== *)
theory Ptable
  imports Kalloc
begin

text \<open>
  The process table of proc.c and the part of it every other component uses: the process
  structure of proc.h, the processor's notion of the current process, and the sleep/wakeup
  pair. The rest of proc.c (process creation, exit, scheduling) is in a later theory.

  The kernel state of the development is a chain of records, each component extending the
  record of the components below it. \<open>pstate\<close> extends the memory of the page allocator.
\<close>

section \<open>Data\<close>

text \<open>\<open>enum procstate\<close> of proc.h.\<close>

datatype procstate = UNUSED | EMBRYO | SLEEPING | RUNNABLE | RUNNING | ZOMBIE

text \<open>
  The saved user registers a system call reads and writes (\<open>struct trapframe\<close> of x86.h, the
  fields the kernel's C code uses).
\<close>

record trapframe =
  tf_eax :: uint
  tf_cs :: ushort
  tf_ds :: ushort
  tf_es :: ushort
  tf_ss :: ushort
  tf_eflags :: uint
  tf_esp :: uint
  tf_eip :: uint

text \<open>
  \<open>struct proc\<close> of proc.h. Pointers into tables are indices, a null pointer is \<open>None\<close>; page
  directory and kernel stack are kernel addresses with 0 for null. The saved kernel context
  (\<open>context\<close>) belongs to swtch.S and is not represented.
\<close>

record proc =
  p_sz :: uint
  p_pgdir :: uint
  p_kstack :: uint
  p_state :: procstate
  p_pid :: cint
  p_parent :: "nat option"
  p_tf :: trapframe
  p_chan :: "chan option"
  p_killed :: bool
  p_ofile :: "nat \<Rightarrow> nat option"
  p_cwd :: "nat option"
  p_name :: "uchar list"
  p_traceFlag :: bool
  p_totalSysCall :: cint

record pstate = mstate +
  ptable :: "nat \<Rightarrow> proc"
  curproc :: "nat option"
  initproc :: "nat option"
  nextpid :: cint

text \<open>The process table is static storage: the loader clears it.\<close>

definition zero_proc :: proc where
  "zero_proc = \<lparr>p_sz = 0, p_pgdir = 0, p_kstack = 0, p_state = UNUSED, p_pid = 0, p_parent = None,
     p_tf = \<lparr>tf_eax = 0, tf_cs = 0, tf_ds = 0, tf_es = 0, tf_ss = 0, tf_eflags = 0, tf_esp = 0, tf_eip = 0\<rparr>,
     p_chan = None, p_killed = False, p_ofile = (\<lambda>_. None), p_cwd = None, p_name = [],
     p_traceFlag = False, p_totalSysCall = 0\<rparr>"

section \<open>Operations\<close>

definition upd_proc :: "nat \<Rightarrow> (proc \<Rightarrow> proc) \<Rightarrow> 'z pstate_scheme \<Rightarrow> 'z pstate_scheme" where
  "upd_proc i f s = s\<lparr>ptable := (ptable s)(i := f (ptable s i))\<rparr>"

text \<open>
  \<open>sleep(chan, lk)\<close>: the current process records the channel, becomes \<open>SLEEPING\<close> and enters the
  scheduler, so the running operation stops here with the lock \<open>lk\<close> released.
\<close>

definition sleep :: "chan \<Rightarrow> ('z pstate_scheme, 'a) kop" where
  "sleep c s = (case curproc s of
       None \<Rightarrow> Panic ''sleep''
     | Some i \<Rightarrow> Sleep c (upd_proc i (\<lambda>p. p\<lparr>p_chan := Some c, p_state := SLEEPING\<rparr>) s))"

text \<open>\<open>wakeup1\<close>: every process sleeping on the channel becomes \<open>RUNNABLE\<close>.\<close>

definition wakeup1 :: "chan \<Rightarrow> 'z pstate_scheme \<Rightarrow> 'z pstate_scheme" where
  "wakeup1 c s = s\<lparr>ptable := (\<lambda>i.
       if i < NPROC \<and> p_state (ptable s i) = SLEEPING \<and> p_chan (ptable s i) = Some c
       then (ptable s i)\<lparr>p_state := RUNNABLE\<rparr> else ptable s i)\<rparr>"

definition wakeup :: "chan \<Rightarrow> ('z pstate_scheme, unit) kop" where
  "wakeup c = kmodify (wakeup1 c)"

section \<open>Lemmas\<close>

lemma wakeup_eq [kop_simps]: "wakeup c s = Done () (wakeup1 c s)"
  by (simp add: wakeup_def kmodify_def)

lemma upd_proc_simps [simp]:
  "ptable (upd_proc i f s) = (ptable s)(i := f (ptable s i))"
  "curproc (upd_proc i f s) = curproc s"
  "initproc (upd_proc i f s) = initproc s"
  "nextpid (upd_proc i f s) = nextpid s"
  "pstate.more (upd_proc i f s) = pstate.more s"
  by (simp_all add: upd_proc_def)

lemma wakeup1_simps [simp]:
  "curproc (wakeup1 c s) = curproc s"
  "initproc (wakeup1 c s) = initproc s"
  "nextpid (wakeup1 c s) = nextpid s"
  "pstate.more (wakeup1 c s) = pstate.more s"
  by (simp_all add: wakeup1_def)

text \<open>\<open>wakeup1\<close> changes nothing but the state field of the processes it wakes.\<close>

lemma wakeup1_other_fields [simp]:
  "p_pid (ptable (wakeup1 c s) i) = p_pid (ptable s i)"
  "p_chan (ptable (wakeup1 c s) i) = p_chan (ptable s i)"
  "p_killed (ptable (wakeup1 c s) i) = p_killed (ptable s i)"
  "p_parent (ptable (wakeup1 c s) i) = p_parent (ptable s i)"
  by (simp_all add: wakeup1_def)

lemma wakeup1_no_sleeper:
  "i < NPROC \<Longrightarrow> \<not> (p_state (ptable (wakeup1 c s) i) = SLEEPING \<and> p_chan (ptable (wakeup1 c s) i) = Some c)"
  by (simp add: wakeup1_def)

lemma wakeup1_idem: "wakeup1 c (wakeup1 c s) = wakeup1 c s"
  by (rule pstate.equality) (auto simp: wakeup1_def fun_eq_iff)

end
