(* ===== verification/Disk.thy ===== *)
theory Disk
  imports Ptable
begin

text \<open>
  Disk buffers (buf.h) and the in-memory disk driver (memide.c), the synchronous driver the
  kernel can be linked with in place of ide.c. The three flag bits of a buffer are kept as
  three booleans; \<open>prev\<close> and \<open>next\<close> are buffer indices, the index \<open>NBUF\<close> being \<open>bcache.head\<close>.

  \<open>wtrace\<close> is ghost state: the sector writes the driver has done, oldest first. No operation
  reads it; it is what a statement about a crash between two sector writes refers to.
\<close>

section \<open>Data\<close>

record buf =
  b_busy :: bool
  b_valid :: bool
  b_dirty :: bool
  b_dev :: uint
  b_sector :: uint
  b_prev :: nat
  b_next :: nat
  b_data :: "uchar list"

record bstate = pstate +
  memdisk :: "uint \<Rightarrow> uchar list"
  disksize :: uint
  wtrace :: "(uint \<times> uchar list) list"
  bufs :: "nat \<Rightarrow> buf"

definition upd_buf :: "nat \<Rightarrow> (buf \<Rightarrow> buf) \<Rightarrow> 'z bstate_scheme \<Rightarrow> 'z bstate_scheme" where
  "upd_buf b f s = s\<lparr>bufs := (bufs s)(b := f (bufs s b))\<rparr>"

section \<open>The driver\<close>

text \<open>\<open>ideinit\<close>: the disk is the file system image linked into the kernel.\<close>

definition ideinit :: "(uint \<Rightarrow> uchar list) \<Rightarrow> uint \<Rightarrow> ('z bstate_scheme, unit) kop" where
  "ideinit img imgsz = kmodify (\<lambda>s. s\<lparr>memdisk := img, disksize := imgsz div 512\<rparr>)"

text \<open>\<open>iderw(b)\<close>: write the buffer to its sector if it is dirty, else read it.\<close>

definition iderw :: "nat \<Rightarrow> ('z bstate_scheme, unit) kop" where
  "iderw b s =
     (let bb = bufs s b; n = b_sector bb in
      if \<not> b_busy bb then Panic ''iderw: buf not busy''
      else if b_valid bb \<and> \<not> b_dirty bb then Panic ''iderw: nothing to do''
      else if b_dev bb \<noteq> 1 then Panic ''iderw: request not for disk 1''
      else if n \<ge> disksize s then Panic ''iderw: sector out of range''
      else if b_dirty bb then
        Done () (upd_buf b (\<lambda>bb. bb\<lparr>b_dirty := False, b_valid := True\<rparr>)
          (s\<lparr>memdisk := (memdisk s)(n := b_data bb), wtrace := wtrace s @ [(n, b_data bb)]\<rparr>))
      else Done () (upd_buf b (\<lambda>bb. bb\<lparr>b_data := memdisk s n, b_valid := True\<rparr>) s))"

lemma upd_buf_simps [simp]:
  "bufs (upd_buf b f s) = (bufs s)(b := f (bufs s b))"
  "memdisk (upd_buf b f s) = memdisk s"
  "disksize (upd_buf b f s) = disksize s"
  "wtrace (upd_buf b f s) = wtrace s"
  "bstate.more (upd_buf b f s) = bstate.more s"
  "curproc (upd_buf b f s) = curproc s"
  "initproc (upd_buf b f s) = initproc s"
  "nextpid (upd_buf b f s) = nextpid s"
  "ptable (upd_buf b f s) = ptable s"
  by (simp_all add: upd_buf_def)

text \<open>
  The disk that a prefix of the sector writes leaves: the contents a machine finds when it
  comes up after losing power between two sector writes.
\<close>

definition replay :: "(uint \<Rightarrow> uchar list) \<Rightarrow> (uint \<times> uchar list) list \<Rightarrow> uint \<Rightarrow> uchar list" where
  "replay d ws = fold (\<lambda>(n, x) d. d(n := x)) ws d"

lemma replay_Nil [simp]: "replay d [] = d"
  by (simp add: replay_def)

lemma replay_append [simp]: "replay d (xs @ ys) = replay (replay d xs) ys"
  by (simp add: replay_def)

lemma replay_Cons [simp]: "replay d ((n, x) # ws) = replay (d(n := x)) ws"
  by (simp add: replay_def)

lemma replay_other: "n \<notin> fst ` set ws \<Longrightarrow> replay d ws n = d n"
  by (induction ws rule: rev_induct) auto

end
