(* ===== verification/Dll.thy ===== *)
theory Dll
  imports Prelude
begin

text \<open>
  Circular doubly linked lists threaded through an array, as the buffer cache keeps its
  buffers (bio.c): a \<open>next\<close> and a \<open>prev\<close> function on indices and a distinguished head. The
  abstraction is the list of indices met from the head along \<open>next\<close>.
\<close>

text \<open>\<open>seg f a xs z\<close>: following \<open>f\<close> from \<open>a\<close> one meets exactly \<open>xs\<close> and then \<open>z\<close>.\<close>

fun seg :: "(nat \<Rightarrow> nat) \<Rightarrow> nat \<Rightarrow> nat list \<Rightarrow> nat \<Rightarrow> bool" where
  "seg f a [] z \<longleftrightarrow> f a = z"
| "seg f a (x # xs) z \<longleftrightarrow> f a = x \<and> seg f x xs z"

definition dll :: "(nat \<Rightarrow> nat) \<Rightarrow> (nat \<Rightarrow> nat) \<Rightarrow> nat \<Rightarrow> nat list \<Rightarrow> bool" where
  "dll nx pv h xs \<longleftrightarrow> seg nx h xs h \<and> seg pv h (rev xs) h \<and> distinct (h # xs)"

text \<open>
  The result of walking such a list from a node up to the head: the first node that
  satisfies the predicate, the end of the list, or no answer within the given fuel.
\<close>

datatype scan = Found nat | Exhausted | OutOfFuel

fun scan_list :: "nat \<Rightarrow> (nat \<Rightarrow> nat) \<Rightarrow> nat \<Rightarrow> (nat \<Rightarrow> bool) \<Rightarrow> nat \<Rightarrow> scan" where
  "scan_list 0 f h P b = OutOfFuel"
| "scan_list (Suc k) f h P b =
     (if b = h then Exhausted
      else if P b then Found b
      else scan_list k f h P (f b))"

lemma seg_append:
  "seg f a (xs @ y # ys) z \<longleftrightarrow> seg f a xs y \<and> seg f y ys z"
  by (induction xs arbitrary: a) auto

lemma seg_upd [simp]: "u \<notin> set (a # xs) \<Longrightarrow> seg (f(u := v)) a xs z = seg f a xs z"
  by (induction xs arbitrary: a) auto

lemma seg_last:
  "seg f a xs z \<Longrightarrow> distinct (a # xs) \<Longrightarrow> seg (f(last (a # xs) := w)) a xs w"
proof (induction xs arbitrary: a)
  case Nil
  then show ?case by simp
next
  case (Cons x xs)
  have "seg (f(last (x # xs) := w)) x xs w"
    by (rule Cons.IH) (use Cons.prems in auto)
  moreover have "a \<noteq> last (x # xs)"
    using Cons.prems(2) last_in_set [of "x # xs"] by auto
  moreover have "last (a # x # xs) = last (x # xs)" by simp
  ultimately show ?case using Cons.prems(1) by (simp add: fun_upd_def del: last.simps)
qed

lemma seg_hd: "seg f a xs z \<Longrightarrow> f a = hd (xs @ [z])"
  by (cases xs) auto

lemma seg_end: "seg f a xs z \<Longrightarrow> f (last (a # xs)) = z"
  by (induction xs arbitrary: a) auto

text \<open>With more fuel than the list is long, the walk is \<open>find\<close> on the list.\<close>

lemma scan_list_seg:
  "seg f a xs h \<Longrightarrow> h \<notin> set xs \<Longrightarrow> length xs < k \<Longrightarrow>
   scan_list k f h P (f a) = (case find P xs of None \<Rightarrow> Exhausted | Some b \<Rightarrow> Found b)"
proof (induction xs arbitrary: a k)
  case Nil
  then obtain k' where "k = Suc k'" by (cases k) auto
  with Nil show ?case by simp
next
  case (Cons x xs)
  then obtain k' where "k = Suc k'" by (cases k) auto
  with Cons show ?case by auto
qed

lemma dll_scan_next:
  "dll nx pv h xs \<Longrightarrow> length xs < k \<Longrightarrow>
   scan_list k nx h P (nx h) = (case find P xs of None \<Rightarrow> Exhausted | Some b \<Rightarrow> Found b)"
  by (rule scan_list_seg) (auto simp: dll_def)

lemma dll_scan_prev:
  "dll nx pv h xs \<Longrightarrow> length xs < k \<Longrightarrow>
   scan_list k pv h P (pv h) = (case find P (rev xs) of None \<Rightarrow> Exhausted | Some b \<Rightarrow> Found b)"
  by (rule scan_list_seg) (auto simp: dll_def)

lemma dll_empty: "nx h = h \<Longrightarrow> pv h = h \<Longrightarrow> dll nx pv h []"
  by (simp add: dll_def)

text \<open>Unlinking a node joins its neighbours.\<close>

lemma dll_neighbours:
  assumes "dll nx pv h (ys @ b # zs)"
  shows "nx b = hd (zs @ [h])" and "pv b = last (h # ys)"
proof -
  have "seg nx b zs h" using assms by (simp add: dll_def seg_append)
  then show "nx b = hd (zs @ [h])" by (rule seg_hd)
  have "seg pv b (rev ys) h" using assms by (simp add: dll_def seg_append)
  then show "pv b = last (h # ys)" using seg_hd by (cases ys rule: rev_cases) fastforce+
qed

lemma seg_unlink:
  assumes "seg f a (xs @ b # ys) z" and "distinct (a # xs @ b # ys)"
  shows "seg (f(last (a # xs) := f b)) a (xs @ ys) z"
proof (cases ys)
  case Nil
  with assms show ?thesis
    using seg_last [of f a xs b "f b"] by (simp add: seg_append)
next
  case (Cons y ys')
  have *: "last (a # xs) \<notin> set (y # ys')"
    using assms(2) Cons last_in_set [of "a # xs"] by auto
  have "seg (f(last (a # xs) := f b)) a xs (f b)"
    using assms seg_last [of f a xs b "f b"] by (simp add: seg_append)
  with * assms(1) Cons show ?thesis by (simp add: seg_append)
qed

lemma dll_unlink:
  assumes "dll nx pv h (ys @ b # zs)"
  shows "dll (nx(pv b := nx b)) (pv(nx b := pv b)) h (ys @ zs)"
proof -
  note nb = dll_neighbours [OF assms]
  have "seg (nx(last (h # ys) := nx b)) h (ys @ zs) h"
    by (rule seg_unlink) (use assms in \<open>auto simp: dll_def\<close>)
  moreover have "seg (pv(last (h # rev zs) := pv b)) h (rev zs @ rev ys) h"
    by (rule seg_unlink) (use assms in \<open>auto simp: dll_def\<close>)
  moreover have "last (h # rev zs) = nx b" using nb(1) by (cases zs) auto
  ultimately show ?thesis using nb(2) assms by (simp add: dll_def)
qed

text \<open>Linking a new node right after the head.\<close>

lemma dll_push:
  assumes "dll nx pv h xs" and "b \<noteq> h" and "b \<notin> set xs"
  shows "dll (nx(b := nx h, h := b)) (pv(b := h, nx h := b)) h (b # xs)"
proof -
  have n: "nx h = hd (xs @ [h])" using assms(1) seg_hd by (auto simp: dll_def)
  have "seg (nx(b := nx h, h := b)) b xs h"
  proof (cases xs)
    case Nil
    with n assms show ?thesis by simp
  next
    case (Cons x xs')
    with assms have "seg nx x xs' h" "h \<notin> set (x # xs')" "b \<notin> set (x # xs')" "nx h = x"
      by (auto simp: dll_def)
    with Cons assms(2) show ?thesis by simp
  qed
  moreover have "seg (pv(b := h, nx h := b)) h (rev xs @ [b]) h"
  proof (cases xs)
    case Nil
    with n assms show ?thesis by simp
  next
    case (Cons x xs')
    with assms have s: "seg (pv(b := h)) h (rev xs' @ [x]) h" and d: "distinct (h # rev xs' @ [x])"
      by (auto simp: dll_def)
    from seg_last [OF s d, of b] have "seg (pv(b := h, x := b)) h (rev xs' @ [x]) b" by simp
    with Cons n assms(2,3) show ?thesis by (simp add: seg_append)
  qed
  ultimately show ?thesis using assms by (simp add: dll_def)
qed

end
