(* ===== verification/Sector_Cache.thy ===== *)
theory Sector_Cache
  imports Bytes
begin

text \<open>
  The contract between the buffer cache and its clients (the log and the file system): what
  \<open>bread\<close>, \<open>bwrite\<close>, \<open>brelse\<close> and an assignment to a held buffer do to the contents of the
  sectors (\<open>blk\<close>), to the disk (\<open>dsk\<close>), to the sequence of sector writes (\<open>trc\<close>), and to the sets
  of dirty and of held sectors. The lemmas are the usage patterns of the clients: read a
  sector, copy one sector over another and write it through, change a sector and leave it
  dirty for the log.
\<close>

locale sector_cache =
  fixes rd :: "uint \<Rightarrow> ('s, nat) kop"
    and wr :: "nat \<Rightarrow> ('s, unit) kop"
    and rel :: "nat \<Rightarrow> ('s, unit) kop"
    and pin :: "nat \<Rightarrow> ('s, unit) kop"
    and put :: "nat \<Rightarrow> (uchar list \<Rightarrow> uchar list) \<Rightarrow> ('s, unit) kop"
    and get :: "nat \<Rightarrow> ('s, uchar list) kop"
    and ok :: "'s \<Rightarrow> bool"
    and frame :: "'s \<Rightarrow> 's \<Rightarrow> bool"
    and nsec :: "'s \<Rightarrow> uint"
    and blk :: "'s \<Rightarrow> uint \<Rightarrow> uchar list"
    and dsk :: "'s \<Rightarrow> uint \<Rightarrow> uchar list"
    and trc :: "'s \<Rightarrow> (uint \<times> uchar list) list"
    and dirty :: "'s \<Rightarrow> uint set"
    and busy :: "'s \<Rightarrow> uint set"
    and hold :: "'s \<Rightarrow> nat \<Rightarrow> uint \<Rightarrow> bool"
    and cap :: nat
  assumes frame_refl: "frame s s"
    and frame_trans: "frame s t \<Longrightarrow> frame t u \<Longrightarrow> frame s u"
    and frame_nsec: "frame s t \<Longrightarrow> nsec t = nsec s"
    and blk_length: "ok s \<Longrightarrow> length (blk s n) = BSIZE"
    and synced: "ok s \<Longrightarrow> n \<notin> busy s \<Longrightarrow> n \<in> dirty s \<or> blk s n = dsk s n"
    and rd_law: "ok s \<Longrightarrow> n < nsec s \<Longrightarrow> n \<notin> busy s \<Longrightarrow>
      n \<in> dirty s \<or> card (busy s \<union> dirty s) < cap \<Longrightarrow>
      \<exists>b s'. rd n s = Done b s' \<and> ok s' \<and> frame s s' \<and> blk s' = blk s \<and> dsk s' = dsk s \<and>
        trc s' = trc s \<and> dirty s' = dirty s \<and> busy s' = insert n (busy s) \<and> hold s' b n \<and>
        (\<forall>c m. hold s c m \<longrightarrow> hold s' c m)"
    and get_law: "ok s \<Longrightarrow> hold s b n \<Longrightarrow> get b s = Done (blk s n) s"
    and put_law: "ok s \<Longrightarrow> hold s b n \<Longrightarrow> length (f (blk s n)) = BSIZE \<Longrightarrow>
      \<exists>s'. put b f s = Done () s' \<and> ok s' \<and> frame s s' \<and> blk s' = (blk s)(n := f (blk s n)) \<and>
        dsk s' = dsk s \<and> trc s' = trc s \<and> dirty s' = dirty s \<and> busy s' = busy s \<and>
        (\<forall>c m. hold s c m \<longrightarrow> hold s' c m)"
    and pin_law: "ok s \<Longrightarrow> hold s b n \<Longrightarrow>
      \<exists>s'. pin b s = Done () s' \<and> ok s' \<and> frame s s' \<and> blk s' = blk s \<and> dsk s' = dsk s \<and>
        trc s' = trc s \<and> dirty s' = insert n (dirty s) \<and> busy s' = busy s \<and>
        (\<forall>c m. hold s c m \<longrightarrow> hold s' c m)"
    and wr_law: "ok s \<Longrightarrow> hold s b n \<Longrightarrow>
      \<exists>s'. wr b s = Done () s' \<and> ok s' \<and> frame s s' \<and> blk s' = blk s \<and>
        dsk s' = (dsk s)(n := blk s n) \<and> trc s' = trc s @ [(n, blk s n)] \<and>
        dirty s' = dirty s - {n} \<and> busy s' = busy s \<and> (\<forall>c m. hold s c m \<longrightarrow> hold s' c m)"
    and rel_law: "ok s \<Longrightarrow> hold s b n \<Longrightarrow> n \<in> dirty s \<or> blk s n = dsk s n \<Longrightarrow>
      \<exists>s'. rel b s = Done () s' \<and> ok s' \<and> frame s s' \<and> blk s' = blk s \<and> dsk s' = dsk s \<and>
        trc s' = trc s \<and> dirty s' = dirty s \<and> busy s' = busy s - {n} \<and>
        (\<forall>c m. hold s c m \<longrightarrow> m \<noteq> n \<longrightarrow> hold s' c m)"
begin

text \<open>Read a sector: \<open>b = bread(n); ... b->data ...; brelse(b)\<close>.\<close>

lemma read_sector:
  assumes "ok s" and "n < nsec s" and "n \<notin> busy s"
    and "n \<in> dirty s \<or> card (busy s \<union> dirty s) < cap"
  shows "\<exists>s'. kbind (rd n) (\<lambda>b. kbind (get b) (\<lambda>x. kseq (rel b) (kret (g x)))) s = Done (g (blk s n)) s' \<and>
    ok s' \<and> frame s s' \<and> blk s' = blk s \<and> dsk s' = dsk s \<and> trc s' = trc s \<and>
    dirty s' = dirty s \<and> busy s' = busy s"
proof -
  obtain b s1 where s1: "rd n s = Done b s1" "ok s1" "frame s s1" "blk s1 = blk s" "dsk s1 = dsk s"
    "trc s1 = trc s" "dirty s1 = dirty s" "busy s1 = insert n (busy s)" "hold s1 b n"
    using rd_law [OF assms] by blast
  have g1: "get b s1 = Done (blk s1 n) s1" using s1 by (intro get_law)
  have "n \<in> dirty s1 \<or> blk s1 n = dsk s1 n" using synced [OF assms(1,3)] s1 by simp
  from rel_law [OF s1(2,9) this] obtain s2 where s2: "rel b s1 = Done () s2" "ok s2" "frame s1 s2"
    "blk s2 = blk s1" "dsk s2 = dsk s1" "trc s2 = trc s1" "dirty s2 = dirty s1" "busy s2 = busy s1 - {n}"
    by blast
  show ?thesis
    using s1 s2 g1 assms(3) frame_trans [OF s1(3) s2(3)] by (simp add: kop_simps)
qed

text \<open>Change a sector and leave it dirty: \<open>b = bread(n); ... change b->data; pin b; brelse(b)\<close>.\<close>

lemma update_sector:
  assumes "ok s" and "n < nsec s" and "n \<notin> busy s"
    and "n \<in> dirty s \<or> card (busy s \<union> dirty s) < cap" and "length (f (blk s n)) = BSIZE"
  shows "\<exists>s'. kbind (rd n) (\<lambda>b. kseq (put b f) (kseq (pin b) (rel b))) s = Done () s' \<and>
    ok s' \<and> frame s s' \<and> blk s' = (blk s)(n := f (blk s n)) \<and> dsk s' = dsk s \<and> trc s' = trc s \<and>
    dirty s' = insert n (dirty s) \<and> busy s' = busy s"
proof -
  obtain b s1 where s1: "rd n s = Done b s1" "ok s1" "frame s s1" "blk s1 = blk s" "dsk s1 = dsk s"
    "trc s1 = trc s" "dirty s1 = dirty s" "busy s1 = insert n (busy s)" "hold s1 b n"
    using rd_law [OF assms(1-4)] by blast
  have "length (f (blk s1 n)) = BSIZE" using assms(5) s1 by simp
  from put_law [OF s1(2,9), of f, OF this] obtain s2 where s2: "put b f s1 = Done () s2" "ok s2" "frame s1 s2"
    "blk s2 = (blk s1)(n := f (blk s1 n))" "dsk s2 = dsk s1" "trc s2 = trc s1" "dirty s2 = dirty s1"
    "busy s2 = busy s1" "hold s2 b n"
    using s1(9) by blast
  from pin_law [OF s2(2,9)] obtain s3 where s3: "pin b s2 = Done () s3" "ok s3" "frame s2 s3"
    "blk s3 = blk s2" "dsk s3 = dsk s2" "trc s3 = trc s2" "dirty s3 = insert n (dirty s2)"
    "busy s3 = busy s2" "hold s3 b n"
    using s2(9) by blast
  have "n \<in> dirty s3 \<or> blk s3 n = dsk s3 n" using s3 by simp
  from rel_law [OF s3(2,9) this] obtain s4 where s4: "rel b s3 = Done () s4" "ok s4" "frame s3 s4"
    "blk s4 = blk s3" "dsk s4 = dsk s3" "trc s4 = trc s3" "dirty s4 = dirty s3" "busy s4 = busy s3 - {n}"
    by blast
  have "frame s s4" by (rule frame_trans [OF frame_trans [OF frame_trans [OF s1(3) s2(3)] s3(3)] s4(3)])
  then show ?thesis
    using s1 s2 s3 s4 assms(3) by (simp add: kop_simps)
qed

text \<open>Change a sector and write it through: \<open>b = bread(n); ... change b->data; bwrite(b); brelse(b)\<close>.\<close>

lemma write_sector:
  assumes "ok s" and "n < nsec s" and "n \<notin> busy s"
    and "n \<in> dirty s \<or> card (busy s \<union> dirty s) < cap" and "length (f (blk s n)) = BSIZE"
  shows "\<exists>s'. kbind (rd n) (\<lambda>b. kseq (put b f) (kseq (wr b) (rel b))) s = Done () s' \<and>
    ok s' \<and> frame s s' \<and> blk s' = (blk s)(n := f (blk s n)) \<and> dsk s' = (dsk s)(n := f (blk s n)) \<and>
    trc s' = trc s @ [(n, f (blk s n))] \<and> dirty s' = dirty s - {n} \<and> busy s' = busy s"
proof -
  obtain b s1 where s1: "rd n s = Done b s1" "ok s1" "frame s s1" "blk s1 = blk s" "dsk s1 = dsk s"
    "trc s1 = trc s" "dirty s1 = dirty s" "busy s1 = insert n (busy s)" "hold s1 b n"
    using rd_law [OF assms(1-4)] by blast
  have "length (f (blk s1 n)) = BSIZE" using assms(5) s1 by simp
  from put_law [OF s1(2,9), of f, OF this] obtain s2 where s2: "put b f s1 = Done () s2" "ok s2" "frame s1 s2"
    "blk s2 = (blk s1)(n := f (blk s1 n))" "dsk s2 = dsk s1" "trc s2 = trc s1" "dirty s2 = dirty s1"
    "busy s2 = busy s1" "hold s2 b n"
    using s1(9) by blast
  from wr_law [OF s2(2,9)] obtain s3 where s3: "wr b s2 = Done () s3" "ok s3" "frame s2 s3"
    "blk s3 = blk s2" "dsk s3 = (dsk s2)(n := blk s2 n)" "trc s3 = trc s2 @ [(n, blk s2 n)]"
    "dirty s3 = dirty s2 - {n}" "busy s3 = busy s2" "hold s3 b n"
    using s2(9) by blast
  have "n \<in> dirty s3 \<or> blk s3 n = dsk s3 n" using s3 by simp
  from rel_law [OF s3(2,9) this] obtain s4 where s4: "rel b s3 = Done () s4" "ok s4" "frame s3 s4"
    "blk s4 = blk s3" "dsk s4 = dsk s3" "trc s4 = trc s3" "dirty s4 = dirty s3" "busy s4 = busy s3 - {n}"
    by blast
  have "frame s s4" by (rule frame_trans [OF frame_trans [OF frame_trans [OF s1(3) s2(3)] s3(3)] s4(3)])
  then show ?thesis
    using s1 s2 s3 s4 assms(3) by (simp add: kop_simps)
qed

text \<open>
  Copy sector \<open>src\<close> over sector \<open>dst\<close> and write it through, the two sectors read in either
  order; the body of the loops of \<open>write_log\<close> and \<open>install_trans\<close>.
\<close>

lemma copy_held:
  assumes "ok s" and "hold s bs src" and "hold s bd dst" and "src \<noteq> dst"
    and "src \<in> dirty s \<or> blk s src = dsk s src"
  shows "\<exists>s'. kbind (get bs) (\<lambda>x. kseq (put bd (blit 0 x)) (kseq (wr bd) (kseq (rel bs) (rel bd)))) s = Done () s' \<and>
    ok s' \<and> frame s s' \<and> blk s' = (blk s)(dst := blk s src) \<and> dsk s' = (dsk s)(dst := blk s src) \<and>
    trc s' = trc s @ [(dst, blk s src)] \<and> dirty s' = dirty s - {dst} \<and> busy s' = busy s - {src, dst}"
proof -
  have len: "length (blit 0 (blk s src) (blk s dst)) = BSIZE"
    and eq: "blit 0 (blk s src) (blk s dst) = blk s src"
    using blk_length [OF assms(1)] by (simp_all add: blit_all)
  from put_law [OF assms(1,3), of "blit 0 (blk s src)"] len obtain s2 where
    s2: "put bd (blit 0 (blk s src)) s = Done () s2" "ok s2" "frame s s2"
    "blk s2 = (blk s)(dst := blk s src)" "dsk s2 = dsk s" "trc s2 = trc s" "dirty s2 = dirty s"
    "busy s2 = busy s" "hold s2 bd dst" "hold s2 bs src"
    unfolding eq using assms(2,3) by metis
  from wr_law [OF s2(2,9)] obtain s3 where s3: "wr bd s2 = Done () s3" "ok s3" "frame s2 s3"
    "blk s3 = blk s2" "dsk s3 = (dsk s2)(dst := blk s2 dst)" "trc s3 = trc s2 @ [(dst, blk s2 dst)]"
    "dirty s3 = dirty s2 - {dst}" "busy s3 = busy s2" "hold s3 bd dst" "hold s3 bs src"
    using s2(9,10) by blast
  have "src \<in> dirty s3 \<or> blk s3 src = dsk s3 src" using s2 s3 assms(4,5) by auto
  from rel_law [OF s3(2,10) this] obtain s4 where s4: "rel bs s3 = Done () s4" "ok s4" "frame s3 s4"
    "blk s4 = blk s3" "dsk s4 = dsk s3" "trc s4 = trc s3" "dirty s4 = dirty s3" "busy s4 = busy s3 - {src}"
    "hold s4 bd dst"
    using s3(9) assms(4) by blast
  have "dst \<in> dirty s4 \<or> blk s4 dst = dsk s4 dst" using s3 s4 by simp
  from rel_law [OF s4(2,9) this] obtain s5 where s5: "rel bd s4 = Done () s5" "ok s5" "frame s4 s5"
    "blk s5 = blk s4" "dsk s5 = dsk s4" "trc s5 = trc s4" "dirty s5 = dirty s4" "busy s5 = busy s4 - {dst}"
    by blast
  have "frame s s5" by (rule frame_trans [OF frame_trans [OF frame_trans [OF s2(3) s3(3)] s4(3)] s5(3)])
  moreover have "busy s - {src} - {dst} = busy s - {src, dst}" by blast
  ultimately show ?thesis
    using s2 s3 s4 s5 get_law [OF assms(1,2)] by (simp add: kop_simps)
qed

lemma copy_dst_first:
  assumes "ok s" and "src < nsec s" and "dst < nsec s" and "busy s = {}" and "src \<noteq> dst"
    and "finite (dirty s)" and "dst \<in> dirty s \<or> card (dirty s) < cap"
    and "src \<in> dirty s \<or> card (insert dst (dirty s)) < cap"
  shows "\<exists>s'. kbind (rd dst) (\<lambda>bd. kbind (rd src) (\<lambda>bs. kbind (get bs) (\<lambda>x.
      kseq (put bd (blit 0 x)) (kseq (wr bd) (kseq (rel bs) (rel bd)))))) s = Done () s' \<and>
    ok s' \<and> frame s s' \<and> blk s' = (blk s)(dst := blk s src) \<and> dsk s' = (dsk s)(dst := blk s src) \<and>
    trc s' = trc s @ [(dst, blk s src)] \<and> dirty s' = dirty s - {dst} \<and> busy s' = {}"
proof -
  obtain bd s1 where s1: "rd dst s = Done bd s1" "ok s1" "frame s s1" "blk s1 = blk s" "dsk s1 = dsk s"
    "trc s1 = trc s" "dirty s1 = dirty s" "busy s1 = {dst}" "hold s1 bd dst"
    using rd_law [of s dst] assms by auto
  obtain bs s2 where s2: "rd src s1 = Done bs s2" "ok s2" "frame s1 s2" "blk s2 = blk s1" "dsk s2 = dsk s1"
    "trc s2 = trc s1" "dirty s2 = dirty s1" "busy s2 = {src, dst}" "hold s2 bs src" "hold s2 bd dst"
    using rd_law [of s1 src] assms s1 frame_nsec [OF s1(3)] by auto
  have "src \<in> dirty s2 \<or> blk s2 src = dsk s2 src" using synced [OF assms(1), of src] assms(4) s1 s2 by auto
  moreover have "\<And>u. frame s2 u \<Longrightarrow> frame s u" by (rule frame_trans [OF frame_trans [OF s1(3) s2(3)]])
  ultimately show ?thesis
    using copy_held [OF s2(2,9,10) assms(5)] s1(1,4-7) s2(1,4-8) by (auto simp: kbind_Done)
qed

lemma copy_src_first:
  assumes "ok s" and "src < nsec s" and "dst < nsec s" and "busy s = {}" and "src \<noteq> dst"
    and "finite (dirty s)" and "src \<in> dirty s \<or> card (dirty s) < cap"
    and "dst \<in> dirty s \<or> card (insert src (dirty s)) < cap"
  shows "\<exists>s'. kbind (rd src) (\<lambda>bs. kbind (rd dst) (\<lambda>bd. kbind (get bs) (\<lambda>x.
      kseq (put bd (blit 0 x)) (kseq (wr bd) (kseq (rel bs) (rel bd)))))) s = Done () s' \<and>
    ok s' \<and> frame s s' \<and> blk s' = (blk s)(dst := blk s src) \<and> dsk s' = (dsk s)(dst := blk s src) \<and>
    trc s' = trc s @ [(dst, blk s src)] \<and> dirty s' = dirty s - {dst} \<and> busy s' = {}"
proof -
  obtain bs s1 where s1: "rd src s = Done bs s1" "ok s1" "frame s s1" "blk s1 = blk s" "dsk s1 = dsk s"
    "trc s1 = trc s" "dirty s1 = dirty s" "busy s1 = {src}" "hold s1 bs src"
    using rd_law [of s src] assms by auto
  obtain bd s2 where s2: "rd dst s1 = Done bd s2" "ok s2" "frame s1 s2" "blk s2 = blk s1" "dsk s2 = dsk s1"
    "trc s2 = trc s1" "dirty s2 = dirty s1" "busy s2 = {dst, src}" "hold s2 bd dst" "hold s2 bs src"
    using rd_law [of s1 dst] assms s1 frame_nsec [OF s1(3)] by auto
  have "src \<in> dirty s2 \<or> blk s2 src = dsk s2 src" using synced [OF assms(1), of src] assms(4) s1 s2 by auto
  moreover have "\<And>u. frame s2 u \<Longrightarrow> frame s u" by (rule frame_trans [OF frame_trans [OF s1(3) s2(3)]])
  ultimately show ?thesis
    using copy_held [OF s2(2,10,9) assms(5)] s1(1,4-7) s2(1,4-8) by (auto simp: kbind_Done)
qed

end

end
