(* ===== verification/Bio.thy ===== *)
theory Bio
  imports Disk Dll Sector_Cache
begin

text \<open>
  The buffer cache (bio.c): a fixed set of buffers on a doubly linked list in order of use,
  each caching one disk sector. The operations below are those of the source, on the buffers'
  own \<open>prev\<close> and \<open>next\<close> fields; each runs under \<open>bcache.lock\<close> and is one atomic step.

  The abstract view of a cache is what its clients rely on: the current contents of every
  sector (\<open>blk\<close>), the contents on the disk (\<open>memdisk\<close>), the sectors whose buffer is dirty and
  may not be evicted (\<open>dirtyset\<close>) and the sectors whose buffer some process holds (\<open>busyset\<close>).
  The lemmas at the end state each operation on this view.
\<close>

section \<open>Operations\<close>

definition set_next :: "nat \<Rightarrow> nat \<Rightarrow> (nat \<Rightarrow> buf) \<Rightarrow> nat \<Rightarrow> buf" where
  "set_next i v bs = bs(i := (bs i)\<lparr>b_next := v\<rparr>)"

definition set_prev :: "nat \<Rightarrow> nat \<Rightarrow> (nat \<Rightarrow> buf) \<Rightarrow> nat \<Rightarrow> buf" where
  "set_prev i v bs = bs(i := (bs i)\<lparr>b_prev := v\<rparr>)"

text \<open>The body of the loop of \<open>binit\<close>, and \<open>binit\<close>.\<close>

definition binit_buf :: "nat \<Rightarrow> (nat \<Rightarrow> buf) \<Rightarrow> nat \<Rightarrow> buf" where
  "binit_buf b bs =
     (let bs = set_next b (b_next (bs NBUF)) bs;
          bs = set_prev b NBUF bs;
          bs = bs(b := (bs b)\<lparr>b_dev := -1\<rparr>);
          bs = set_prev (b_next (bs NBUF)) b bs
      in set_next NBUF b bs)"

definition binit :: "('z bstate_scheme, unit) kop" where
  "binit = kmodify (\<lambda>s. s\<lparr>bufs := fold binit_buf [0..<NBUF]
     (set_next NBUF NBUF (set_prev NBUF NBUF (bufs s)))\<rparr>)"

text \<open>
  \<open>bget(dev, sector)\<close>: the first loop looks for the sector from the most recently used
  buffer on, the second for a buffer to recycle from the least recently used one on. The
  list has \<open>NBUF\<close> buffers, so \<open>NBUF + 1\<close> steps reach its end.
\<close>

definition bget :: "uint \<Rightarrow> uint \<Rightarrow> ('z bstate_scheme, nat) kop" where
  "bget dev sector s =
     (let bs = bufs s in
      case scan_list (Suc NBUF) (\<lambda>b. b_next (bs b)) NBUF
             (\<lambda>b. b_dev (bs b) = dev \<and> b_sector (bs b) = sector) (b_next (bs NBUF)) of
        Found b \<Rightarrow>
          if \<not> b_busy (bs b) then Done b (upd_buf b (\<lambda>bb. bb\<lparr>b_busy := True\<rparr>) s)
          else sleep (ChBuf b) s
      | OutOfFuel \<Rightarrow> Diverge
      | Exhausted \<Rightarrow>
          (case scan_list (Suc NBUF) (\<lambda>b. b_prev (bs b)) NBUF
                  (\<lambda>b. \<not> b_busy (bs b) \<and> \<not> b_dirty (bs b)) (b_prev (bs NBUF)) of
             Found b \<Rightarrow>
               Done b (upd_buf b (\<lambda>bb. bb\<lparr>b_dev := dev, b_sector := sector,
                 b_busy := True, b_valid := False, b_dirty := False\<rparr>) s)
           | OutOfFuel \<Rightarrow> Diverge
           | Exhausted \<Rightarrow> Panic ''bget: no buffers''))"

definition bread :: "uint \<Rightarrow> uint \<Rightarrow> ('z bstate_scheme, nat) kop" where
  "bread dev sector =
     kbind (bget dev sector) (\<lambda>b.
     kbind (kget (\<lambda>s. b_valid (bufs s b))) (\<lambda>v.
     kseq (kwhen (\<not> v) (iderw b))
     (kret b)))"

definition bwrite :: "nat \<Rightarrow> ('z bstate_scheme, unit) kop" where
  "bwrite b s =
     (if \<not> b_busy (bufs s b) then Panic ''bwrite''
      else iderw b (upd_buf b (\<lambda>bb. bb\<lparr>b_dirty := True\<rparr>) s))"

text \<open>The six pointer assignments of \<open>brelse\<close>, in order.\<close>

definition brelse_links :: "nat \<Rightarrow> (nat \<Rightarrow> buf) \<Rightarrow> nat \<Rightarrow> buf" where
  "brelse_links b bs =
     (let bs = set_prev (b_next (bs b)) (b_prev (bs b)) bs;
          bs = set_next (b_prev (bs b)) (b_next (bs b)) bs;
          bs = set_next b (b_next (bs NBUF)) bs;
          bs = set_prev b NBUF bs;
          bs = set_prev (b_next (bs NBUF)) b bs
      in set_next NBUF b bs)"

definition brelse :: "nat \<Rightarrow> ('z bstate_scheme, unit) kop" where
  "brelse b s =
     (if \<not> b_busy (bufs s b) then Panic ''brelse''
      else wakeup (ChBuf b)
        (upd_buf b (\<lambda>bb. bb\<lparr>b_busy := False\<rparr>) (s\<lparr>bufs := brelse_links b (bufs s)\<rparr>)))"

text \<open>What the holder of a buffer does to its contents: assignments to \<open>b->data\<close>.\<close>

definition set_data :: "nat \<Rightarrow> (uchar list \<Rightarrow> uchar list) \<Rightarrow> ('z bstate_scheme, unit) kop" where
  "set_data b f = kmodify (upd_buf b (\<lambda>bb. bb\<lparr>b_data := f (b_data bb)\<rparr>))"

definition get_data :: "nat \<Rightarrow> ('z bstate_scheme, uchar list) kop" where
  "get_data b = kget (\<lambda>s. b_data (bufs s b))"

text \<open>\<open>b->flags |= B_DIRTY\<close>, the way \<open>log_write\<close> pins a buffer in the cache.\<close>

definition set_dirty :: "nat \<Rightarrow> ('z bstate_scheme, unit) kop" where
  "set_dirty b = kmodify (upd_buf b (\<lambda>bb. bb\<lparr>b_dirty := True\<rparr>))"

section \<open>The abstract view and the invariant\<close>

definition caches :: "'z bstate_scheme \<Rightarrow> uint \<Rightarrow> nat \<Rightarrow> bool" where
  "caches s n b \<longleftrightarrow> b_dev (bufs s b) = ROOTDEV \<and> b_sector (bufs s b) = n"

definition blk :: "'z bstate_scheme \<Rightarrow> uint \<Rightarrow> uchar list" where
  "blk s n = (case first_slot NBUF (\<lambda>b. caches s n b \<and> b_valid (bufs s b)) of
       None \<Rightarrow> memdisk s n
     | Some b \<Rightarrow> b_data (bufs s b))"

definition dirtyset :: "'z bstate_scheme \<Rightarrow> uint set" where
  "dirtyset s = {n. \<exists>b<NBUF. caches s n b \<and> b_dirty (bufs s b)}"

definition busyset :: "'z bstate_scheme \<Rightarrow> uint set" where
  "busyset s = {n. \<exists>b<NBUF. caches s n b \<and> b_busy (bufs s b)}"

definition holds :: "'z bstate_scheme \<Rightarrow> nat \<Rightarrow> uint \<Rightarrow> bool" where
  "holds s b n \<longleftrightarrow> b < NBUF \<and> caches s n b \<and> b_busy (bufs s b) \<and> b_valid (bufs s b)"

definition nexts :: "(nat \<Rightarrow> buf) \<Rightarrow> nat \<Rightarrow> nat" where
  "nexts bs i = b_next (bs i)"

definition prevs :: "(nat \<Rightarrow> buf) \<Rightarrow> nat \<Rightarrow> nat" where
  "prevs bs i = b_prev (bs i)"

definition links_ok :: "(nat \<Rightarrow> buf) \<Rightarrow> bool" where
  "links_ok bs \<longleftrightarrow> (\<exists>xs. set xs = {..<NBUF} \<and> dll (nexts bs) (prevs bs) NBUF xs)"

definition unique_ok :: "(nat \<Rightarrow> buf) \<Rightarrow> bool" where
  "unique_ok bs \<longleftrightarrow> (\<forall>i<NBUF. \<forall>j<NBUF. b_dev (bs i) = ROOTDEV \<and> b_dev (bs j) = ROOTDEV \<and>
     b_sector (bs i) = b_sector (bs j) \<longrightarrow> i = j)"

definition buf_ok :: "uint \<Rightarrow> buf \<Rightarrow> bool" where
  "buf_ok nsect bb \<longleftrightarrow> length (b_data bb) = BSIZE \<and>
     (b_busy bb \<longrightarrow> b_valid bb) \<and> (b_dirty bb \<longrightarrow> b_valid bb) \<and>
     (b_valid bb \<longrightarrow> b_dev bb = ROOTDEV \<and> b_sector bb < nsect)"

definition clean_ok :: "(uint \<Rightarrow> uchar list) \<Rightarrow> buf \<Rightarrow> bool" where
  "clean_ok d bb \<longleftrightarrow> (b_valid bb \<and> \<not> b_dirty bb \<and> \<not> b_busy bb \<longrightarrow> b_data bb = d (b_sector bb))"

definition bio_inv :: "'z bstate_scheme \<Rightarrow> bool" where
  "bio_inv s \<longleftrightarrow> links_ok (bufs s) \<and> unique_ok (bufs s) \<and>
     (\<forall>b<NBUF. buf_ok (disksize s) (bufs s b) \<and> clean_ok (memdisk s) (bufs s b)) \<and>
     (\<forall>n. length (memdisk s n) = BSIZE)"

text \<open>The cache as the loader leaves it: static storage, every flag clear.\<close>

definition fresh_cache :: "'z bstate_scheme \<Rightarrow> bool" where
  "fresh_cache s \<longleftrightarrow> (\<forall>b<NBUF. \<not> b_busy (bufs s b) \<and> \<not> b_valid (bufs s b) \<and>
     \<not> b_dirty (bufs s b) \<and> length (b_data (bufs s b)) = BSIZE) \<and> (\<forall>n. length (memdisk s n) = BSIZE)"

definition static_buf :: buf where
  "static_buf = \<lparr>b_busy = False, b_valid = False, b_dirty = False, b_dev = 0, b_sector = 0,
     b_prev = 0, b_next = 0, b_data = replicate BSIZE 0\<rparr>"

definition static_cache :: "(uint \<Rightarrow> uchar list) \<Rightarrow> uint \<Rightarrow> bstate" where
  "static_cache d nsect = \<lparr>mem = (\<lambda>_. 0), freelist = 0, use_lock = False, kend = KERNLINK, kdata = KERNLINK, kpgdir = 0, cr3 = 0,
     ptable = (\<lambda>_. zero_proc), curproc = None, initproc = None, nextpid = 1,
     memdisk = d, disksize = nsect, wtrace = [], bufs = (\<lambda>_. static_buf)\<rparr>"

text \<open>What a cache operation leaves alone: everything but the process table, the buffers,
  the disk contents and the ghost trace.\<close>

definition bframe :: "'z bstate_scheme \<Rightarrow> 'z bstate_scheme \<Rightarrow> bool" where
  "bframe s s' \<longleftrightarrow> mem s' = mem s \<and> freelist s' = freelist s \<and> use_lock s' = use_lock s \<and> kend s' = kend s \<and>
     kdata s' = kdata s \<and> kpgdir s' = kpgdir s \<and> cr3 s' = cr3 s \<and> curproc s' = curproc s \<and> initproc s' = initproc s \<and>
     nextpid s' = nextpid s \<and> disksize s' = disksize s \<and> bstate.more s' = bstate.more s"

text \<open>The abstract state a client of the cache sees, and what every operation keeps.\<close>

definition same_view :: "'z bstate_scheme \<Rightarrow> 'z bstate_scheme \<Rightarrow> bool" where
  "same_view s s' \<longleftrightarrow> blk s' = blk s \<and> memdisk s' = memdisk s \<and> wtrace s' = wtrace s \<and>
     dirtyset s' = dirtyset s"

section \<open>Frame lemmas\<close>

lemma bframe_refl [simp]: "bframe s s"
  by (simp add: bframe_def)

lemma bframe_trans [trans]: "bframe s t \<Longrightarrow> bframe t u \<Longrightarrow> bframe s u"
  by (simp add: bframe_def)

lemma bframe_upd [simp]:
  "bframe s (upd_buf b f s)" "bframe s (wakeup1 c s)" "bframe s (s\<lparr>bufs := bs\<rparr>)"
  "bframe s (s\<lparr>memdisk := d\<rparr>)" "bframe s (s\<lparr>memdisk := d, wtrace := w\<rparr>)"
  by (simp_all add: bframe_def upd_buf_def wakeup1_def)

lemma wakeup1_mstate [simp]:
  "mem (wakeup1 c s) = mem s" "freelist (wakeup1 c s) = freelist s"
  "use_lock (wakeup1 c s) = use_lock s" "kend (wakeup1 c s) = kend s"
  "kdata (wakeup1 c s) = kdata s" "kpgdir (wakeup1 c s) = kpgdir s" "cr3 (wakeup1 c s) = cr3 s"
  by (simp_all add: wakeup1_def)

lemma wakeup1_bstate [simp]:
  "bufs (wakeup1 c s) = bufs s"
  "memdisk (wakeup1 c s) = memdisk s"
  "disksize (wakeup1 c s) = disksize s"
  "wtrace (wakeup1 c s) = wtrace s"
  "bstate.more (wakeup1 c s) = bstate.more s"
  by (simp_all add: wakeup1_def)

section \<open>The links\<close>

lemma set_next_fields [simp]:
  "b_busy (set_next i v bs j) = b_busy (bs j)" "b_valid (set_next i v bs j) = b_valid (bs j)"
  "b_dirty (set_next i v bs j) = b_dirty (bs j)" "b_dev (set_next i v bs j) = b_dev (bs j)"
  "b_sector (set_next i v bs j) = b_sector (bs j)" "b_data (set_next i v bs j) = b_data (bs j)"
  "b_prev (set_next i v bs j) = b_prev (bs j)"
  by (simp_all add: set_next_def)

lemma set_prev_fields [simp]:
  "b_busy (set_prev i v bs j) = b_busy (bs j)" "b_valid (set_prev i v bs j) = b_valid (bs j)"
  "b_dirty (set_prev i v bs j) = b_dirty (bs j)" "b_dev (set_prev i v bs j) = b_dev (bs j)"
  "b_sector (set_prev i v bs j) = b_sector (bs j)" "b_data (set_prev i v bs j) = b_data (bs j)"
  "b_next (set_prev i v bs j) = b_next (bs j)"
  by (simp_all add: set_prev_def)

lemma nexts_simps [simp]:
  "nexts (set_next i v bs) = (nexts bs)(i := v)"
  "nexts (set_prev i v bs) = nexts bs"
  "b_next bb = b_next (bs i) \<Longrightarrow> nexts (bs(i := bb)) = nexts bs"
  by (auto simp: nexts_def set_next_def set_prev_def fun_eq_iff)

lemma prevs_simps [simp]:
  "prevs (set_prev i v bs) = (prevs bs)(i := v)"
  "prevs (set_next i v bs) = prevs bs"
  "b_prev bb = b_prev (bs i) \<Longrightarrow> prevs (bs(i := bb)) = prevs bs"
  by (auto simp: prevs_def set_next_def set_prev_def fun_eq_iff)

lemma brelse_links_fields [simp]:
  "b_busy (brelse_links b bs j) = b_busy (bs j)" "b_valid (brelse_links b bs j) = b_valid (bs j)"
  "b_dirty (brelse_links b bs j) = b_dirty (bs j)" "b_dev (brelse_links b bs j) = b_dev (bs j)"
  "b_sector (brelse_links b bs j) = b_sector (bs j)" "b_data (brelse_links b bs j) = b_data (bs j)"
  by (simp_all add: brelse_links_def Let_def)

text \<open>\<open>brelse\<close> moves the buffer to the front of the list and keeps the order of the others.\<close>

lemma brelse_links_dll:
  assumes "dll (nexts bs) (prevs bs) NBUF (ys @ b # zs)"
  shows "dll (nexts (brelse_links b bs)) (prevs (brelse_links b bs)) NBUF (b # ys @ zs)"
proof -
  let ?nx = "nexts bs" and ?pv = "prevs bs"
  have ne: "b \<noteq> NBUF" "b \<notin> set (ys @ zs)" using assms by (auto simp: dll_def)
  have "?nx b \<noteq> b"
    using dll_neighbours(1) [OF assms] ne by (cases zs) auto
  moreover have "?pv b \<noteq> b"
    using dll_neighbours(2) [OF assms] ne last_in_set [of ys] by auto
  ultimately have "nexts (brelse_links b bs) = ?nx(?pv b := ?nx b, b := (?nx(?pv b := ?nx b)) NBUF, NBUF := b)"
    and "prevs (brelse_links b bs) = ?pv(?nx b := ?pv b, b := NBUF, (?nx(?pv b := ?nx b)) NBUF := b)"
    using ne(1)
    by (simp_all add: brelse_links_def Let_def flip: nexts_def prevs_def)
  with dll_push [OF dll_unlink [OF assms] ne] show ?thesis by simp
qed

lemma brelse_links_ok:
  assumes "links_ok bs" and "b < NBUF"
  shows "links_ok (brelse_links b bs)"
proof -
  obtain xs where xs: "set xs = {..<NBUF}" "dll (nexts bs) (prevs bs) NBUF xs"
    using assms(1) by (auto simp: links_ok_def)
  then obtain ys zs where "xs = ys @ b # zs" using assms(2) split_list [of b xs] by auto
  with xs brelse_links_dll [of bs ys b zs] show ?thesis
    unfolding links_ok_def by (intro exI [of _ "b # ys @ zs"]) auto
qed

section \<open>Scans of the buffer list\<close>

lemma find_cases:
  assumes "set xs = {..<n}"
  shows "find P xs = None \<and> (\<forall>b<n. \<not> P b) \<or> (\<exists>b<n. P b \<and> find P xs = Some b)"
proof (cases "find P xs")
  case None
  with assms show ?thesis by (auto simp: find_None_iff)
next
  case (Some b)
  then have "b \<in> set xs" "P b" by (auto simp: find_Some_iff)
  with Some assms show ?thesis by auto
qed

lemma links_length:
  "set xs = {..<NBUF} \<Longrightarrow> dll nx pv NBUF xs \<Longrightarrow> length xs < Suc NBUF"
  using distinct_card [of xs] by (simp add: dll_def)

lemma scan_next_cases:
  fixes bs :: "nat \<Rightarrow> buf" and P :: "nat \<Rightarrow> bool"
  assumes "links_ok bs"
  defines "r \<equiv> scan_list (Suc NBUF) (\<lambda>b. b_next (bs b)) NBUF P (b_next (bs NBUF))"
  shows "r = Exhausted \<and> (\<forall>b<NBUF. \<not> P b) \<or> (\<exists>b<NBUF. P b \<and> r = Found b)"
proof -
  obtain xs where xs: "set xs = {..<NBUF}" "dll (nexts bs) (prevs bs) NBUF xs"
    using assms(1) by (auto simp: links_ok_def)
  have "r = (case find P xs of None \<Rightarrow> Exhausted | Some b \<Rightarrow> Found b)"
    unfolding r_def using dll_scan_next [OF xs(2) links_length [OF xs], of P]
    by (simp add: nexts_def [abs_def])
  then show ?thesis using find_cases [OF xs(1), of P] by auto
qed

lemma scan_prev_cases:
  fixes bs :: "nat \<Rightarrow> buf" and P :: "nat \<Rightarrow> bool"
  assumes "links_ok bs"
  defines "r \<equiv> scan_list (Suc NBUF) (\<lambda>b. b_prev (bs b)) NBUF P (b_prev (bs NBUF))"
  shows "r = Exhausted \<and> (\<forall>b<NBUF. \<not> P b) \<or> (\<exists>b<NBUF. P b \<and> r = Found b)"
proof -
  obtain xs where xs: "set xs = {..<NBUF}" "dll (nexts bs) (prevs bs) NBUF xs"
    using assms(1) by (auto simp: links_ok_def)
  have "r = (case find P (rev xs) of None \<Rightarrow> Exhausted | Some b \<Rightarrow> Found b)"
    unfolding r_def using dll_scan_prev [OF xs(2) links_length [OF xs], of P]
    by (simp add: prevs_def [abs_def])
  then show ?thesis using find_cases [of "rev xs" NBUF P] xs(1) by auto
qed

text \<open>\<open>bget\<close> on a sector some buffer caches, and on one that no buffer caches.\<close>

lemma bget_hit:
  assumes "links_ok (bufs s)" and "unique_ok (bufs s)" and "b < NBUF" and "caches s n b"
  shows "bget ROOTDEV n s = (if b_busy (bufs s b) then sleep (ChBuf b) s
    else Done b (upd_buf b (\<lambda>bb. bb\<lparr>b_busy := True\<rparr>) s))"
proof -
  let ?P = "\<lambda>b. b_dev (bufs s b) = ROOTDEV \<and> b_sector (bufs s b) = n"
  have "?P b" using assms(4) by (simp add: caches_def)
  moreover have "\<And>c. c < NBUF \<Longrightarrow> ?P c \<Longrightarrow> c = b"
    using assms calculation unfolding unique_ok_def by blast
  ultimately have "scan_list (Suc NBUF) (\<lambda>b. b_next (bufs s b)) NBUF ?P (b_next (bufs s NBUF)) = Found b"
    using scan_next_cases [OF assms(1), of ?P] assms(3) by blast
  then show ?thesis by (simp add: bget_def Let_def)
qed

lemma bget_miss:
  assumes "links_ok (bufs s)" and "\<forall>b<NBUF. \<not> caches s n b"
    and "\<exists>b<NBUF. \<not> b_busy (bufs s b) \<and> \<not> b_dirty (bufs s b)"
  shows "\<exists>b<NBUF. \<not> b_busy (bufs s b) \<and> \<not> b_dirty (bufs s b) \<and>
    bget ROOTDEV n s = Done b (upd_buf b (\<lambda>bb. bb\<lparr>b_dev := ROOTDEV, b_sector := n,
      b_busy := True, b_valid := False, b_dirty := False\<rparr>) s)"
proof -
  let ?P = "\<lambda>b. b_dev (bufs s b) = ROOTDEV \<and> b_sector (bufs s b) = n"
  let ?Q = "\<lambda>b. \<not> b_busy (bufs s b) \<and> \<not> b_dirty (bufs s b)"
  have "scan_list (Suc NBUF) (\<lambda>b. b_next (bufs s b)) NBUF ?P (b_next (bufs s NBUF)) = Exhausted"
    using scan_next_cases [OF assms(1), of ?P] assms(2) unfolding caches_def by blast
  moreover obtain b where "b < NBUF" "?Q b"
    "scan_list (Suc NBUF) (\<lambda>b. b_prev (bufs s b)) NBUF ?Q (b_prev (bufs s NBUF)) = Found b"
    using scan_prev_cases [OF assms(1), of ?Q] assms(3) by blast
  ultimately show ?thesis by (auto simp: bget_def Let_def)
qed

lemma bget_none:
  assumes "links_ok (bufs s)" and "\<forall>b<NBUF. \<not> caches s n b"
    and "\<forall>b<NBUF. b_busy (bufs s b) \<or> b_dirty (bufs s b)"
  shows "bget ROOTDEV n s = Panic ''bget: no buffers''"
proof -
  let ?P = "\<lambda>b. b_dev (bufs s b) = ROOTDEV \<and> b_sector (bufs s b) = n"
  let ?Q = "\<lambda>b. \<not> b_busy (bufs s b) \<and> \<not> b_dirty (bufs s b)"
  have "scan_list (Suc NBUF) (\<lambda>b. b_next (bufs s b)) NBUF ?P (b_next (bufs s NBUF)) = Exhausted"
    using scan_next_cases [OF assms(1), of ?P] assms(2) unfolding caches_def by blast
  moreover have "scan_list (Suc NBUF) (\<lambda>b. b_prev (bufs s b)) NBUF ?Q (b_prev (bufs s NBUF)) = Exhausted"
    using scan_prev_cases [OF assms(1), of ?Q] assms(3) by blast
  ultimately show ?thesis by (simp add: bget_def Let_def)
qed

section \<open>The abstract view\<close>

lemma blk_cached:
  assumes "unique_ok (bufs s)" and "b < NBUF" and "caches s n b" and "b_valid (bufs s b)"
  shows "blk s n = b_data (bufs s b)"
proof -
  obtain c where c: "first_slot NBUF (\<lambda>b. caches s n b \<and> b_valid (bufs s b)) = Some c"
    using first_slot_exists [of b NBUF "\<lambda>b. caches s n b \<and> b_valid (bufs s b)"] assms by auto
  then have "c < NBUF" "caches s n c" by (auto simp: first_slot_Some)
  with assms have "c = b" unfolding unique_ok_def caches_def by blast
  with c show ?thesis by (simp add: blk_def)
qed

lemma blk_uncached:
  "\<forall>b<NBUF. \<not> (caches s n b \<and> b_valid (bufs s b)) \<Longrightarrow> blk s n = memdisk s n"
  using first_slot_None [of NBUF "\<lambda>b. caches s n b \<and> b_valid (bufs s b)"] by (simp add: blk_def)

lemma first_slot_cong:
  "(\<And>b. b < n \<Longrightarrow> P b = Q b) \<Longrightarrow> first_slot n P = first_slot n Q"
  by (auto simp: first_slot_def intro!: find_cong)

lemma blk_same:
  assumes "\<And>b. b < NBUF \<Longrightarrow> (caches s' n b \<and> b_valid (bufs s' b)) = (caches s n b \<and> b_valid (bufs s b))"
    and "\<And>b. b < NBUF \<Longrightarrow> caches s n b \<Longrightarrow> b_valid (bufs s b) \<Longrightarrow> b_data (bufs s' b) = b_data (bufs s b)"
    and "memdisk s' n = memdisk s n"
  shows "blk s' n = blk s n"
proof -
  have eq: "first_slot NBUF (\<lambda>b. caches s' n b \<and> b_valid (bufs s' b)) =
      first_slot NBUF (\<lambda>b. caches s n b \<and> b_valid (bufs s b))"
    by (rule first_slot_cong) (rule assms(1))
  then show ?thesis
  proof (cases "first_slot NBUF (\<lambda>b. caches s n b \<and> b_valid (bufs s b))")
    case None
    with eq assms(3) show ?thesis by (simp add: blk_def)
  next
    case (Some b)
    then have "b < NBUF" "caches s n b" "b_valid (bufs s b)" by (auto simp: first_slot_Some)
    with Some eq assms(2) show ?thesis by (simp add: blk_def)
  qed
qed

text \<open>Fewer than \<open>NBUF\<close> busy or dirty sectors leave a buffer to recycle.\<close>

lemma recyclable:
  assumes "bio_inv s" and "card (busyset s \<union> dirtyset s) < NBUF"
  shows "\<exists>b<NBUF. \<not> b_busy (bufs s b) \<and> \<not> b_dirty (bufs s b)"
proof (rule ccontr)
  assume "\<not> ?thesis"
  then have all: "\<And>b. b < NBUF \<Longrightarrow> b_busy (bufs s b) \<or> b_dirty (bufs s b)" by blast
  have ok: "\<And>b. b < NBUF \<Longrightarrow> b_dev (bufs s b) = ROOTDEV"
    using all assms(1) unfolding bio_inv_def buf_ok_def by blast
  have inj: "inj_on (\<lambda>b. b_sector (bufs s b)) {..<NBUF}"
    using assms(1) ok unfolding bio_inv_def unique_ok_def inj_on_def by auto
  have sub: "(\<lambda>b. b_sector (bufs s b)) ` {..<NBUF} \<subseteq> busyset s \<union> dirtyset s"
    using all ok unfolding busyset_def dirtyset_def caches_def by blast
  have "NBUF = card ((\<lambda>b. b_sector (bufs s b)) ` {..<NBUF})"
    using card_image [OF inj] by simp
  also have "\<dots> \<le> card (busyset s \<union> dirtyset s)" by (rule card_mono [OF _ sub]) simp
  finally show False using assms(2) by simp
qed

section \<open>The operations on the view\<close>

lemma bread_hit:
  assumes inv: "bio_inv s" and n: "n < disksize s" and "n \<notin> busyset s"
    and b: "b < NBUF" "caches s n b"
  defines "s1 \<equiv> upd_buf b (\<lambda>bb. bb\<lparr>b_busy := True\<rparr>) s"
  defines "s' \<equiv> if b_valid (bufs s b) then s1
    else upd_buf b (\<lambda>bb. bb\<lparr>b_data := memdisk s n, b_valid := True\<rparr>) s1"
  shows "bread ROOTDEV n s = Done b s'"
proof -
  have nb: "\<not> b_busy (bufs s b)" using assms(3) b by (auto simp: busyset_def)
  have "bget ROOTDEV n s = Done b s1"
    using bget_hit [of s b n] inv b nb by (simp add: bio_inv_def s1_def)
  moreover have "\<not> b_valid (bufs s b) \<Longrightarrow> \<not> b_dirty (bufs s b)"
    using inv b(1) by (auto simp: bio_inv_def buf_ok_def)
  moreover have "b_sector (bufs s b) = n" "b_dev (bufs s b) = 1"
    using b(2) by (auto simp: caches_def ROOTDEV_def)
  ultimately show ?thesis
    using n by (auto simp: bread_def kop_simps iderw_def Let_def s1_def s'_def)
qed

lemma bread_miss:
  assumes inv: "bio_inv s" and n: "n < disksize s" and "\<forall>b<NBUF. \<not> caches s n b"
    and "\<exists>b<NBUF. \<not> b_busy (bufs s b) \<and> \<not> b_dirty (bufs s b)"
  shows "\<exists>b<NBUF. \<not> b_busy (bufs s b) \<and> \<not> b_dirty (bufs s b) \<and>
    bread ROOTDEV n s = Done b (upd_buf b (\<lambda>bb. bb\<lparr>b_dev := ROOTDEV, b_sector := n,
      b_busy := True, b_dirty := False, b_data := memdisk s n, b_valid := True\<rparr>) s)"
proof -
  obtain b where b: "b < NBUF" "\<not> b_busy (bufs s b)" "\<not> b_dirty (bufs s b)"
    "bget ROOTDEV n s = Done b (upd_buf b (\<lambda>bb. bb\<lparr>b_dev := ROOTDEV, b_sector := n,
      b_busy := True, b_valid := False, b_dirty := False\<rparr>) s)"
    using bget_miss [of s n] assms by (auto simp: bio_inv_def)
  then have "bread ROOTDEV n s = Done b (upd_buf b (\<lambda>bb. bb\<lparr>b_dev := ROOTDEV, b_sector := n,
      b_busy := True, b_dirty := False, b_data := memdisk s n, b_valid := True\<rparr>) s)"
    using n by (simp add: bread_def kop_simps iderw_def Let_def upd_buf_def ROOTDEV_def not_le)
  with b show ?thesis by blast
qed

lemma unique_okD:
  "unique_ok bs \<Longrightarrow> i < NBUF \<Longrightarrow> j < NBUF \<Longrightarrow> b_dev (bs i) = ROOTDEV \<Longrightarrow>
   b_dev (bs j) = ROOTDEV \<Longrightarrow> b_sector (bs i) = b_sector (bs j) \<Longrightarrow> i = j"
  unfolding unique_ok_def by blast

lemma caches_unique:
  "bio_inv s \<Longrightarrow> b < NBUF \<Longrightarrow> c < NBUF \<Longrightarrow> caches s m b \<Longrightarrow> caches s m c \<Longrightarrow> b = c"
  unfolding bio_inv_def caches_def by (metis unique_okD)

lemma caches_same: "caches s n b \<Longrightarrow> caches s m b = (m = n)"
  by (auto simp: caches_def)

lemma bio_inv_blk_length: "bio_inv s \<Longrightarrow> length (blk s n) = BSIZE"
  by (auto simp: bio_inv_def buf_ok_def blk_def first_slot_Some split: option.split)

lemma bio_inv_clean:
  "bio_inv s \<Longrightarrow> b < NBUF \<Longrightarrow> b_valid (bufs s b) \<Longrightarrow> \<not> b_dirty (bufs s b) \<Longrightarrow>
   \<not> b_busy (bufs s b) \<Longrightarrow> b_data (bufs s b) = memdisk s (b_sector (bufs s b))"
  by (auto simp: bio_inv_def clean_ok_def)

lemma bio_inv_upd:
  assumes inv: "bio_inv s" and b: "b < NBUF"
    and links: "b_next bb = b_next (bufs s b)" "b_prev bb = b_prev (bufs s b)"
    and ok: "buf_ok (disksize s) bb" "clean_ok (memdisk s) bb"
    and uniq: "\<And>c. c < NBUF \<Longrightarrow> caches s (b_sector bb) c \<Longrightarrow> c = b"
  shows "bio_inv (s\<lparr>bufs := (bufs s)(b := bb)\<rparr>)"
proof -
  have "links_ok (bufs (s\<lparr>bufs := (bufs s)(b := bb)\<rparr>))"
    using inv links by (simp add: bio_inv_def links_ok_def)
  moreover have "unique_ok (bufs (s\<lparr>bufs := (bufs s)(b := bb)\<rparr>))"
    unfolding unique_ok_def
  proof (intro allI impI, elim conjE)
    fix i j
    assume ij: "i < NBUF" "j < NBUF" "b_dev (bufs (s\<lparr>bufs := (bufs s)(b := bb)\<rparr>) i) = ROOTDEV"
      "b_dev (bufs (s\<lparr>bufs := (bufs s)(b := bb)\<rparr>) j) = ROOTDEV"
      "b_sector (bufs (s\<lparr>bufs := (bufs s)(b := bb)\<rparr>) i) = b_sector (bufs (s\<lparr>bufs := (bufs s)(b := bb)\<rparr>) j)"
    have u: "unique_ok (bufs s)" using inv by (simp add: bio_inv_def)
    consider "i = b" "j = b" | "i = b" "j \<noteq> b" | "i \<noteq> b" "j = b" | "i \<noteq> b" "j \<noteq> b" by blast
    then show "i = j"
    proof cases
      case 2
      with ij have "caches s (b_sector bb) j" by (simp add: caches_def)
      with uniq ij 2 show ?thesis by blast
    next
      case 3
      with ij have "caches s (b_sector bb) i" by (simp add: caches_def)
      with uniq ij 3 show ?thesis by blast
    next
      case 4
      with ij have "b_dev (bufs s i) = ROOTDEV" "b_dev (bufs s j) = ROOTDEV"
        "b_sector (bufs s i) = b_sector (bufs s j)" by simp_all
      then show ?thesis by (rule unique_okD [OF u ij(1,2)])
    qed simp
  qed
  ultimately show ?thesis using inv ok by (auto simp: bio_inv_def)
qed

text \<open>Both branches of \<open>bread\<close> turn one buffer into the held copy of sector \<open>n\<close>.\<close>

lemma bread_view:
  assumes inv: "bio_inv s" and n: "n < disksize s" and b: "b < NBUF" "\<not> b_busy (bufs s b)"
    and links: "b_next bb = b_next (bufs s b)" "b_prev bb = b_prev (bufs s b)"
    and f: "b_dev bb = ROOTDEV" "b_sector bb = n" "b_busy bb"
      "b_valid bb" "b_dirty bb = b_dirty (bufs s b)" "b_data bb = blk s n"
    and uniq: "\<And>c. c < NBUF \<Longrightarrow> caches s n c \<Longrightarrow> c = b"
    and clean: "\<not> caches s n b \<Longrightarrow> \<not> b_dirty (bufs s b)"
  defines "s' \<equiv> s\<lparr>bufs := (bufs s)(b := bb)\<rparr>"
  shows "bio_inv s' \<and> bframe s s' \<and> same_view s s' \<and> busyset s' = insert n (busyset s) \<and>
    holds s' b n \<and> b_data (bufs s' b) = blk s n \<and> (\<forall>c m. holds s c m \<longrightarrow> holds s' c m)"
proof -
  have bs': "bufs s' c = (if c = b then bb else bufs s c)" for c
    by (simp add: s'_def)
  have ca: "caches s' m c = (if c = b then m = n else caches s m c)" for m c
    using f(1,2) by (auto simp: caches_def bs')
  have inv': "bio_inv s'" unfolding s'_def
  proof (rule bio_inv_upd [OF inv b(1) links])
    show "buf_ok (disksize s) bb"
      using f n bio_inv_blk_length [OF inv] by (simp add: buf_ok_def)
    show "clean_ok (memdisk s) bb" using f by (simp add: clean_ok_def)
  qed (use uniq f in simp)
  have "blk s' m = blk s m" for m
  proof (cases "m = n")
    case True
    have "blk s' n = b_data (bufs s' b)"
      by (rule blk_cached) (use inv' b f ca in \<open>auto simp: bio_inv_def bs'\<close>)
    with True f show ?thesis by (simp add: bs')
  next
    case False
    show ?thesis
    proof (cases "caches s m b \<and> b_valid (bufs s b)")
      case True
      with False have "\<not> caches s n b" by (auto simp: caches_def)
      with clean b inv True have "b_data (bufs s b) = memdisk s m"
        using bio_inv_clean [OF inv b(1)] by (auto simp: caches_def)
      moreover have "blk s m = b_data (bufs s b)"
        by (rule blk_cached) (use inv b True in \<open>auto simp: bio_inv_def\<close>)
      moreover have "blk s' m = memdisk s' m"
        by (rule blk_uncached) (metis ca caches_unique inv b(1) True False)
      ultimately show ?thesis by (simp add: s'_def)
    next
      case no: False
      show ?thesis
        by (rule blk_same) (use no False ca in \<open>auto simp: bs' s'_def\<close>)
    qed
  qed
  moreover have "(caches s' m c \<and> b_dirty (bufs s' c)) = (caches s m c \<and> b_dirty (bufs s c))" for m c
    using clean f(5) caches_same [of s n b m] by (auto simp: ca bs')
  then have "dirtyset s' = dirtyset s" by (simp add: dirtyset_def)
  ultimately have "same_view s s'" by (auto simp: same_view_def s'_def)
  moreover have "bframe s s'" by (simp add: s'_def)
  moreover have "busyset s' = insert n (busyset s)"
    using b f by (auto simp: busyset_def ca bs')
  ultimately show ?thesis
    using inv' b f by (auto simp: holds_def ca bs')
qed

lemma bread_spec:
  assumes inv: "bio_inv s" and n: "n < disksize s" and free: "n \<notin> busyset s"
    and room: "n \<in> dirtyset s \<or> card (busyset s \<union> dirtyset s) < NBUF"
  shows "\<exists>b s'. bread ROOTDEV n s = Done b s' \<and> bio_inv s' \<and> bframe s s' \<and> same_view s s' \<and>
    busyset s' = insert n (busyset s) \<and> holds s' b n \<and> b_data (bufs s' b) = blk s n \<and>
    (\<forall>c m. holds s c m \<longrightarrow> holds s' c m)"
proof (cases "\<exists>b<NBUF. caches s n b")
  case True
  then obtain b where b: "b < NBUF" "caches s n b" by blast
  let ?f = "\<lambda>bb. if b_valid bb then bb\<lparr>b_busy := True\<rparr>
    else bb\<lparr>b_busy := True, b_data := memdisk s n, b_valid := True\<rparr>"
  have uniq: "\<And>c. c < NBUF \<Longrightarrow> caches s n c \<Longrightarrow> c = b"
    using inv b unfolding bio_inv_def unique_ok_def caches_def by blast
  have nb: "\<not> b_busy (bufs s b)" using free b by (auto simp: busyset_def)
  have "bread ROOTDEV n s = Done b (upd_buf b ?f s)"
    using bread_hit [OF inv n free b] by (simp add: upd_buf_def)
  moreover have "b_data (?f (bufs s b)) = blk s n"
  proof (cases "b_valid (bufs s b)")
    case True
    with inv b show ?thesis using blk_cached [of s b n] by (simp add: bio_inv_def)
  next
    case False
    have "blk s n = memdisk s n" by (rule blk_uncached) (metis uniq False)
    with False show ?thesis by simp
  qed
  ultimately show ?thesis
    using bread_view [OF inv n b(1) nb _ _ _ _ _ _ _ _ uniq, of "?f (bufs s b)"] b(2)
    by (simp add: caches_def upd_buf_def)
next
  case False
  then have nc: "\<forall>b<NBUF. \<not> caches s n b" by blast
  then have "n \<notin> dirtyset s" by (auto simp: dirtyset_def)
  with room have "\<exists>b<NBUF. \<not> b_busy (bufs s b) \<and> \<not> b_dirty (bufs s b)"
    using recyclable [OF inv] by blast
  from bread_miss [OF inv n nc this] obtain b where b: "b < NBUF" "\<not> b_busy (bufs s b)"
    "\<not> b_dirty (bufs s b)"
    "bread ROOTDEV n s = Done b (upd_buf b (\<lambda>bb. bb\<lparr>b_dev := ROOTDEV, b_sector := n,
      b_busy := True, b_dirty := False, b_data := memdisk s n, b_valid := True\<rparr>) s)"
    (is "_ = Done b (upd_buf b ?f s)") by blast
  have "blk s n = memdisk s n" using nc by (intro blk_uncached) auto
  moreover have uniq: "\<And>c. c < NBUF \<Longrightarrow> caches s n c \<Longrightarrow> c = b" using nc by blast
  ultimately show ?thesis
    using bread_view [OF inv n b(1,2) _ _ _ _ _ _ _ _ uniq, of "?f (bufs s b)"] b(3,4)
    by (simp add: upd_buf_def)
qed

text \<open>What the holder of sector \<open>n\<close> may do to its buffer and to the sector on the disk.\<close>

lemma held_upd:
  fixes x :: "uchar list" and w :: "(uint \<times> uchar list) list" and s :: "'z bstate_scheme"
  assumes inv: "bio_inv s" and h: "holds s b n"
    and same: "b_next bb = b_next (bufs s b)" "b_prev bb = b_prev (bufs s b)"
      "b_dev bb = b_dev (bufs s b)" "b_sector bb = b_sector (bufs s b)" "b_busy bb" "b_valid bb"
    and len: "length (b_data bb) = BSIZE" "length x = BSIZE"
  defines "s' \<equiv> s\<lparr>memdisk := (memdisk s)(n := x), wtrace := w, bufs := (bufs s)(b := bb)\<rparr>"
  shows "bio_inv s'" and "bframe s s'" and "blk s' = (blk s)(n := b_data bb)"
    and "dirtyset s' = (if b_dirty bb then insert n (dirtyset s) else dirtyset s - {n})"
    and "busyset s' = busyset s" and "\<forall>c m. holds s c m \<longrightarrow> holds s' c m"
proof -
  have b: "b < NBUF" "caches s n b" "b_busy (bufs s b)" "b_valid (bufs s b)"
    using h by (auto simp: holds_def)
  have bs': "bufs s' c = (if c = b then bb else bufs s c)" for c
    by (simp add: s'_def)
  have md: "memdisk s' = (memdisk s)(n := x)" by (simp add: s'_def)
  have ca: "caches s' m c = caches s m c" for m c
    using same by (auto simp: caches_def bs')
  have other: "c \<noteq> b \<Longrightarrow> c < NBUF \<Longrightarrow> \<not> caches s n c" for c
    using caches_unique [OF inv b(1) _ b(2)] by blast
  have only: "c < NBUF \<Longrightarrow> caches s n c = (c = b)" for c using other b(2) by blast
  have cn: "caches s m b = (m = n)" for m using caches_same [OF b(2)] .
  show "bframe s s'" by (simp add: s'_def bframe_def)
  show inv': "bio_inv s'"
  proof -
    have "links_ok (bufs s')" using inv same by (simp add: bio_inv_def links_ok_def s'_def)
    moreover have "unique_ok (bufs s')"
    proof -
      have "b_dev (bufs s' i) = b_dev (bufs s i)" "b_sector (bufs s' i) = b_sector (bufs s i)" for i
        using same by (simp_all add: bs')
      then show ?thesis using inv by (simp add: bio_inv_def unique_ok_def)
    qed
    moreover have "buf_ok (disksize s') (bufs s' c) \<and> clean_ok (memdisk s') (bufs s' c)" if c: "c < NBUF" for c
    proof (cases "c = b")
      case True
      have "buf_ok (disksize s) (bufs s b)" using inv b(1) by (auto simp: bio_inv_def)
      with True same len b show ?thesis by (simp add: buf_ok_def clean_ok_def bs' s'_def)
    next
      case False
      have "buf_ok (disksize s) (bufs s c)" "clean_ok (memdisk s) (bufs s c)"
        using inv c by (auto simp: bio_inv_def)
      moreover from this have "b_valid (bufs s c) \<Longrightarrow> b_sector (bufs s c) \<noteq> n"
        using other [OF False c] by (auto simp: buf_ok_def caches_def)
      ultimately show ?thesis using False by (auto simp: clean_ok_def s'_def)
    qed
    ultimately show ?thesis using inv len by (auto simp: bio_inv_def s'_def)
  qed
  show "blk s' = (blk s)(n := b_data bb)"
  proof
    fix m
    show "blk s' m = ((blk s)(n := b_data bb)) m"
    proof (cases "m = n")
      case True
      have "blk s' n = b_data (bufs s' b)"
        by (rule blk_cached) (use inv' b same ca in \<open>auto simp: bio_inv_def bs'\<close>)
      with True show ?thesis by (simp add: bs')
    next
      case False
      then have "blk s' m = blk s m"
        by (intro blk_same) (auto simp: ca bs' cn md)
      with False show ?thesis by simp
    qed
  qed
  have d: "(\<exists>c<NBUF. caches s m c \<and> b_dirty (bufs s c)) = (if m = n then b_dirty (bufs s b)
      else \<exists>c<NBUF. c \<noteq> b \<and> caches s m c \<and> b_dirty (bufs s c))" for m
    using b(1) by (cases "m = n") (auto simp: only cn)
  have d': "(\<exists>c<NBUF. caches s' m c \<and> b_dirty (bufs s' c)) = (if m = n then b_dirty bb
      else \<exists>c<NBUF. c \<noteq> b \<and> caches s m c \<and> b_dirty (bufs s c))" for m
    unfolding ca bs' using b(1) by (cases "m = n") (auto simp: only cn)
  show "dirtyset s' = (if b_dirty bb then insert n (dirtyset s) else dirtyset s - {n})"
    unfolding dirtyset_def d d' by auto
  show "busyset s' = busyset s"
    unfolding busyset_def ca bs' using same b(3) by (auto; metis)
  show "\<forall>c m. holds s c m \<longrightarrow> holds s' c m"
    using same by (auto simp: holds_def ca bs')
qed
lemma holds_blk: "bio_inv s \<Longrightarrow> holds s b n \<Longrightarrow> b_data (bufs s b) = blk s n"
  using blk_cached [of s b n] by (simp add: holds_def bio_inv_def)

lemma holds_busy: "holds s b n \<Longrightarrow> n \<in> busyset s"
  by (auto simp: holds_def busyset_def)

lemma holds_unique: "bio_inv s \<Longrightarrow> holds s b n \<Longrightarrow> c < NBUF \<Longrightarrow> caches s n c = (c = b)"
  using caches_unique [of s b c n] by (auto simp: holds_def)

lemma holds_dirty: "bio_inv s \<Longrightarrow> holds s b n \<Longrightarrow> n \<in> dirtyset s \<longleftrightarrow> b_dirty (bufs s b)"
  using holds_unique [of s b n] by (auto simp: dirtyset_def holds_def)

lemma set_data_spec:
  assumes inv: "bio_inv s" and h: "holds s b n" and len: "length (f (blk s n)) = BSIZE"
  shows "\<exists>s'. set_data b f s = Done () s' \<and> bio_inv s' \<and> bframe s s' \<and>
    blk s' = (blk s)(n := f (blk s n)) \<and> memdisk s' = memdisk s \<and> wtrace s' = wtrace s \<and>
    dirtyset s' = dirtyset s \<and> busyset s' = busyset s \<and> (\<forall>c m. holds s c m \<longrightarrow> holds s' c m)"
proof -
  let ?bb = "(bufs s b)\<lparr>b_data := f (b_data (bufs s b))\<rparr>"
  have "b_busy (bufs s b)" "b_valid (bufs s b)" using h by (auto simp: holds_def)
  then have p: "b_next ?bb = b_next (bufs s b)" "b_prev ?bb = b_prev (bufs s b)"
    "b_dev ?bb = b_dev (bufs s b)" "b_sector ?bb = b_sector (bufs s b)" "b_busy ?bb" "b_valid ?bb"
    "length (b_data ?bb) = BSIZE" "length (memdisk s n) = BSIZE"
    using holds_blk [OF inv h] len inv by (auto simp: bio_inv_def)
  have "set_data b f s = Done () (s\<lparr>memdisk := (memdisk s)(n := memdisk s n), wtrace := wtrace s,
      bufs := (bufs s)(b := ?bb)\<rparr>)"
    by (simp add: set_data_def kop_simps upd_buf_def)
  moreover note held_upd [OF inv h p, of "wtrace s"]
  ultimately show ?thesis
    using holds_blk [OF inv h] holds_dirty [OF inv h] by (auto simp: insert_absorb)
qed

lemma set_dirty_spec:
  assumes inv: "bio_inv s" and h: "holds s b n"
  shows "\<exists>s'. set_dirty b s = Done () s' \<and> bio_inv s' \<and> bframe s s' \<and> blk s' = blk s \<and>
    memdisk s' = memdisk s \<and> wtrace s' = wtrace s \<and> dirtyset s' = insert n (dirtyset s) \<and>
    busyset s' = busyset s \<and> (\<forall>c m. holds s c m \<longrightarrow> holds s' c m)"
proof -
  let ?bb = "(bufs s b)\<lparr>b_dirty := True\<rparr>"
  have "b_busy (bufs s b)" "b_valid (bufs s b)" "b < NBUF" using h by (auto simp: holds_def)
  then have p: "b_next ?bb = b_next (bufs s b)" "b_prev ?bb = b_prev (bufs s b)"
    "b_dev ?bb = b_dev (bufs s b)" "b_sector ?bb = b_sector (bufs s b)" "b_busy ?bb" "b_valid ?bb"
    "length (b_data ?bb) = BSIZE" "length (memdisk s n) = BSIZE"
    using inv by (auto simp: bio_inv_def buf_ok_def)
  have "set_dirty b s = Done () (s\<lparr>memdisk := (memdisk s)(n := memdisk s n), wtrace := wtrace s,
      bufs := (bufs s)(b := ?bb)\<rparr>)"
    by (simp add: set_dirty_def kop_simps upd_buf_def)
  moreover note held_upd [OF inv h p, of "wtrace s"]
  ultimately show ?thesis using holds_blk [OF inv h] by auto
qed

lemma bwrite_spec:
  assumes inv: "bio_inv s" and h: "holds s b n"
  shows "\<exists>s'. bwrite b s = Done () s' \<and> bio_inv s' \<and> bframe s s' \<and> blk s' = blk s \<and>
    memdisk s' = (memdisk s)(n := blk s n) \<and> wtrace s' = wtrace s @ [(n, blk s n)] \<and>
    dirtyset s' = dirtyset s - {n} \<and> busyset s' = busyset s \<and> (\<forall>c m. holds s c m \<longrightarrow> holds s' c m)"
proof -
  let ?bb = "(bufs s b)\<lparr>b_dirty := False, b_valid := True\<rparr>"
  have b: "b_busy (bufs s b)" "b_valid (bufs s b)" "b < NBUF" "caches s n b" using h by (auto simp: holds_def)
  then have p: "b_next ?bb = b_next (bufs s b)" "b_prev ?bb = b_prev (bufs s b)"
    "b_dev ?bb = b_dev (bufs s b)" "b_sector ?bb = b_sector (bufs s b)" "b_busy ?bb" "b_valid ?bb"
    "length (b_data ?bb) = BSIZE" "length (b_data (bufs s b)) = BSIZE"
    using inv by (auto simp: bio_inv_def buf_ok_def)
  have "b_sector (bufs s b) = n" "b_dev (bufs s b) = 1" "n < disksize s"
    using inv b by (auto simp: bio_inv_def buf_ok_def caches_def ROOTDEV_def)
  then have "bwrite b s = Done () (s\<lparr>memdisk := (memdisk s)(n := b_data (bufs s b)),
      wtrace := wtrace s @ [(n, b_data (bufs s b))], bufs := (bufs s)(b := ?bb)\<rparr>)"
    using b by (simp add: bwrite_def iderw_def Let_def kop_simps upd_buf_def not_le)
  moreover note held_upd [OF inv h p, of "wtrace s @ [(n, b_data (bufs s b))]"]
  ultimately show ?thesis using holds_blk [OF inv h] by auto
qed

lemma brelse_spec:
  assumes inv: "bio_inv s" and h: "holds s b n" and sync: "n \<in> dirtyset s \<or> blk s n = memdisk s n"
  shows "\<exists>s'. brelse b s = Done () s' \<and> bio_inv s' \<and> bframe s s' \<and> same_view s s' \<and>
    busyset s' = busyset s - {n} \<and> (\<forall>c m. holds s c m \<longrightarrow> m \<noteq> n \<longrightarrow> holds s' c m)"
proof -
  define s1 where "s1 = s\<lparr>bufs := brelse_links b (bufs s)\<rparr>"
  define s' where "s' = wakeup1 (ChBuf b) (upd_buf b (\<lambda>bb. bb\<lparr>b_busy := False\<rparr>) s1)"
  have b: "b < NBUF" "caches s n b" "b_busy (bufs s b)" "b_valid (bufs s b)"
    using h by (auto simp: holds_def)
  have fields: "b_valid (bufs s' c) = b_valid (bufs s c)" "b_dirty (bufs s' c) = b_dirty (bufs s c)"
    "b_dev (bufs s' c) = b_dev (bufs s c)" "b_sector (bufs s' c) = b_sector (bufs s c)"
    "b_data (bufs s' c) = b_data (bufs s c)" "b_busy (bufs s' c) = (c \<noteq> b \<and> b_busy (bufs s c))" for c
    by (simp_all add: s'_def s1_def)
  have rest: "memdisk s' = memdisk s" "disksize s' = disksize s" "wtrace s' = wtrace s"
    by (simp_all add: s'_def s1_def)
  have ca: "caches s' m c = caches s m c" for m c by (simp add: caches_def fields)
  have "links_ok (bufs s')"
    using brelse_links_ok [of "bufs s" b] inv b(1)
    by (simp add: bio_inv_def s'_def s1_def links_ok_def)
  moreover have "unique_ok (bufs s')" using inv by (simp add: bio_inv_def unique_ok_def fields)
  moreover have "buf_ok (disksize s') (bufs s' c) \<and> clean_ok (memdisk s') (bufs s' c)" if c: "c < NBUF" for c
  proof -
    have "buf_ok (disksize s) (bufs s c)" "clean_ok (memdisk s) (bufs s c)"
      using inv c by (auto simp: bio_inv_def)
    moreover have "b_sector (bufs s b) = n" using b(2) by (simp add: caches_def)
    ultimately show ?thesis
      using sync holds_dirty [OF inv h] holds_blk [OF inv h]
      by (cases "c = b") (auto simp: buf_ok_def clean_ok_def fields rest)
  qed
  ultimately have "bio_inv s'" using inv by (auto simp: bio_inv_def rest)
  moreover have "bframe s s'" by (simp add: s'_def s1_def bframe_def upd_buf_def)
  moreover have "same_view s s'"
    by (auto simp: same_view_def rest dirtyset_def ca fields intro!: ext blk_same)
  moreover have "busyset s' = busyset s - {n}"
    using b caches_same [OF b(2)] holds_unique [OF inv h] by (auto simp: busyset_def ca fields)
  moreover have "\<forall>c m. holds s c m \<longrightarrow> m \<noteq> n \<longrightarrow> holds s' c m"
    using caches_same [OF b(2)] by (auto simp: holds_def ca fields)
  moreover have "brelse b s = Done () s'"
    using b by (simp add: brelse_def kop_simps s'_def s1_def)
  ultimately show ?thesis by blast
qed

section \<open>Initialisation\<close>

lemma binit_buf_fields [simp]:
  "b_busy (binit_buf b bs j) = b_busy (bs j)" "b_valid (binit_buf b bs j) = b_valid (bs j)"
  "b_dirty (binit_buf b bs j) = b_dirty (bs j)" "b_data (binit_buf b bs j) = b_data (bs j)"
  "b_dev (binit_buf b bs j) = (if j = b then -1 else b_dev (bs j))"
  by (simp_all add: binit_buf_def Let_def)

lemma binit_buf_dll:
  assumes "dll (nexts bs) (prevs bs) NBUF xs" and "b \<noteq> NBUF" and "b \<notin> set xs"
  shows "dll (nexts (binit_buf b bs)) (prevs (binit_buf b bs)) NBUF (b # xs)"
proof -
  have "nexts (binit_buf b bs) = (nexts bs)(b := nexts bs NBUF, NBUF := b)"
    and "prevs (binit_buf b bs) = (prevs bs)(b := NBUF, nexts bs NBUF := b)"
    using assms(2) by (simp_all add: binit_buf_def Let_def flip: nexts_def prevs_def)
  with dll_push [OF assms] show ?thesis by simp
qed

lemma binit_loop:
  assumes "k \<le> NBUF" and "dll (nexts bs) (prevs bs) NBUF []"
  defines "bs' \<equiv> fold binit_buf [0..<k] bs"
  shows "dll (nexts bs') (prevs bs') NBUF (rev [0..<k])"
    and "b_busy (bs' j) = b_busy (bs j)" and "b_valid (bs' j) = b_valid (bs j)"
    and "b_dirty (bs' j) = b_dirty (bs j)" and "b_data (bs' j) = b_data (bs j)"
    and "j < k \<Longrightarrow> b_dev (bs' j) = -1"
  using assms(1) unfolding bs'_def
  by (induction k) (auto simp: assms(2) binit_buf_dll less_Suc_eq)

lemma binit_spec:
  assumes "fresh_cache s"
  shows "\<exists>s'. binit s = Done () s' \<and> bio_inv s' \<and> bframe s s' \<and> blk s' = memdisk s \<and>
    memdisk s' = memdisk s \<and> wtrace s' = wtrace s \<and> dirtyset s' = {} \<and> busyset s' = {}"
proof -
  let ?bs = "set_next NBUF NBUF (set_prev NBUF NBUF (bufs s))"
  define s' where "s' = s\<lparr>bufs := fold binit_buf [0..<NBUF] ?bs\<rparr>"
  have "dll (nexts ?bs) (prevs ?bs) NBUF []" by (rule dll_empty) simp_all
  note loop = binit_loop [OF order_refl this]
  have f: "b_busy (bufs s' b) = b_busy (bufs s b)" "b_valid (bufs s' b) = b_valid (bufs s b)"
    "b_dirty (bufs s' b) = b_dirty (bufs s b)" "b_data (bufs s' b) = b_data (bufs s b)" for b
    using loop(2-5) [of b] by (simp_all add: s'_def)
  have dev: "b < NBUF \<Longrightarrow> b_dev (bufs s' b) \<noteq> ROOTDEV" for b
    using loop(6) [of b] by (simp add: s'_def ROOTDEV_def)
  have md: "memdisk s' = memdisk s" "wtrace s' = wtrace s" by (simp_all add: s'_def)
  have "links_ok (bufs s')"
    unfolding links_ok_def s'_def using loop(1) by (intro exI [of _ "rev [0..<NBUF]"]) auto
  then have "bio_inv s'"
    using assms dev by (auto simp: bio_inv_def unique_ok_def buf_ok_def clean_ok_def fresh_cache_def f md)
  moreover have "blk s' n = memdisk s n" for n
    using blk_uncached [of s' n] dev by (auto simp: caches_def md)
  moreover have "dirtyset s' = {}" "busyset s' = {}"
    using dev by (auto simp: dirtyset_def busyset_def caches_def)
  moreover have "binit s = Done () s'" "bframe s s'" by (simp_all add: binit_def kop_simps s'_def)
  ultimately show ?thesis using md by blast
qed

section \<open>The cache provides the sector contract\<close>

lemma dirtyset_finite: "finite (dirtyset s)" and busyset_finite: "finite (busyset s)"
proof -
  have "dirtyset s \<subseteq> (\<lambda>b. b_sector (bufs s b)) ` {..<NBUF}"
    and "busyset s \<subseteq> (\<lambda>b. b_sector (bufs s b)) ` {..<NBUF}"
    by (auto simp: dirtyset_def busyset_def caches_def)
  then show "finite (dirtyset s)" "finite (busyset s)" by (auto intro: finite_subset)
qed

lemma bio_synced:
  assumes "bio_inv s" and "n \<notin> busyset s"
  shows "n \<in> dirtyset s \<or> blk s n = memdisk s n"
proof (cases "\<exists>b<NBUF. caches s n b \<and> b_valid (bufs s b)")
  case True
  then obtain b where b: "b < NBUF" "caches s n b" "b_valid (bufs s b)" by blast
  then have "blk s n = b_data (bufs s b)" using assms(1) blk_cached by (auto simp: bio_inv_def)
  moreover have "b_dirty (bufs s b) \<Longrightarrow> n \<in> dirtyset s" using b by (auto simp: dirtyset_def)
  moreover have "\<not> b_busy (bufs s b)" using b assms(2) by (auto simp: busyset_def)
  ultimately show ?thesis
    using bio_inv_clean [OF assms(1) b(1,3)] b(2) by (auto simp: caches_def)
next
  case False
  then show ?thesis using blk_uncached [of s n] by blast
qed

interpretation bc: sector_cache "bread ROOTDEV" bwrite brelse set_dirty set_data get_data
  bio_inv bframe disksize blk memdisk wtrace dirtyset busyset holds NBUF
proof (unfold_locales, goal_cases)
  case 1
  show ?case by simp
next
  case (2 s t u)
  then show ?case by (rule bframe_trans)
next
  case (3 s t)
  then show ?case by (simp add: bframe_def)
next
  case (4 s n)
  then show ?case by (rule bio_inv_blk_length)
next
  case (5 s n)
  then show ?case by (rule bio_synced)
next
  case (6 s n)
  then show ?case using bread_spec [of s n] unfolding same_view_def by metis
next
  case (7 s b n)
  then show ?case using holds_blk [of s b n] by (simp add: get_data_def kop_simps)
next
  case (8 s b n f)
  then show ?case using set_data_spec [of s b n f] by blast
next
  case (9 s b n)
  then show ?case by (rule set_dirty_spec)
next
  case (10 s b n)
  then show ?case by (rule bwrite_spec)
next
  case (11 s b n)
  then show ?case using brelse_spec [of s b n] unfolding same_view_def by metis
qed

section \<open>Properties\<close>

lemma bread_no_buffers:
  assumes "bio_inv s" "n \<notin> busyset s" "n \<notin> dirtyset s" "\<forall>b<NBUF. b_busy (bufs s b) \<or> b_dirty (bufs s b)"
  shows "bread ROOTDEV n s = Panic ''bget: no buffers''"
proof -
  have "\<forall>b<NBUF. \<not> caches s n b" using assms(2-4) by (auto simp: busyset_def dirtyset_def)
  with bget_none [of s n] assms(1,4) show ?thesis by (simp add: bread_def kop_simps bio_inv_def)
qed

lemma bread_held:
  assumes "bio_inv s" "b < NBUF" "caches s n b" "b_busy (bufs s b)"
  shows "bread ROOTDEV n s = sleep (ChBuf b) s"
  using bget_hit [of s b n] assms
  by (simp add: bread_def kop_simps bio_inv_def sleep_def split: option.split)

lemma clean_room:
  assumes "b < NBUF" "\<not> b_busy (bufs s b)" "\<not> b_dirty (bufs s b)"
  shows "card (busyset s \<union> dirtyset s) < NBUF"
proof -
  have "busyset s \<union> dirtyset s \<subseteq> (\<lambda>b. b_sector (bufs s b)) ` ({..<NBUF} - {b})"
    using assms(2,3) by (auto simp: busyset_def dirtyset_def caches_def)
  from surj_card_le [OF _ this] show ?thesis using assms(1) by simp
qed

text \<open>
  C3. What \<open>bread\<close> does with any sector of the disk, in any state of the cache: it sleeps on the
  buffer if the sector is held; otherwise it returns a held buffer with the sector's current
  contents (the cached ones if they are dirty), keeping the cache invariant, the contents of
  every sector, the disk and all other held buffers; it panics with "bget: no buffers" only when
  the sector is not held or dirty and every one of the \<open>NBUF\<close> buffers is.
\<close>

theorem bread_every_case:
  assumes "bio_inv s" and "n < disksize s"
  shows "if n \<in> busyset s then \<exists>b<NBUF. caches s n b \<and> bread ROOTDEV n s = sleep (ChBuf b) s
    else if n \<in> dirtyset s \<or> (\<exists>b<NBUF. \<not> b_busy (bufs s b) \<and> \<not> b_dirty (bufs s b)) then
      \<exists>b s'. bread ROOTDEV n s = Done b s' \<and> bio_inv s' \<and> holds s' b n \<and> b_data (bufs s' b) = blk s n \<and>
        same_view s s' \<and> busyset s' = insert n (busyset s) \<and> (\<forall>c m. holds s c m \<longrightarrow> holds s' c m)
    else bread ROOTDEV n s = Panic ''bget: no buffers''"
proof -
  consider b where "n \<in> busyset s" "b < NBUF" "caches s n b" "b_busy (bufs s b)"
    | "n \<notin> busyset s" "n \<in> dirtyset s \<or> (\<exists>b<NBUF. \<not> b_busy (bufs s b) \<and> \<not> b_dirty (bufs s b))"
    | "n \<notin> busyset s" "n \<notin> dirtyset s" "\<forall>b<NBUF. b_busy (bufs s b) \<or> b_dirty (bufs s b)"
    by (auto simp: busyset_def)
  then show ?thesis
  proof cases
    case 1
    then show ?thesis using bread_held [OF assms(1)] by auto
  next
    case 2
    then have "n \<in> dirtyset s \<or> card (busyset s \<union> dirtyset s) < NBUF" using clean_room by blast
    from bread_spec [OF assms 2(1) this] 2 show ?thesis by auto
  next
    case 3
    then show ?thesis using bread_no_buffers [OF assms(1) 3] by auto
  qed
qed

theorem bread_every_case_witness:
  "\<exists>s b s'. binit (static_cache (\<lambda>_. replicate BSIZE 7) 64) = Done () s \<and> bread ROOTDEV 5 s = Done b s' \<and>
     b_data (bufs s' b) = replicate BSIZE 7 \<and> (\<exists>c<NBUF. bread ROOTDEV 5 s' = sleep (ChBuf c) s')"
proof -
  let ?s = "static_cache (\<lambda>_. replicate BSIZE 7) 64"
  have "fresh_cache ?s" by (simp add: fresh_cache_def static_cache_def static_buf_def)
  from binit_spec [OF this] obtain s where s: "binit ?s = Done () s" "bio_inv s" "bframe ?s s"
    "blk s = (\<lambda>_. replicate BSIZE 7)" "dirtyset s = {}" "busyset s = {}"
    by (auto simp: static_cache_def)
  have ds: "disksize s = 64" using s(3) by (simp add: bframe_def static_cache_def)
  have clean: "\<exists>b<NBUF. \<not> b_busy (bufs s b) \<and> \<not> b_dirty (bufs s b)"
    using recyclable [OF s(2)] s(5,6) by (simp add: param_defs)
  from bread_every_case [OF s(2), of 5] ds s(4,6) clean obtain b s' where
    b: "bread ROOTDEV 5 s = Done b s'" "bio_inv s'" "b_data (bufs s' b) = replicate BSIZE 7" "busyset s' = {5}" "holds s' b 5"
    by auto
  have "disksize s' = 64"
    using bread_spec [OF s(2), of 5] b(1) s(5,6) ds by (auto simp: bframe_def param_defs)
  with bread_every_case [OF b(2), of 5] b(4) have "\<exists>c<NBUF. bread ROOTDEV 5 s' = sleep (ChBuf c) s'" by auto
  with s(1) b(1,3) show ?thesis by blast
qed

text \<open>
  C4. The cache recycles the least recently used clean buffer. If the buffers are linked in the
  order \<open>xs\<close>, then \<open>brelse(b)\<close> moves \<open>b\<close> to the front and keeps the order of the others, and \<open>bget\<close> of a
  sector that is not cached takes the last buffer of the list that is neither held nor dirty.
\<close>

theorem cache_is_lru:
  assumes "set xs = {..<NBUF}" and "dll (nexts (bufs s)) (prevs (bufs s)) NBUF xs"
    and "b < NBUF" and "b_busy (bufs s b)" and "\<forall>c<NBUF. \<not> caches s n c"
  shows "(\<exists>s'. brelse b s = Done () s' \<and> dll (nexts (bufs s')) (prevs (bufs s')) NBUF (b # remove1 b xs)) \<and>
    (\<forall>c. find (\<lambda>c. \<not> b_busy (bufs s c) \<and> \<not> b_dirty (bufs s c)) (rev xs) = Some c \<longrightarrow>
      (\<exists>s'. bget ROOTDEV n s = Done c s' \<and> caches s' n c \<and> b_busy (bufs s' c) \<and> \<not> b_valid (bufs s' c)))"
proof -
  obtain ys zs where xs: "xs = ys @ b # zs" using assms(1,3) split_list [of b xs] by auto
  have "distinct xs" using assms(2) by (simp add: dll_def)
  then have rm: "remove1 b xs = ys @ zs" using xs by (simp add: remove1_append)
  from brelse_links_dll [of "bufs s" ys b zs] assms(2) xs
  have "dll (nexts (brelse_links b (bufs s))) (prevs (brelse_links b (bufs s))) NBUF (b # ys @ zs)" by simp
  then have "\<exists>s'. brelse b s = Done () s' \<and> dll (nexts (bufs s')) (prevs (bufs s')) NBUF (b # remove1 b xs)"
    using assms(4) rm by (simp add: brelse_def kop_simps)
  moreover have "\<exists>s'. bget ROOTDEV n s = Done c s' \<and> caches s' n c \<and> b_busy (bufs s' c) \<and> \<not> b_valid (bufs s' c)"
    if c: "find (\<lambda>c. \<not> b_busy (bufs s c) \<and> \<not> b_dirty (bufs s c)) (rev xs) = Some c" for c
  proof -
    note len = links_length [OF assms(1,2)]
    have "find (\<lambda>b. b_dev (bufs s b) = ROOTDEV \<and> b_sector (bufs s b) = n) xs = None"
      using assms(1,5) by (auto simp: find_None_iff caches_def)
    with dll_scan_next [OF assms(2) len, of "\<lambda>b. b_dev (bufs s b) = ROOTDEV \<and> b_sector (bufs s b) = n"]
      dll_scan_prev [OF assms(2) len, of "\<lambda>c. \<not> b_busy (bufs s c) \<and> \<not> b_dirty (bufs s c)"] c
    show ?thesis
      by (simp add: bget_def Let_def nexts_def [abs_def] prevs_def [abs_def] caches_def)
  qed
  ultimately show ?thesis by blast
qed

theorem cache_is_lru_witness:
  "\<exists>s b s' s''. binit (static_cache (\<lambda>_. replicate BSIZE 7) 64) = Done () s \<and> bread ROOTDEV 5 s = Done b s' \<and>
     brelse b s' = Done () s'' \<and> b_next (bufs s'' NBUF) = b"
proof -
  let ?s = "static_cache (\<lambda>_. replicate BSIZE 7) 64"
  have "fresh_cache ?s" by (simp add: fresh_cache_def static_cache_def static_buf_def)
  from binit_spec [OF this] obtain s where s: "binit ?s = Done () s" "bio_inv s" "bframe ?s s"
    "dirtyset s = {}" "busyset s = {}"
    by (auto simp: static_cache_def)
  have ds: "disksize s = 64" using s(3) by (simp add: bframe_def static_cache_def)
  from bread_spec [OF s(2), of 5] ds s(4,5) obtain b s' where
    b: "bread ROOTDEV 5 s = Done b s'" "bio_inv s'" "holds s' b 5" "busyset s' = {5}" "same_view s s'"
    by (auto simp: param_defs)
  obtain xs where xs: "set xs = {..<NBUF}" "dll (nexts (bufs s')) (prevs (bufs s')) NBUF xs"
    using b(2) by (auto simp: bio_inv_def links_ok_def)
  have hb: "b < NBUF" "b_busy (bufs s' b)" using b(3) by (auto simp: holds_def)
  have "\<exists>n. \<forall>c<NBUF. \<not> caches s' n c"
  proof (rule ccontr)
    assume "\<nexists>n. \<forall>c<NBUF. \<not> caches s' n c"
    then have "\<exists>c<NBUF. b_sector (bufs s' c) = n" for n by (auto simp: caches_def)
    then have "UNIV \<subseteq> (\<lambda>c. b_sector (bufs s' c)) ` {..<NBUF}" by (metis (no_types, lifting) imageI lessThan_iff subsetI)
    from surj_card_le [OF _ this] show False by (simp add: card_word param_defs)
  qed
  then obtain n where "\<forall>c<NBUF. \<not> caches s' n c" by blast
  from cache_is_lru [OF xs hb this] obtain s'' where
    "brelse b s' = Done () s''" "dll (nexts (bufs s'')) (prevs (bufs s'')) NBUF (b # remove1 b xs)" by blast
  moreover from dll_neighbours [of "nexts (bufs s'')"] this(2) have "b_next (bufs s'' NBUF) = b"
    by (simp add: dll_def nexts_def)
  ultimately show ?thesis using s(1) b(1) by blast
qed

end
