(* ===== verification/Fslog.thy ===== *)
theory Fslog
  imports Bio
begin

text \<open>
  The write-ahead log (log.c) and the superblock reader it uses (\<open>readsb\<close> of fs.c). The model
  has every function of log.c, over the buffer cache of the previous theory; \<open>log.lock\<close> makes
  each of \<open>begin_op\<close> and \<open>end_op\<close> (up to its call of \<open>commit\<close>) one atomic step.

  The in-memory header \<open>log.lh\<close> is \<open>lh_n\<close> and the array \<open>lh_sector\<close>; an access beyond its
  \<open>LOGSIZE\<close> entries is a \<open>Fault\<close>. On disk the header is the integer \<open>n\<close> at offset 0 and the
  sector numbers at offset 4, as the C structure lies in the block.
\<close>

section \<open>Data\<close>

record superblock =
  sb_size :: uint
  sb_nblocks :: uint
  sb_ninodes :: uint
  sb_nlog :: uint

record lstate = bstate +
  log_start :: uint
  log_size :: int
  log_outstanding :: int
  log_committing :: bool
  log_dev :: uint
  lh_n :: int
  lh_sector :: "uint list"

section \<open>Operations\<close>

definition decode_sb :: "uchar list \<Rightarrow> superblock" where
  "decode_sb x = \<lparr>sb_size = get32 0 x, sb_nblocks = get32 4 x, sb_ninodes = get32 8 x,
     sb_nlog = get32 12 x\<rparr>"

definition readsb :: "uint \<Rightarrow> ('z bstate_scheme, superblock) kop" where
  "readsb dev =
     kbind (bread dev 1) (\<lambda>bp.
     kbind (get_data bp) (\<lambda>x.
     kseq (brelse bp)
     (kret (decode_sb x))))"

text \<open>One iteration of \<open>install_trans\<close>, and the loop.\<close>

definition install_one :: "nat \<Rightarrow> ('z lstate_scheme, unit) kop" where
  "install_one tail s =
     (if tail < LOGSIZE then
        kbind (bread (log_dev s) (log_start s + of_nat tail + 1)) (\<lambda>lbuf.
        kbind (bread (log_dev s) (lh_sector s ! tail)) (\<lambda>dbuf.
        kbind (get_data lbuf) (\<lambda>x.
        kseq (set_data dbuf (blit 0 x))
        (kseq (bwrite dbuf)
        (kseq (brelse lbuf)
        (brelse dbuf)))))) s
      else Fault)"

definition install_trans :: "('z lstate_scheme, unit) kop" where
  "install_trans = kbind (kget lh_n) (\<lambda>n. kfor install_one [0..<nat n])"

definition read_head_one :: "uchar list \<Rightarrow> nat \<Rightarrow> ('z lstate_scheme, unit) kop" where
  "read_head_one x i =
     (if i < LOGSIZE then kmodify (\<lambda>s. s\<lparr>lh_sector := (lh_sector s)[i := get32 (4 + 4 * i) x]\<rparr>)
      else kfault)"

definition read_head :: "('z lstate_scheme, unit) kop" where
  "read_head s =
     (kbind (bread (log_dev s) (log_start s)) (\<lambda>b.
      kbind (get_data b) (\<lambda>x.
      kseq (kmodify (\<lambda>s. s\<lparr>lh_n := sint (get32 0 x)\<rparr>))
      (kseq (kfor (read_head_one x) [0..<nat (sint (get32 0 x))])
      (brelse b))))) s"

text \<open>The assignments of \<open>write_head\<close> to the block: \<open>n\<close>, then the sector numbers.\<close>

definition head_bytes :: "int \<Rightarrow> uint list \<Rightarrow> uchar list \<Rightarrow> uchar list" where
  "head_bytes n secs x =
     fold (\<lambda>i x. put32 (4 + 4 * i) (secs ! i) x) [0..<nat n] (put32 0 (word_of_int n) x)"

definition write_head :: "('z lstate_scheme, unit) kop" where
  "write_head s =
     (if lh_n s \<le> int LOGSIZE then
        kbind (bread (log_dev s) (log_start s)) (\<lambda>b.
        kseq (set_data b (head_bytes (lh_n s) (lh_sector s)))
        (kseq (bwrite b)
        (brelse b))) s
      else Fault)"

definition recover_from_log :: "('z lstate_scheme, unit) kop" where
  "recover_from_log =
     kseq read_head
     (kseq install_trans
     (kseq (kmodify (\<lambda>s. s\<lparr>lh_n := 0\<rparr>))
     write_head))"

definition initlog :: "('z lstate_scheme, unit) kop" where
  "initlog =
     (if 4 + 4 * LOGSIZE \<ge> BSIZE then kpanic ''initlog: too big logheader''
      else kbind (readsb ROOTDEV) (\<lambda>sb.
        kseq (kmodify (\<lambda>s. s\<lparr>log_start := sb_size sb - sb_nlog sb,
          log_size := sint (sb_nlog sb), log_dev := ROOTDEV\<rparr>))
        recover_from_log))"

text \<open>
  \<open>begin_op\<close>: the loop tests the log again each time the process is woken, so one run of the
  body is one attempt: it sleeps, or it admits the operation.
\<close>

definition begin_op :: "('z lstate_scheme, unit) kop" where
  "begin_op s =
     (if log_committing s then sleep ChLog s
      else if lh_n s + (log_outstanding s + 1) * int MAXOPBLOCKS > int LOGSIZE then sleep ChLog s
      else Done () (s\<lparr>log_outstanding := log_outstanding s + 1\<rparr>))"

definition write_log_one :: "nat \<Rightarrow> ('z lstate_scheme, unit) kop" where
  "write_log_one tail s =
     (if tail < LOGSIZE then
        kbind (bread (log_dev s) (log_start s + of_nat tail + 1)) (\<lambda>to.
        kbind (bread (log_dev s) (lh_sector s ! tail)) (\<lambda>from.
        kbind (get_data from) (\<lambda>x.
        kseq (set_data to (blit 0 x))
        (kseq (bwrite to)
        (kseq (brelse from)
        (brelse to)))))) s
      else Fault)"

definition write_log :: "('z lstate_scheme, unit) kop" where
  "write_log = kbind (kget lh_n) (\<lambda>n. kfor write_log_one [0..<nat n])"

definition commit :: "('z lstate_scheme, unit) kop" where
  "commit s =
     (if lh_n s > 0 then
        kseq write_log
        (kseq write_head
        (kseq install_trans
        (kseq (kmodify (\<lambda>s. s\<lparr>lh_n := 0\<rparr>))
        write_head))) s
      else Done () s)"

definition end_op :: "('z lstate_scheme, unit) kop" where
  "end_op s =
     (let s = s\<lparr>log_outstanding := log_outstanding s - 1\<rparr> in
      if log_committing s then Panic ''log.committing''
      else if log_outstanding s = 0 then
        kseq (kmodify (\<lambda>s. s\<lparr>log_committing := True\<rparr>))
        (kseq commit
        (kseq (kmodify (\<lambda>s. s\<lparr>log_committing := False\<rparr>))
        (wakeup ChLog))) s
      else wakeup ChLog s)"

text \<open>\<open>log_write(b)\<close>: absorb a sector already in the log, else append it; pin the buffer.\<close>

definition log_index :: "'z lstate_scheme \<Rightarrow> uint \<Rightarrow> nat" where
  "log_index s n = (case first_slot (nat (lh_n s)) (\<lambda>i. lh_sector s ! i = n) of
       Some i \<Rightarrow> i | None \<Rightarrow> nat (lh_n s))"

definition log_write :: "nat \<Rightarrow> ('z lstate_scheme, unit) kop" where
  "log_write b s =
     (if lh_n s \<ge> int LOGSIZE \<or> lh_n s \<ge> log_size s - 1 then Panic ''too big a transaction''
      else if log_outstanding s < 1 then Panic ''log_write outside of trans''
      else let i = log_index s (b_sector (bufs s b)) in
        if i \<ge> LOGSIZE then Fault
        else kseq (kmodify (\<lambda>s. s\<lparr>lh_sector := (lh_sector s)[i := b_sector (bufs s b)],
          lh_n := (if int i = lh_n s then lh_n s + 1 else lh_n s)\<rparr>))
        (set_dirty b) s)"

text \<open>The typical use of the log: read a block, change it, hand it to the log, release it.\<close>

definition tx_update :: "uint \<Rightarrow> (uchar list \<Rightarrow> uchar list) \<Rightarrow> ('z lstate_scheme, unit) kop" where
  "tx_update n f =
     kbind (bread ROOTDEV n) (\<lambda>bp.
     kseq (set_data bp f)
     (kseq (log_write bp)
     (brelse bp)))"

definition transaction :: "(uint \<times> (uchar list \<Rightarrow> uchar list)) list \<Rightarrow> ('z lstate_scheme, unit) kop" where
  "transaction us = kseq begin_op (kseq (kfor (\<lambda>(n, f). tx_update n f) us) end_op)"

section \<open>Invariant and specification\<close>

definition in_log :: "'z lstate_scheme \<Rightarrow> uint \<Rightarrow> bool" where
  "in_log s n \<longleftrightarrow> log_start s \<le> n \<and> uint n < uint (log_start s) + log_size s"

definition logged :: "'z lstate_scheme \<Rightarrow> uint list" where
  "logged s = take (nat (lh_n s)) (lh_sector s)"

definition log_geom :: "'z lstate_scheme \<Rightarrow> bool" where
  "log_geom s \<longleftrightarrow> log_dev s = ROOTDEV \<and> 0 < log_size s \<and> log_size s \<le> int LOGSIZE \<and>
     uint (log_start s) + log_size s \<le> uint (disksize s) \<and> length (lh_sector s) = LOGSIZE"

definition log_inv :: "'z lstate_scheme \<Rightarrow> bool" where
  "log_inv s \<longleftrightarrow> bio_inv s \<and> log_geom s \<and> 0 \<le> lh_n s \<and> lh_n s < log_size s \<and>
     distinct (logged s) \<and> set (logged s) = dirtyset s \<and>
     (\<forall>n \<in> set (logged s). n < disksize s \<and> \<not> in_log s n) \<and>
     get32 0 (memdisk s (log_start s)) = 0"

text \<open>The sector writes of \<open>commit\<close>, in order: the log blocks, the header, the home locations, the
  empty header.\<close>

definition log_writes :: "'z lstate_scheme \<Rightarrow> (uint \<times> uchar list) list" where
  "log_writes s = map (\<lambda>i. (log_start s + of_nat i + 1, blk s (lh_sector s ! i))) [0..<nat (lh_n s)]"

definition install_writes :: "'z lstate_scheme \<Rightarrow> (uint \<times> uchar list) list" where
  "install_writes s = map (\<lambda>i. (lh_sector s ! i, blk s (log_start s + of_nat i + 1))) [0..<nat (lh_n s)]"

definition head_block :: "'z lstate_scheme \<Rightarrow> uchar list" where
  "head_block s = head_bytes (lh_n s) (lh_sector s) (blk s (log_start s))"

definition commit_writes :: "'z lstate_scheme \<Rightarrow> (uint \<times> uchar list) list" where
  "commit_writes s = log_writes s @ (log_start s, head_block s) #
     map (\<lambda>n. (n, blk s n)) (logged s) @ [(log_start s, head_bytes 0 (lh_sector s) (head_block s))]"

text \<open>The sector numbers of an on-disk header, and the writes that recovery does.\<close>

definition head_sectors :: "uchar list \<Rightarrow> uint list" where
  "head_sectors x = map (\<lambda>i. get32 (4 + 4 * i) x) [0..<nat (sint (get32 0 x))]"

definition recovery_writes :: "uint \<Rightarrow> (uint \<Rightarrow> uchar list) \<Rightarrow> (uint \<times> uchar list) list" where
  "recovery_writes start d =
     map (\<lambda>i. (head_sectors (d start) ! i, d (start + of_nat i + 1))) [0..<length (head_sectors (d start))] @
     [(start, head_bytes 0 [] (d start))]"

text \<open>A disk whose superblock describes the log area, and a header that recovery can follow.\<close>

definition sb_start :: "(uint \<Rightarrow> uchar list) \<Rightarrow> uint" where
  "sb_start d = sb_size (decode_sb (d 1)) - sb_nlog (decode_sb (d 1))"

definition sb_logsize :: "(uint \<Rightarrow> uchar list) \<Rightarrow> int" where
  "sb_logsize d = sint (sb_nlog (decode_sb (d 1)))"

definition sb_ok :: "(uint \<Rightarrow> uchar list) \<Rightarrow> uint \<Rightarrow> bool" where
  "sb_ok d nsect \<longleftrightarrow> 0 < sb_logsize d \<and> sb_logsize d \<le> int LOGSIZE \<and> 1 < sb_start d \<and>
     uint (sb_start d) + sb_logsize d \<le> uint nsect"

definition head_ok :: "(uint \<Rightarrow> uchar list) \<Rightarrow> uint \<Rightarrow> bool" where
  "head_ok d nsect \<longleftrightarrow> sint (get32 0 (d (sb_start d))) < sb_logsize d \<and>
     (\<forall>n \<in> set (head_sectors (d (sb_start d))). n < nsect \<and>
        \<not> (sb_start d \<le> n \<and> uint n < uint (sb_start d) + sb_logsize d))"

definition log_of_sb :: "'z lstate_scheme \<Rightarrow> bool" where
  "log_of_sb s \<longleftrightarrow> sb_ok (memdisk s) (disksize s) \<and> log_start s = sb_start (memdisk s) \<and>
     log_size s = sb_logsize (memdisk s) \<and> 1 \<notin> set (logged s)"

text \<open>The sector writes of an \<open>end_op\<close> that commits.\<close>

definition op_writes :: "'z lstate_scheme \<Rightarrow> (uint \<times> uchar list) list" where
  "op_writes s = (if 0 < lh_n s then commit_writes s else [])"

text \<open>What the log operations leave alone: all but what the cache changes and the header.\<close>

definition lframe :: "'z lstate_scheme \<Rightarrow> 'z lstate_scheme \<Rightarrow> bool" where
  "lframe s s' \<longleftrightarrow> bframe (s\<lparr>lh_sector := lh_sector s', lh_n := lh_n s'\<rparr>) s'"

definition upd_ok :: "'z lstate_scheme \<Rightarrow> uint \<times> (uchar list \<Rightarrow> uchar list) \<Rightarrow> bool" where
  "upd_ok s u \<longleftrightarrow> fst u < disksize s \<and> \<not> in_log s (fst u) \<and>
     (\<forall>x. length x = BSIZE \<longrightarrow> length (snd u x) = BSIZE)"

definition tx_effect :: "(uint \<times> (uchar list \<Rightarrow> uchar list)) list \<Rightarrow> (uint \<Rightarrow> uchar list) \<Rightarrow> uint \<Rightarrow> uchar list" where
  "tx_effect us d = fold (\<lambda>(n, f) d. d(n := f (d n))) us d"

text \<open>
  A concrete machine: the kernel as the loader leaves it, with a disk of 64 sectors whose
  superblock gives the last 30 to the log.
\<close>

definition demo_disk :: "uint \<Rightarrow> uchar list" where
  "demo_disk n = (if n = 1 then put32 0 64 (put32 12 30 (replicate BSIZE 0)) else replicate BSIZE 0)"

definition demo_committed :: "uint \<Rightarrow> uchar list" where
  "demo_committed = demo_disk(34 := head_bytes 1 [3] (replicate BSIZE 0), 35 := replicate BSIZE 7)"

definition loaded :: "(uint \<Rightarrow> uchar list) \<Rightarrow> uint \<Rightarrow> lstate" where
  "loaded d nsect = \<lparr>mem = (\<lambda>_. 0), freelist = 0, use_lock = False, kend = KERNLINK, kdata = KERNLINK, kpgdir = 0, cr3 = 0,
     ptable = (\<lambda>_. zero_proc), curproc = None, initproc = None, nextpid = 1,
     memdisk = d, disksize = nsect, wtrace = [],
     bufs = (\<lambda>_. static_buf),
     log_start = 0, log_size = 0, log_outstanding = 0, log_committing = False, log_dev = 0,
     lh_n = 0, lh_sector = replicate LOGSIZE 0\<rparr>"

section \<open>Helper lemmas\<close>

lemma bframe_log:
  assumes "bframe s s'"
  shows "log_start s' = log_start s" "log_size s' = log_size s" "log_outstanding s' = log_outstanding s"
    "log_committing s' = log_committing s" "log_dev s' = log_dev s" "lh_n s' = lh_n s"
    "lh_sector s' = lh_sector s" "disksize s' = disksize s" "lstate.more s' = lstate.more s"
  using assms by (cases s; cases s'; simp add: bframe_def)+

lemma lstate_upd_bio [simp]:
  "bio_inv (s\<lparr>lh_n := n\<rparr>) = bio_inv s" "bio_inv (s\<lparr>lh_sector := l\<rparr>) = bio_inv s"
  "blk (s\<lparr>lh_n := n\<rparr>) = blk s" "blk (s\<lparr>lh_sector := l\<rparr>) = blk s"
  "dirtyset (s\<lparr>lh_n := n\<rparr>) = dirtyset s" "dirtyset (s\<lparr>lh_sector := l\<rparr>) = dirtyset s"
  "busyset (s\<lparr>lh_n := n\<rparr>) = busyset s" "busyset (s\<lparr>lh_sector := l\<rparr>) = busyset s"
  "holds (s\<lparr>lh_n := n\<rparr>) = holds s" "holds (s\<lparr>lh_sector := l\<rparr>) = holds s"
  by (simp_all add: bio_inv_def blk_def dirtyset_def busyset_def holds_def caches_def fun_eq_iff cong: option.case_cong)

lemma lstate_geom_bio [simp]:
  fixes s :: "'z lstate_scheme"
  defines "t \<equiv> \<lambda>a b c. s\<lparr>log_start := a, log_size := b, log_dev := c\<rparr>"
  shows "bio_inv (t a b c) = bio_inv s" "blk (t a b c) = blk s" "dirtyset (t a b c) = dirtyset s"
    "busyset (t a b c) = busyset s" "holds (t a b c) = holds s"
  by (simp_all add: t_def bio_inv_def blk_def dirtyset_def busyset_def holds_def caches_def fun_eq_iff cong: option.case_cong)

lemma lstate_upd_op [simp]:
  "bio_inv (s\<lparr>log_outstanding := k\<rparr>) = bio_inv s" "bio_inv (s\<lparr>log_committing := c\<rparr>) = bio_inv s"
  "blk (s\<lparr>log_outstanding := k\<rparr>) = blk s" "blk (s\<lparr>log_committing := c\<rparr>) = blk s"
  "dirtyset (s\<lparr>log_outstanding := k\<rparr>) = dirtyset s" "dirtyset (s\<lparr>log_committing := c\<rparr>) = dirtyset s"
  "busyset (s\<lparr>log_outstanding := k\<rparr>) = busyset s" "busyset (s\<lparr>log_committing := c\<rparr>) = busyset s"
  "holds (s\<lparr>log_outstanding := k\<rparr>) = holds s" "holds (s\<lparr>log_committing := c\<rparr>) = holds s"
  by (simp_all add: bio_inv_def blk_def dirtyset_def busyset_def holds_def caches_def fun_eq_iff cong: option.case_cong)

text \<open>The header block.\<close>

lemma fold_put32:
  fixes secs :: "uint list"
  assumes "length x = BSIZE" "k \<le> LOGSIZE"
  defines "y \<equiv> fold (\<lambda>i x. put32 (4 + 4 * i) (secs ! i) x) [0..<k] x"
  shows "length y = BSIZE \<and> get32 0 y = get32 0 x \<and> (\<forall>i<k. get32 (4 + 4 * i) y = secs ! i)"
  using assms(2) unfolding y_def
proof (induction k)
  case 0
  then show ?case using assms(1) by simp
next
  case (Suc k)
  let ?y = "fold (\<lambda>i x. put32 (4 + 4 * i) (secs ! i) x) [0..<k] x"
  have IH: "length ?y = BSIZE" "get32 0 ?y = get32 0 x" "\<And>i. i < k \<Longrightarrow> get32 (4 + 4 * i) ?y = secs ! i"
    using Suc by simp_all
  have "4 + 4 * k + 4 \<le> BSIZE" using Suc.prems by (simp add: param_defs)
  with IH show ?case by (auto simp: byte_simps less_Suc_eq)
qed

lemma head_bytes:
  assumes "length x = BSIZE" "n \<le> int LOGSIZE"
  shows "length (head_bytes n secs x) = BSIZE" "get32 0 (head_bytes n secs x) = word_of_int n"
    "i < nat n \<Longrightarrow> get32 (4 + 4 * i) (head_bytes n secs x) = secs ! i"
proof -
  have "length (put32 0 (word_of_int n) x) = BSIZE" "get32 0 (put32 0 (word_of_int n) x) = word_of_int n"
    using assms(1) by (simp_all add: byte_simps BSIZE_def)
  with fold_put32 [of "put32 0 (word_of_int n) x" "nat n" secs] assms(2)
  show "length (head_bytes n secs x) = BSIZE" "get32 0 (head_bytes n secs x) = word_of_int n"
    "i < nat n \<Longrightarrow> get32 (4 + 4 * i) (head_bytes n secs x) = secs ! i"
    by (simp_all add: head_bytes_def)
qed

text \<open>The sectors of the log area.\<close>

lemma log_sector:
  assumes "log_geom s" "int i < log_size s"
  shows "uint (log_start s + of_nat i) = uint (log_start s) + int i"
    "log_start s + of_nat i < disksize s" "in_log s (log_start s + of_nat i)"
proof -
  have b: "uint (log_start s) + int i < uint (disksize s)" using assms by (simp add: log_geom_def)
  then have lt: "uint (log_start s) + int i < 2 ^ 32" using uint_bounded [of "disksize s"] by simp
  then show u: "uint (log_start s + of_nat i) = uint (log_start s) + int i"
    by (rule uint_add_of_nat)
  show "log_start s + of_nat i < disksize s" using b u by (simp add: word_less_def)
  show "in_log s (log_start s + of_nat i)" using u assms(2) by (simp add: in_log_def word_le_def)
qed

section \<open>The loops of commit and recovery\<close>

lemma log_geom_frame: "bframe s s' \<Longrightarrow> log_geom s' = log_geom s"
  by (simp add: log_geom_def bframe_log)

lemma in_log_frame: "bframe s s' \<Longrightarrow> in_log s' n = in_log s n"
  by (simp add: in_log_def bframe_log)

lemma replay_map_upto:
  "replay d (map (\<lambda>i. (f i, g i)) [0..<Suc i]) = (replay d (map (\<lambda>i. (f i, g i)) [0..<i]))(f i := g i)"
  by simp

lemma replay_map_other:
  "(\<And>j. j < i \<Longrightarrow> f j \<noteq> n) \<Longrightarrow> replay d (map (\<lambda>i. (f i, g i)) [0..<i]) n = d n"
  by (rule replay_other) force

lemma log_sector_Suc:
  assumes "log_geom s" "int i + 1 < log_size s"
  shows "log_start s + of_nat i + 1 < disksize s" "in_log s (log_start s + of_nat i + 1)"
    "log_start s + of_nat i + 1 \<noteq> log_start s"
proof -
  have eq: "log_start s + of_nat i + 1 = log_start s + of_nat (Suc i)" by simp
  show "log_start s + of_nat i + 1 < disksize s" "in_log s (log_start s + of_nat i + 1)"
    unfolding eq using log_sector [of s "Suc i"] assms by simp_all
  show "log_start s + of_nat i + 1 \<noteq> log_start s"
    unfolding eq using log_sector(1) [of s "Suc i"] assms by (metis add_cancel_right_right nat.distinct(1) of_nat_eq_0_iff of_nat_Suc add.commute)
qed

text \<open>\<open>write_log\<close> copies every logged sector to its log block.\<close>

lemma write_log_spec:
  assumes "bio_inv s" "log_geom s" "busyset s = {}" "lh_n s < log_size s" "lh_n s \<le> int LOGSIZE"
    and dirty: "set (logged s) = dirtyset s" "card (dirtyset s) < NBUF"
    and home: "\<And>n. n \<in> set (logged s) \<Longrightarrow> n < disksize s \<and> \<not> in_log s n"
  shows "\<exists>s'. write_log s = Done () s' \<and> bio_inv s' \<and> bframe s s' \<and> busyset s' = {} \<and>
    dirtyset s' = dirtyset s \<and> blk s' = replay (blk s) (log_writes s) \<and>
    memdisk s' = replay (memdisk s) (log_writes s) \<and> wtrace s' = wtrace s @ log_writes s"
proof -
  let ?ws = "\<lambda>i. map (\<lambda>i. (log_start s + of_nat i + 1, blk s (lh_sector s ! i))) [0..<i]"
  let ?P = "\<lambda>i s'. bio_inv s' \<and> bframe s s' \<and> busyset s' = {} \<and> dirtyset s' = dirtyset s \<and>
    blk s' = replay (blk s) (?ws i) \<and> memdisk s' = replay (memdisk s) (?ws i) \<and> wtrace s' = wtrace s @ ?ws i"
  have "\<exists>s'. kfor write_log_one [0..<nat (lh_n s)] s = Done () s' \<and> ?P (nat (lh_n s)) s'"
  proof (rule kfor_upt_rule)
    show "?P 0 s" using assms by simp
  next
    fix i s'
    assume i: "0 \<le> i" "i < nat (lh_n s)" and P: "?P i s'"
    note fr = bframe_log [of s s']
    let ?src = "lh_sector s ! i" and ?dst = "log_start s + of_nat i + 1"
    have iL: "i < LOGSIZE" using i(2) assms(5) by linarith
    have mem: "?src \<in> set (logged s)"
      using i(2) assms(2,5) by (auto simp: logged_def log_geom_def in_set_conv_nth)
    have dst: "?dst < disksize s" "in_log s ?dst"
      using log_sector_Suc [OF assms(2), of i] i(2) assms(4) by auto
    have nd: "?dst \<notin> dirtyset s" using dst home dirty(1) by metis
    have src: "blk s' ?src = blk s ?src"
    proof -
      have "log_start s + of_nat j + 1 \<noteq> ?src" if "j < i" for j
        using that i(2) assms(4) log_sector_Suc(2) [OF assms(2), of j] home [OF mem] by force
      then show ?thesis using P by (auto intro!: replay_map_other)
    qed
    have "\<exists>s2. kbind (bread ROOTDEV ?dst) (\<lambda>bd. kbind (bread ROOTDEV ?src) (\<lambda>bs. kbind (get_data bs) (\<lambda>x.
        kseq (set_data bd (blit 0 x)) (kseq (bwrite bd) (kseq (brelse bs) (brelse bd)))))) s' = Done () s2 \<and>
      bio_inv s2 \<and> bframe s' s2 \<and> blk s2 = (blk s')(?dst := blk s' ?src) \<and>
      memdisk s2 = (memdisk s')(?dst := blk s' ?src) \<and> wtrace s2 = wtrace s' @ [(?dst, blk s' ?src)] \<and>
      dirtyset s2 = dirtyset s' - {?dst} \<and> busyset s2 = {}"
      using P dst home [OF mem] mem dirty fr(8)
      by (intro bc.copy_dst_first) (auto simp: dirtyset_finite)
    then show "\<exists>s2. write_log_one i s' = Done () s2 \<and> ?P (Suc i) s2"
      using P fr src iL nd assms(2) bframe_trans [of s s']
      by (auto simp: write_log_one_def log_geom_def)
  qed simp
  then show ?thesis by (simp add: write_log_def log_writes_def kop_simps)
qed

text \<open>\<open>install_trans\<close> copies every log block to its home location.\<close>

lemma install_trans_spec:
  assumes "bio_inv s" "log_geom s" "busyset s = {}" "lh_n s < log_size s" "lh_n s \<le> int LOGSIZE"
    and dirty: "dirtyset s = {} \<or> distinct (logged s) \<and> set (logged s) = dirtyset s \<and> card (dirtyset s) < NBUF"
    and home: "\<And>n. n \<in> set (logged s) \<Longrightarrow> n < disksize s \<and> \<not> in_log s n"
  shows "\<exists>s'. install_trans s = Done () s' \<and> bio_inv s' \<and> bframe s s' \<and> busyset s' = {} \<and>
    dirtyset s' = {} \<and> blk s' = replay (blk s) (install_writes s) \<and>
    memdisk s' = replay (memdisk s) (install_writes s) \<and> wtrace s' = wtrace s @ install_writes s"
proof -
  let ?ws = "\<lambda>i. map (\<lambda>i. (lh_sector s ! i, blk s (log_start s + of_nat i + 1))) [0..<i]"
  let ?P = "\<lambda>i s'. bio_inv s' \<and> bframe s s' \<and> busyset s' = {} \<and> dirtyset s' = dirtyset s - set (take i (logged s)) \<and>
    blk s' = replay (blk s) (?ws i) \<and> memdisk s' = replay (memdisk s) (?ws i) \<and> wtrace s' = wtrace s @ ?ws i"
  have len: "length (logged s) = nat (lh_n s)" using assms(2,5) by (simp add: logged_def log_geom_def)
  have "\<exists>s'. kfor install_one [0..<nat (lh_n s)] s = Done () s' \<and> ?P (nat (lh_n s)) s'"
  proof (rule kfor_upt_rule)
    show "?P 0 s" using assms by simp
  next
    fix i s'
    assume i: "0 \<le> i" "i < nat (lh_n s)" and P: "?P i s'"
    note fr = bframe_log [of s s']
    let ?dst = "lh_sector s ! i" and ?src = "log_start s + of_nat i + 1"
    have iL: "i < LOGSIZE" using i(2) assms(5) by linarith
    have lg: "logged s ! i = ?dst" using i(2) by (simp add: logged_def)
    have mem: "?dst \<in> set (logged s)" using lg i(2) len by (metis nth_mem)
    have src: "?src < disksize s" "in_log s ?src"
      using log_sector_Suc [OF assms(2), of i] i(2) assms(4) by auto
    have sb: "blk s' ?src = blk s ?src"
    proof -
      have "lh_sector s ! j \<noteq> ?src" if "j < i" for j
      proof -
        have "lh_sector s ! j = logged s ! j" using that i(2) by (simp add: logged_def)
        then have "lh_sector s ! j \<in> set (logged s)" using that i(2) len by simp
        with home src(2) show ?thesis by metis
      qed
      then show ?thesis using P by (auto intro!: replay_map_other)
    qed
    have cap: "?dst \<in> dirtyset s' \<or> card (insert ?src (dirtyset s')) < NBUF" "card (dirtyset s') < NBUF"
    proof -
      from dirty have "dirtyset s' = {} \<or> ?dst \<in> dirtyset s' \<and> card (dirtyset s') < NBUF"
      proof
        assume d: "distinct (logged s) \<and> set (logged s) = dirtyset s \<and> card (dirtyset s) < NBUF"
        then have "?dst \<notin> set (take i (logged s))"
          unfolding lg [symmetric] using i(2) len by (auto simp: in_set_conv_nth nth_eq_iff_index_eq)
        moreover have "card (dirtyset s') \<le> card (dirtyset s)"
          using P by (auto intro: card_mono dirtyset_finite)
        ultimately show ?thesis using d mem P by auto
      qed (use P in simp)
      then show "?dst \<in> dirtyset s' \<or> card (insert ?src (dirtyset s')) < NBUF" "card (dirtyset s') < NBUF"
        by (auto simp: param_defs)
    qed
    have "\<exists>s2. kbind (bread ROOTDEV ?src) (\<lambda>bs. kbind (bread ROOTDEV ?dst) (\<lambda>bd. kbind (get_data bs) (\<lambda>x.
        kseq (set_data bd (blit 0 x)) (kseq (bwrite bd) (kseq (brelse bs) (brelse bd)))))) s' = Done () s2 \<and>
      bio_inv s2 \<and> bframe s' s2 \<and> blk s2 = (blk s')(?dst := blk s' ?src) \<and>
      memdisk s2 = (memdisk s')(?dst := blk s' ?src) \<and> wtrace s2 = wtrace s' @ [(?dst, blk s' ?src)] \<and>
      dirtyset s2 = dirtyset s' - {?dst} \<and> busyset s2 = {}"
      using P src home [OF mem] cap fr(8)
      by (intro bc.copy_src_first) (auto simp: dirtyset_finite)
    moreover have "dirtyset s - set (take i (logged s)) - {?dst} = dirtyset s - set (take (Suc i) (logged s))"
      using i(2) len lg by (auto simp: take_Suc_conv_app_nth)
    ultimately show "\<exists>s2. install_one i s' = Done () s2 \<and> ?P (Suc i) s2"
      using P fr sb iL assms(2) bframe_trans [of s s']
      by (auto simp: install_one_def log_geom_def)
  qed simp
  moreover have "dirtyset s - set (take (nat (lh_n s)) (logged s)) = {}" using dirty len by auto
  ultimately show ?thesis by (auto simp: install_trans_def install_writes_def kop_simps)
qed

section \<open>Headers, commit and recovery\<close>

lemma log_start_disk: "log_geom s \<Longrightarrow> log_start s < disksize s \<and> in_log s (log_start s)"
  using log_sector [of s 0] by (simp add: log_geom_def)

lemma write_head_spec:
  assumes "bio_inv s" "log_geom s" "busyset s = {}" "card (dirtyset s) < NBUF" "lh_n s \<le> int LOGSIZE"
    and "log_start s \<notin> dirtyset s"
  shows "\<exists>s'. write_head s = Done () s' \<and> bio_inv s' \<and> bframe s s' \<and> busyset s' = {} \<and>
    dirtyset s' = dirtyset s \<and> blk s' = (blk s)(log_start s := head_block s) \<and>
    memdisk s' = (memdisk s)(log_start s := head_block s) \<and>
    wtrace s' = wtrace s @ [(log_start s, head_block s)]"
proof -
  have "length (head_bytes (lh_n s) (lh_sector s) (blk s (log_start s))) = BSIZE"
    using head_bytes(1) bio_inv_blk_length assms(1,5) by blast
  then have "\<exists>s'. kbind (bread ROOTDEV (log_start s)) (\<lambda>b. kseq (set_data b (head_bytes (lh_n s) (lh_sector s)))
      (kseq (bwrite b) (brelse b))) s = Done () s' \<and> bio_inv s' \<and> bframe s s' \<and>
      blk s' = (blk s)(log_start s := head_bytes (lh_n s) (lh_sector s) (blk s (log_start s))) \<and>
      memdisk s' = (memdisk s)(log_start s := head_bytes (lh_n s) (lh_sector s) (blk s (log_start s))) \<and>
      wtrace s' = wtrace s @ [(log_start s, head_bytes (lh_n s) (lh_sector s) (blk s (log_start s)))] \<and>
      dirtyset s' = dirtyset s - {log_start s} \<and> busyset s' = busyset s"
    using assms log_start_disk [OF assms(2)] by (intro bc.write_sector) auto
  then show ?thesis
    using assms by (auto simp: write_head_def head_block_def log_geom_def)
qed

text \<open>After \<open>write_log\<close> the log blocks hold the logged sectors, so installing them writes those.\<close>

lemma log_writes_distinct:
  assumes "log_geom s" "lh_n s < log_size s" "i < nat (lh_n s)" "j < nat (lh_n s)" "i \<noteq> j"
  shows "log_start s + of_nat i + 1 \<noteq> log_start s + of_nat j + 1"
proof -
  have "uint (log_start s + of_nat i) \<noteq> uint (log_start s + of_nat j)"
    using log_sector(1) [OF assms(1), of i] log_sector(1) [OF assms(1), of j] assms by simp
  then show ?thesis by auto
qed

lemma replay_map_nth:
  assumes "i < n" "\<And>j. j < n \<Longrightarrow> j \<noteq> i \<Longrightarrow> f j \<noteq> f i"
  shows "replay d (map (\<lambda>i. (f i, g i)) [0..<n]) (f i) = g i"
  using assms
proof (induction n)
  case (Suc n)
  have "f i \<noteq> f n" if "i \<noteq> n" using Suc.prems that by (metis lessI)
  with Suc show ?case by (cases "i = n") auto
qed simp

lemma log_writes_block:
  assumes "log_geom s" "lh_n s < log_size s" "i < nat (lh_n s)"
  shows "replay d (log_writes s) (log_start s + of_nat i + 1) = blk s (lh_sector s ! i)"
  unfolding log_writes_def
  by (rule replay_map_nth [OF assms(3), of "\<lambda>i. log_start s + of_nat i + 1"])
    (use log_writes_distinct [OF assms(1,2)] assms(3) in blast)

lemma log_writes_other:
  assumes "log_geom s" "lh_n s < log_size s" "\<not> in_log s n \<or> n = log_start s"
  shows "replay d (take k (log_writes s)) n = d n"
proof (rule replay_other)
  have "n \<noteq> log_start s + of_nat i + 1" if "i < nat (lh_n s)" for i
    using log_sector_Suc [OF assms(1), of i] assms(2,3) that by force
  then have "n \<notin> fst ` set (log_writes s)" by (force simp: log_writes_def)
  then show "n \<notin> fst ` set (take k (log_writes s))" by (auto dest: in_set_takeD)
qed

lemma length_logged: "log_inv s \<Longrightarrow> length (logged s) = nat (lh_n s)"
  by (auto simp: log_inv_def log_geom_def logged_def)

lemma logged_nth: "log_inv s \<Longrightarrow> i < nat (lh_n s) \<Longrightarrow> lh_sector s ! i \<in> set (logged s)"
  using length_logged [of s] nth_mem [of i "logged s"] by (simp add: logged_def)

lemma card_dirty: "log_inv s \<Longrightarrow> card (dirtyset s) = nat (lh_n s)"
  using length_logged distinct_card [of "logged s"] by (simp add: log_inv_def)

lemma map_logged:
  assumes "log_inv s"
  shows "map (\<lambda>i. f (lh_sector s ! i)) [0..<nat (lh_n s)] = map f (logged s)"
proof (rule nth_equalityI)
  show "length (map (\<lambda>i. f (lh_sector s ! i)) [0..<nat (lh_n s)]) = length (map f (logged s))"
    using length_logged [OF assms] by simp
qed (use length_logged [OF assms] in \<open>auto simp: logged_def\<close>)

lemma bframe_lh: "bframe s t \<Longrightarrow> bframe (s\<lparr>lh_n := n\<rparr>) (t\<lparr>lh_n := n\<rparr>)"
  by (cases s; cases t; simp add: bframe_def)

text \<open>
  The common end of \<open>commit\<close> and \<open>recover_from_log\<close>: install the log blocks, clear the header.
\<close>

lemma install_clear_spec:
  assumes "bio_inv s" "log_geom s" "busyset s = {}" "lh_n s < log_size s"
    and dirty: "dirtyset s = {} \<or> distinct (logged s) \<and> set (logged s) = dirtyset s \<and> card (dirtyset s) < NBUF"
    and home: "\<And>n. n \<in> set (logged s) \<Longrightarrow> n < disksize s \<and> \<not> in_log s n"
  defines "ws \<equiv> install_writes s @ [(log_start s, head_bytes 0 (lh_sector s) (blk s (log_start s)))]"
  shows "\<exists>s'. kseq install_trans (kseq (kmodify (\<lambda>s. s\<lparr>lh_n := 0\<rparr>)) write_head) s = Done () s' \<and> log_inv s' \<and>
    bframe (s\<lparr>lh_n := 0\<rparr>) s' \<and> busyset s' = {} \<and> dirtyset s' = {} \<and> blk s' = replay (blk s) ws \<and>
    memdisk s' = replay (memdisk s) ws \<and> wtrace s' = wtrace s @ ws"
proof -
  have sz: "lh_n s \<le> int LOGSIZE" using assms(2,4) by (simp add: log_geom_def)
  obtain t where t: "install_trans s = Done () t" "bio_inv t" "bframe s t" "busyset t = {}"
    "dirtyset t = {}" "blk t = replay (blk s) (install_writes s)"
    "memdisk t = replay (memdisk s) (install_writes s)" "wtrace t = wtrace s @ install_writes s"
    using install_trans_spec [OF assms(1-4) sz dirty home] by auto
  note f = bframe_log [OF t(3)]
  define u where "u = t\<lparr>lh_n := 0\<rparr>"
  have g: "log_geom u" using log_geom_frame [OF t(3)] assms(2) by (simp add: u_def log_geom_def)
  have "blk t (log_start s) = blk s (log_start s)"
  proof -
    have "lh_sector s ! i \<in> set (logged s)" if "i < nat (lh_n s)" for i
      using that sz assms(2) nth_mem [of i "logged s"] by (simp add: logged_def log_geom_def)
    then have "log_start s \<noteq> lh_sector s ! i" if "i < nat (lh_n s)" for i
      using that home log_start_disk [OF assms(2)] by metis
    then show ?thesis unfolding t(6) by (intro replay_other) (force simp: install_writes_def)
  qed
  then have h: "head_block u = head_bytes 0 (lh_sector s) (blk s (log_start s))"
    by (simp add: head_block_def u_def f)
  obtain s' where w: "write_head u = Done () s'" "bio_inv s'" "bframe u s'" "busyset s' = {}"
    "dirtyset s' = {}" "blk s' = (blk t)(log_start s := head_block u)"
    "memdisk s' = (memdisk t)(log_start s := head_block u)"
    "wtrace s' = wtrace t @ [(log_start s, head_block u)]"
    using write_head_spec [of u] t g by (auto simp: u_def f param_defs)
  have lh: "lh_n s' = 0" "log_start s' = log_start s" using bframe_log [OF w(3)] by (simp_all add: u_def f)
  have "get32 0 (head_block u) = 0"
    unfolding h by (simp add: head_bytes(2) bio_inv_blk_length [OF assms(1)])
  then have "log_inv s'"
    using w(2,4,5,7) log_geom_frame [OF w(3)] g lh by (auto simp: log_inv_def logged_def log_geom_def)
  moreover have "bframe (s\<lparr>lh_n := 0\<rparr>) s'" using bframe_trans [OF bframe_lh [OF t(3)], of 0 s'] w(3) by (simp add: u_def)
  ultimately show ?thesis
    using t w by (simp add: kop_simps ws_def u_def [symmetric] h)
qed

lemma commit_spec:
  assumes "log_inv s" "busyset s = {}" "0 < lh_n s"
  shows "\<exists>s'. commit s = Done () s' \<and> log_inv s' \<and> bframe (s\<lparr>lh_n := 0\<rparr>) s' \<and> busyset s' = {} \<and>
    dirtyset s' = {} \<and> blk s' = replay (blk s) (commit_writes s) \<and>
    memdisk s' = replay (memdisk s) (commit_writes s) \<and> wtrace s' = wtrace s @ commit_writes s"
proof -
  have geom: "log_geom s" "lh_n s < log_size s" "lh_n s \<le> int LOGSIZE" "log_size s \<le> int LOGSIZE"
    using assms(1) by (auto simp: log_inv_def log_geom_def)
  have dirty: "set (logged s) = dirtyset s" "distinct (logged s)" "card (dirtyset s) < NBUF"
    using assms(1) geom card_dirty [OF assms(1)] by (auto simp: log_inv_def param_defs)
  have home: "\<And>n. n \<in> set (logged s) \<Longrightarrow> n < disksize s \<and> \<not> in_log s n"
    using assms(1) by (simp add: log_inv_def)
  have st: "log_start s \<notin> dirtyset s" using home log_start_disk [OF geom(1)] dirty(1) by metis
  obtain s1 where w1: "write_log s = Done () s1" "bio_inv s1" "bframe s s1" "busyset s1 = {}"
    "dirtyset s1 = dirtyset s" "blk s1 = replay (blk s) (log_writes s)"
    "memdisk s1 = replay (memdisk s) (log_writes s)" "wtrace s1 = wtrace s @ log_writes s"
    using write_log_spec [of s] assms geom dirty home by (auto simp: log_inv_def)
  note f1 = bframe_log [OF w1(3)]
  have h1: "head_block s1 = head_block s"
    using log_writes_other [OF geom(1,2), of "log_start s" "blk s" "length (log_writes s)"] w1(6) f1
    by (simp add: head_block_def)
  obtain s2 where w2: "write_head s1 = Done () s2" "bio_inv s2" "bframe s1 s2" "busyset s2 = {}"
    "dirtyset s2 = dirtyset s1" "blk s2 = (blk s1)(log_start s := head_block s)"
    "memdisk s2 = (memdisk s1)(log_start s := head_block s)"
    "wtrace s2 = wtrace s1 @ [(log_start s, head_block s)]"
    using write_head_spec [of s1] w1 geom dirty st log_geom_frame [OF w1(3)] by (auto simp: f1 h1)
  note fr2 = bframe_trans [OF w1(3) w2(3)]
  note f2 = bframe_log [OF fr2]
  have "blk s2 (log_start s + of_nat i + 1) = blk s (lh_sector s ! i)" if "i < nat (lh_n s)" for i
    using log_writes_block [OF geom(1,2) that, of "blk s"] log_sector_Suc(3) [OF geom(1), of i] that geom(2)
    by (simp add: w2(6) w1(6))
  then have "install_writes s2 = map (\<lambda>i. (lh_sector s ! i, blk s (lh_sector s ! i))) [0..<nat (lh_n s)]"
    by (simp add: install_writes_def f2)
  with map_logged [OF assms(1), of "\<lambda>n. (n, blk s n)"]
  have i2: "install_writes s2 = map (\<lambda>n. (n, blk s n)) (logged s)" by simp
  have lg2: "logged s2 = logged s" by (simp add: logged_def f2)
  show ?thesis
    using install_clear_spec [of s2] w1 w2 dirty home geom log_geom_frame [OF fr2] in_log_frame [OF fr2]
      bframe_trans [OF bframe_lh [OF fr2, of 0]] assms(3) i2
    by (auto simp: f2 lg2 commit_def kop_simps commit_writes_def)
qed

lemma read_head_loop:
  "k \<le> LOGSIZE \<Longrightarrow> length (lh_sector s) = LOGSIZE \<Longrightarrow>
   \<exists>l. length l = LOGSIZE \<and> (\<forall>i<k. l ! i = get32 (4 + 4 * i) x) \<and>
     kfor (read_head_one x) [0..<k] s = Done () (s\<lparr>lh_sector := l\<rparr>)"
proof (induction k)
  case 0
  then show ?case by (intro exI [of _ "lh_sector s"]) (simp add: kop_simps)
next
  case (Suc k)
  then obtain l where l: "length l = LOGSIZE" "\<forall>i<k. l ! i = get32 (4 + 4 * i) x"
    "kfor (read_head_one x) [0..<k] s = Done () (s\<lparr>lh_sector := l\<rparr>)" by auto
  have "read_head_one x k (s\<lparr>lh_sector := l\<rparr>) = Done () (s\<lparr>lh_sector := l[k := get32 (4 + 4 * k) x]\<rparr>)"
    using Suc.prems by (simp add: read_head_one_def kop_simps)
  with l Suc.prems show ?case
    by (intro exI [of _ "l[k := get32 (4 + 4 * k) x]"])
      (auto simp: kfor_append kop_simps less_Suc_eq)
qed

lemma read_head_spec:
  assumes "bio_inv s" "log_geom s" "busyset s = {}" "dirtyset s = {}"
  defines "x \<equiv> blk s (log_start s)"
  assumes "sint (get32 0 x) \<le> int LOGSIZE"
  shows "\<exists>l s'. read_head s = Done () s' \<and> bio_inv s' \<and> bframe (s\<lparr>lh_n := sint (get32 0 x), lh_sector := l\<rparr>) s' \<and>
    busyset s' = {} \<and> dirtyset s' = {} \<and> blk s' = blk s \<and> memdisk s' = memdisk s \<and> wtrace s' = wtrace s \<and>
    length l = LOGSIZE \<and> (\<forall>i < nat (sint (get32 0 x)). l ! i = get32 (4 + 4 * i) x)"
proof -
  let ?n = "sint (get32 0 x)"
  obtain b s1 where s1: "bread ROOTDEV (log_start s) s = Done b s1" "bio_inv s1" "bframe s s1" "blk s1 = blk s"
    "memdisk s1 = memdisk s" "wtrace s1 = wtrace s" "dirtyset s1 = {}" "busyset s1 = {log_start s}"
    "holds s1 b (log_start s)"
    using bc.rd_law [of s "log_start s"] assms log_start_disk [OF assms(2)] by (auto simp: param_defs)
  note f1 = bframe_log [OF s1(3)]
  have "nat ?n \<le> LOGSIZE" using assms(6) by linarith
  then obtain l where l: "length l = LOGSIZE" "\<forall>i < nat ?n. l ! i = get32 (4 + 4 * i) x"
    "kfor (read_head_one x) [0..<nat ?n] (s1\<lparr>lh_n := ?n\<rparr>) = Done () (s1\<lparr>lh_n := ?n, lh_sector := l\<rparr>)"
    using read_head_loop [of "nat ?n" "s1\<lparr>lh_n := ?n\<rparr>" x] assms(2) f1 by (auto simp: log_geom_def)
  have "log_start s \<notin> busyset s" using assms(3) by simp
  then have "blk s1 (log_start s) = memdisk s1 (log_start s)"
    using bc.synced [OF assms(1)] assms(4) s1 by auto
  then obtain s2 where s2: "brelse b (s1\<lparr>lh_n := ?n, lh_sector := l\<rparr>) = Done () s2" "bio_inv s2"
    "bframe (s1\<lparr>lh_n := ?n, lh_sector := l\<rparr>) s2" "blk s2 = blk s" "memdisk s2 = memdisk s"
    "wtrace s2 = wtrace s" "dirtyset s2 = {}" "busyset s2 = {}"
    using bc.rel_law [of "s1\<lparr>lh_n := ?n, lh_sector := l\<rparr>" b "log_start s"] s1 by auto
  have "bframe (s\<lparr>lh_n := ?n, lh_sector := l\<rparr>) (s1\<lparr>lh_n := ?n, lh_sector := l\<rparr>)"
    using s1(3) by (cases s; cases s1; simp add: bframe_def)
  then have fr: "bframe (s\<lparr>lh_n := ?n, lh_sector := l\<rparr>) s2" using s2(3) bframe_trans by blast
  have "get_data b s1 = Done x s1" using bc.get_law [OF s1(2,9)] s1(4) by (simp add: x_def)
  then have "read_head s = Done () s2"
    using s1(1) s2(1) l(3) assms(2) by (simp add: read_head_def kop_simps log_geom_def)
  with fr s2 l show ?thesis by blast
qed

lemma recover_spec:
  assumes "bio_inv s" "log_geom s" "busyset s = {}" "dirtyset s = {}"
  defines "x \<equiv> memdisk s (log_start s)"
  assumes n: "sint (get32 0 x) < log_size s"
    and home: "\<And>n. n \<in> set (head_sectors x) \<Longrightarrow> n < disksize s \<and> \<not> in_log s n"
  defines "ws \<equiv> recovery_writes (log_start s) (memdisk s)"
  shows "\<exists>s' l. recover_from_log s = Done () s' \<and> log_inv s' \<and> bframe (s\<lparr>lh_sector := l, lh_n := 0\<rparr>) s' \<and>
    lh_n s' = 0 \<and> busyset s' = {} \<and> dirtyset s' = {} \<and> blk s' = memdisk s' \<and>
    memdisk s' = replay (memdisk s) ws \<and> wtrace s' = wtrace s @ ws"
proof -
  have bm: "blk s = memdisk s" using bc.synced [OF assms(1)] assms(3,4) by auto
  have le: "sint (get32 0 x) \<le> int LOGSIZE" using n assms(2) by (simp add: log_geom_def)
  then obtain l s1 where s1: "read_head s = Done () s1" "bio_inv s1"
    "bframe (s\<lparr>lh_n := sint (get32 0 x), lh_sector := l\<rparr>) s1" "busyset s1 = {}" "dirtyset s1 = {}"
    "blk s1 = blk s" "memdisk s1 = memdisk s" "wtrace s1 = wtrace s" "length l = LOGSIZE"
    "\<And>i. i < nat (sint (get32 0 x)) \<Longrightarrow> l ! i = get32 (4 + 4 * i) x"
    using read_head_spec [OF assms(1-4)] unfolding x_def bm by blast
  note f1 = bframe_log [OF s1(3), simplified]
  have lg: "logged s1 = head_sectors x"
    using le s1(9,10) by (auto simp: logged_def f1 head_sectors_def intro!: nth_equalityI)
  have ln: "length (head_sectors x) = nat (sint (get32 0 x))" by (simp add: head_sectors_def)
  have geom: "log_geom s1" using assms(2) s1(9) by (simp add: log_geom_def f1)
  have iw: "install_writes s1 @ [(log_start s1, head_bytes 0 (lh_sector s1) (blk s1 (log_start s1)))] = ws"
    using s1(6,10) ln by (auto simp: install_writes_def f1 ws_def recovery_writes_def bm x_def
      head_sectors_def head_bytes_def)
  have inl: "\<And>n. in_log s1 n = in_log s n" by (simp add: in_log_def f1)
  obtain s2 where s2: "kseq install_trans (kseq (kmodify (\<lambda>s. s\<lparr>lh_n := 0\<rparr>)) write_head) s1 = Done () s2"
    "log_inv s2" "bframe (s1\<lparr>lh_n := 0\<rparr>) s2" "busyset s2 = {}" "dirtyset s2 = {}" "blk s2 = replay (blk s1) ws"
    "memdisk s2 = replay (memdisk s1) ws" "wtrace s2 = wtrace s1 @ ws"
    using install_clear_spec [OF s1(2) geom s1(4)] s1(5) n home f1 inl unfolding lg iw by auto
  have "bframe (s\<lparr>lh_sector := l, lh_n := 0\<rparr>) s2"
    using bframe_trans [OF bframe_lh [OF s1(3)] s2(3)] by simp
  then show ?thesis
    using s1 s2 bm bframe_log(6) [OF s2(3)]
    by (intro exI [of _ s2] exI [of _ l]) (simp add: recover_from_log_def kop_simps)
qed

section \<open>Booting on a disk\<close>

lemma readsb_spec:
  assumes "bio_inv s" "busyset s = {}" "dirtyset s = {}" "1 < disksize s"
  shows "\<exists>s'. readsb ROOTDEV s = Done (decode_sb (memdisk s 1)) s' \<and> bio_inv s' \<and> bframe s s' \<and>
    blk s' = blk s \<and> memdisk s' = memdisk s \<and> wtrace s' = wtrace s \<and> dirtyset s' = {} \<and> busyset s' = {}"
  using bc.read_sector [of s 1 decode_sb] bc.synced [OF assms(1), of 1] assms
  by (auto simp: readsb_def param_defs)

lemma initlog_spec:
  assumes "bio_inv s" "busyset s = {}" "dirtyset s = {}" "length (lh_sector s) = LOGSIZE"
    and sb: "sb_ok (memdisk s) (disksize s)" and hd: "head_ok (memdisk s) (disksize s)"
  defines "ws \<equiv> recovery_writes (sb_start (memdisk s)) (memdisk s)"
  shows "\<exists>s'. initlog s = Done () s' \<and> log_inv s' \<and> lh_n s' = 0 \<and> log_start s' = sb_start (memdisk s) \<and>
    log_size s' = sb_logsize (memdisk s) \<and> disksize s' = disksize s \<and> log_outstanding s' = log_outstanding s \<and>
    log_committing s' = log_committing s \<and> busyset s' = {} \<and> dirtyset s' = {} \<and>
    blk s' = memdisk s' \<and> memdisk s' = replay (memdisk s) ws \<and> wtrace s' = wtrace s @ ws"
proof -
  have "1 < disksize s"
    using sb by (simp add: sb_ok_def word_less_def)
  then obtain s1 where s1: "readsb ROOTDEV s = Done (decode_sb (memdisk s 1)) s1" "bio_inv s1" "bframe s s1"
    "memdisk s1 = memdisk s" "wtrace s1 = wtrace s" "dirtyset s1 = {}" "busyset s1 = {}"
    using readsb_spec [OF assms(1-3)] by auto
  note f1 = bframe_log [OF s1(3)]
  define s2 where "s2 = s1\<lparr>log_start := sb_start (memdisk s), log_size := sb_logsize (memdisk s), log_dev := ROOTDEV\<rparr>"
  have [simp]: "log_start s2 = sb_start (memdisk s)" "log_size s2 = sb_logsize (memdisk s)" "memdisk s2 = memdisk s"
    "disksize s2 = disksize s" "wtrace s2 = wtrace s"
    using s1 f1 by (simp_all add: s2_def)
  have geom: "log_geom s2" using sb assms(4) f1 by (simp add: log_geom_def sb_ok_def) (simp add: s2_def)
  have "\<exists>s' l. recover_from_log s2 = Done () s' \<and> log_inv s' \<and> bframe (s2\<lparr>lh_sector := l, lh_n := 0\<rparr>) s' \<and>
    lh_n s' = 0 \<and> busyset s' = {} \<and> dirtyset s' = {} \<and> blk s' = memdisk s' \<and>
    memdisk s' = replay (memdisk s2) (recovery_writes (log_start s2) (memdisk s2)) \<and>
    wtrace s' = wtrace s2 @ recovery_writes (log_start s2) (memdisk s2)"
    using s1 geom hd f1(8) by (intro recover_spec) (auto simp: s2_def head_ok_def in_log_def)
  then obtain s' l where s': "recover_from_log s2 = Done () s'" "log_inv s'" "bframe (s2\<lparr>lh_sector := l, lh_n := 0\<rparr>) s'"
    "lh_n s' = 0" "busyset s' = {}" "dirtyset s' = {}" "blk s' = memdisk s'"
    "memdisk s' = replay (memdisk s) ws" "wtrace s' = wtrace s @ ws"
    by (auto simp: ws_def)
  moreover have "initlog s = Done () s'"
    using s1(1) s'(1) by (simp add: initlog_def param_defs kop_simps s2_def sb_start_def sb_logsize_def)
  ultimately show ?thesis
    using bframe_log [OF s'(3)] f1 by (auto simp: s2_def)
qed

lemma boot_spec:
  assumes "fresh_cache s" "length (lh_sector s) = LOGSIZE"
    and sb: "sb_ok (memdisk s) (disksize s)" and hd: "head_ok (memdisk s) (disksize s)"
  defines "ws \<equiv> recovery_writes (sb_start (memdisk s)) (memdisk s)"
  shows "\<exists>s'. kseq binit initlog s = Done () s' \<and> log_inv s' \<and> lh_n s' = 0 \<and> log_start s' = sb_start (memdisk s) \<and>
    log_size s' = sb_logsize (memdisk s) \<and> disksize s' = disksize s \<and> log_outstanding s' = log_outstanding s \<and>
    log_committing s' = log_committing s \<and> busyset s' = {} \<and> dirtyset s' = {} \<and>
    blk s' = memdisk s' \<and> memdisk s' = replay (memdisk s) ws \<and> wtrace s' = wtrace s @ ws"
proof -
  obtain t where t: "binit s = Done () t" "bio_inv t" "bframe s t" "memdisk t = memdisk s" "wtrace t = wtrace s"
    "dirtyset t = {}" "busyset t = {}"
    using binit_spec [OF assms(1)] by auto
  note f = bframe_log [OF t(3)]
  show ?thesis
    using initlog_spec [of t] t assms(2) sb hd f by (simp add: kop_simps ws_def)
qed

section \<open>Crashes during commit\<close>

lemma take_commit:
  fixes lw iw :: "'a list"
  obtains "k \<le> length lw" "take k (lw @ h # iw @ [c]) = take k lw"
  | j where "length lw < k" "take k (lw @ h # iw @ [c]) = lw @ h # take j iw"
  | "length lw < k" "take k (lw @ h # iw @ [c]) = lw @ h # iw @ [c]"
proof -
  consider "k \<le> length lw" | "length lw < k" "k \<le> Suc (length lw + length iw)" | "Suc (length lw + length iw) < k"
    by linarith
  then show ?thesis
  proof cases
    case 2
    then have "take k (lw @ h # iw @ [c]) = lw @ h # take (k - length lw - 1) iw"
      by (auto simp: take_Cons' )
    with 2 that show ?thesis by blast
  next
    case 3
    with that(3) show ?thesis by simp
  qed (use that in simp)
qed

lemma head_block_sectors:
  assumes "log_inv s"
  shows "sint (get32 0 (head_block s)) = lh_n s" "head_sectors (head_block s) = logged s"
proof -
  have n: "0 \<le> lh_n s" "lh_n s \<le> int LOGSIZE" using assms by (auto simp: log_inv_def log_geom_def)
  have len: "length (blk s (log_start s)) = BSIZE" using assms bio_inv_blk_length by (auto simp: log_inv_def)
  show s: "sint (get32 0 (head_block s)) = lh_n s"
    using n unfolding head_block_def head_bytes(2) [OF len n(2)]
    by (simp add: signed_of_int signed_take_bit_int_eq_self param_defs)
  then show "head_sectors (head_block s) = logged s"
    using head_bytes(3) [OF len n(2)] length_logged [OF assms]
    by (auto simp: head_sectors_def head_block_def logged_def intro!: nth_equalityI)
qed

text \<open>
  The disk after a prefix of the writes of \<open>commit\<close>: before the header is written only log
  blocks have changed; once it is written, the header lists the logged sectors, the log
  blocks hold them, and some of them are at home; the last write clears the header.
\<close>

lemma commit_prefix_old:
  assumes "log_inv s" "n \<notin> set (logged s)" "\<not> in_log s n"
  shows "replay d (take k (commit_writes s)) n = d n"
proof (rule replay_other)
  have g: "log_geom s" "lh_n s < log_size s" using assms(1) by (auto simp: log_inv_def)
  have "n \<noteq> log_start s" using log_start_disk [OF g(1)] assms(3) by auto
  moreover have "n \<noteq> log_start s + of_nat i + 1" if "i < nat (lh_n s)" for i
    using log_sector_Suc [OF g(1), of i] g(2) assms(3) that by force
  ultimately have "n \<notin> fst ` set (commit_writes s)"
    using assms(2) by (force simp: commit_writes_def log_writes_def)
  then show "n \<notin> fst ` set (take k (commit_writes s))" by (auto dest: in_set_takeD)
qed

lemma replay_self:
  "replay d (map (\<lambda>n. (n, f n)) ns) n = (if n \<in> set ns then f n else d n)"
  by (induction ns arbitrary: d) auto

lemma commit_prefix_header:
  assumes "log_inv s"
  defines "d \<equiv> \<lambda>k. replay (memdisk s) (take k (commit_writes s))"
  shows "get32 0 (d k (log_start s)) = 0 \<and> (\<forall>n. \<not> in_log s n \<longrightarrow>
        d k n = (if k \<le> nat (lh_n s) \<or> n \<notin> set (logged s) then memdisk s n else blk s n)) \<or>
    nat (lh_n s) < k \<and> d k (log_start s) = head_block s \<and>
      (\<forall>i < nat (lh_n s). d k (log_start s + of_nat i + 1) = blk s (lh_sector s ! i))"
proof -
  have g: "log_geom s" "lh_n s < log_size s" and h0: "get32 0 (memdisk s (log_start s)) = 0"
    and home: "\<And>n. n \<in> set (logged s) \<Longrightarrow> \<not> in_log s n"
    using assms(1) by (auto simp: log_inv_def)
  have len: "length (log_writes s) = nat (lh_n s)" by (simp add: log_writes_def)
  have hlen: "length (head_block s) = BSIZE"
    using g assms(1) unfolding head_block_def
    by (intro head_bytes(1) bio_inv_blk_length) (auto simp: log_inv_def log_geom_def)
  let ?iw = "map (\<lambda>n. (n, blk s n)) (logged s)" and ?c = "(log_start s, head_bytes 0 (lh_sector s) (head_block s))"
  note lwo = log_writes_other [OF g, of _ "memdisk s"]
  show ?thesis
  proof (rule take_commit [of k "log_writes s" "(log_start s, head_block s)" ?iw ?c])
    assume "k \<le> length (log_writes s)" "take k (log_writes s @ (log_start s, head_block s) # ?iw @ [?c]) = take k (log_writes s)"
    then show ?thesis using lwo h0 by (simp add: d_def commit_writes_def len)
  next
    fix j
    assume k: "length (log_writes s) < k"
      "take k (log_writes s @ (log_start s, head_block s) # ?iw @ [?c]) = log_writes s @ (log_start s, head_block s) # take j ?iw"
    have nin: "n \<notin> fst ` set (take j ?iw)" if "in_log s n" for n
      using that home by (auto dest!: in_set_takeD)
    have st: "d k (log_start s) = head_block s"
      using nin [of "log_start s"] log_start_disk [OF g(1)] k by (simp add: d_def commit_writes_def replay_other)
    have "d k (log_start s + of_nat i + 1) = blk s (lh_sector s ! i)" if "i < nat (lh_n s)" for i
      using nin [of "log_start s + of_nat i + 1"] log_sector_Suc [OF g(1), of i] g(2) that k
        log_writes_block [OF g that]
      by (simp add: d_def commit_writes_def replay_other)
    with st k len show ?thesis by simp
  next
    assume k: "length (log_writes s) < k"
      "take k (log_writes s @ (log_start s, head_block s) # ?iw @ [?c]) = log_writes s @ (log_start s, head_block s) # ?iw @ [?c]"
    have ns: "n \<noteq> log_start s" if "\<not> in_log s n" for n using that log_start_disk [OF g(1)] by auto
    have "d k = (replay ((replay (memdisk s) (log_writes s))(log_start s := head_block s)) ?iw)
        (log_start s := head_bytes 0 (lh_sector s) (head_block s))"
      using k by (simp add: d_def commit_writes_def)
    then show ?thesis
      using lwo [of _ "length (log_writes s)"] k(1) len head_bytes(2) [OF hlen, of 0]
      by (auto simp: replay_self ns)
  qed
qed

lemma crash_recovery:
  assumes "log_inv s" "busyset s = {}" "0 < lh_n s" "log_of_sb s"
    and t: "fresh_cache t" "length (lh_sector t) = LOGSIZE" "disksize t = disksize s"
      "memdisk t = replay (memdisk s) (take k (commit_writes s))"
  shows "\<exists>t'. kseq binit initlog t = Done () t' \<and> log_inv t' \<and> lh_n t' = 0 \<and> log_of_sb t' \<and>
    log_start t' = log_start s \<and> log_size t' = log_size s \<and>
    busyset t' = {} \<and> blk t' = memdisk t' \<and>
    (\<forall>n. \<not> in_log s n \<longrightarrow> memdisk t' n = (if k \<le> nat (lh_n s) then memdisk s n else blk s n))"
proof -
  have g: "log_geom s" "lh_n s < log_size s" "bio_inv s" using assms(1) by (auto simp: log_inv_def)
  have home: "\<And>n. n \<in> set (logged s) \<Longrightarrow> n < disksize s \<and> \<not> in_log s n"
    using assms(1) by (auto simp: log_inv_def)
  have l: "sb_ok (memdisk s) (disksize s)" "sb_start (memdisk s) = log_start s" "sb_logsize (memdisk s) = log_size s"
    "1 \<notin> set (logged s)"
    using assms(4) by (auto simp: log_of_sb_def)
  have n1: "\<not> in_log s 1" using l by (auto simp: in_log_def sb_ok_def)
  have cl: "blk s n = memdisk s n" if "n \<notin> set (logged s)" for n
    using bc.synced [OF g(3), of n] that assms(1,2) by (auto simp: log_inv_def)
  have d1: "memdisk t 1 = memdisk s 1" using commit_prefix_old [OF assms(1) l(4) n1] t(4) by simp
  then have sb: "sb_start (memdisk t) = log_start s" "sb_logsize (memdisk t) = log_size s"
      "sb_ok (memdisk t) (disksize t)"
    using l t(3) by (simp_all add: sb_start_def sb_logsize_def sb_ok_def)
  let ?ws = "recovery_writes (log_start s) (memdisk t)"
  have out: "n \<noteq> log_start s" if "\<not> in_log s n" for n using that log_start_disk [OF g(1)] by auto
  have ho: "head_ok (memdisk t) (disksize t) \<and> (\<forall>n. \<not> in_log s n \<longrightarrow>
      replay (memdisk t) ?ws n = (if k \<le> nat (lh_n s) then memdisk s n else blk s n))"
    using commit_prefix_header [OF assms(1), of k] unfolding t(4) [symmetric]
  proof
    assume h: "get32 0 (memdisk t (log_start s)) = 0 \<and> (\<forall>n. \<not> in_log s n \<longrightarrow>
      memdisk t n = (if k \<le> nat (lh_n s) \<or> n \<notin> set (logged s) then memdisk s n else blk s n))"
    then have "head_sectors (memdisk t (log_start s)) = []" by (simp add: head_sectors_def)
    with h g show ?thesis using cl out sb by (auto simp: head_ok_def recovery_writes_def log_geom_def)
  next
    assume h: "nat (lh_n s) < k \<and> memdisk t (log_start s) = head_block s \<and>
      (\<forall>i < nat (lh_n s). memdisk t (log_start s + of_nat i + 1) = blk s (lh_sector s ! i))"
    have ok: "head_ok (memdisk t) (disksize t)"
      using h sb t(3) g(2) home by (auto simp: head_ok_def head_block_sectors [OF assms(1)] in_log_def)
    have "map (\<lambda>i. (head_sectors (memdisk t (log_start s)) ! i, memdisk t (log_start s + of_nat i + 1)))
        [0..<length (head_sectors (memdisk t (log_start s)))] = map (\<lambda>n. (n, blk s n)) (logged s)"
      using h length_logged [OF assms(1)] by (auto simp: head_block_sectors [OF assms(1)] logged_def intro!: nth_equalityI)
    moreover have "memdisk t n = memdisk s n" if "\<not> in_log s n" "n \<notin> set (logged s)" for n
      using commit_prefix_old [OF assms(1) that(2,1)] t(4) by simp
    ultimately show ?thesis using ok h cl out by (auto simp: recovery_writes_def replay_self)
  qed
  obtain t' where t': "kseq binit initlog t = Done () t'" "log_inv t'" "lh_n t' = 0"
    "log_start t' = log_start s" "log_size t' = log_size s" "disksize t' = disksize s" "busyset t' = {}"
    "blk t' = memdisk t'" "memdisk t' = replay (memdisk t) ?ws"
    using boot_spec [OF t(1,2) sb(3)] ho sb t(3) by auto
  have "memdisk t' 1 = memdisk s 1" using ho n1 cl [OF l(4)] t'(9) by simp
  then have "log_of_sb t'" using l t' by (simp add: log_of_sb_def sb_ok_def sb_start_def sb_logsize_def logged_def)
  with t' ho show ?thesis by auto
qed

section \<open>Transactions\<close>

lemma lframe_refl [simp]: "lframe s s"
  by (simp add: lframe_def bframe_def)

lemma lframe_trans [trans]: "lframe s t \<Longrightarrow> lframe t u \<Longrightarrow> lframe s u"
  by (cases s; cases t; cases u; simp add: lframe_def bframe_def)

lemma bframe_lframe: "bframe s t \<Longrightarrow> lframe s t"
  by (cases s; cases t; simp add: lframe_def bframe_def)

lemma lframe_log:
  assumes "lframe s s'"
  shows "log_start s' = log_start s" "log_size s' = log_size s" "log_outstanding s' = log_outstanding s"
    "log_committing s' = log_committing s" "log_dev s' = log_dev s" "disksize s' = disksize s"
    "lstate.more s' = lstate.more s"
  using assms by (cases s; cases s'; simp add: lframe_def bframe_def)+

lemma lframe_in_log: "lframe s s' \<Longrightarrow> in_log s' n = in_log s n"
  by (simp add: in_log_def lframe_log)

lemma log_index_cases:
  assumes "log_inv s"
  shows "n \<in> set (logged s) \<Longrightarrow> log_index s n < nat (lh_n s) \<and> lh_sector s ! log_index s n = n"
    and "n \<notin> set (logged s) \<Longrightarrow> log_index s n = nat (lh_n s)"
proof -
  have len: "length (logged s) = nat (lh_n s)" by (rule length_logged [OF assms])
  have nth: "logged s ! i = lh_sector s ! i" if "i < nat (lh_n s)" for i using that by (simp add: logged_def)
  show "log_index s n < nat (lh_n s) \<and> lh_sector s ! log_index s n = n" if n: "n \<in> set (logged s)"
  proof -
    obtain i where "i < nat (lh_n s)" "lh_sector s ! i = n"
      using n len nth by (metis in_set_conv_nth)
    from first_slot_exists [OF this(1), of "\<lambda>i. lh_sector s ! i = n", OF this(2)]
    obtain j where "first_slot (nat (lh_n s)) (\<lambda>i. lh_sector s ! i = n) = Some j" by blast
    with iffD1 [OF first_slot_Some this] show ?thesis by (simp add: log_index_def)
  qed
  show "log_index s n = nat (lh_n s)" if n: "n \<notin> set (logged s)"
  proof -
    have "lh_sector s ! i \<noteq> n" if "i < nat (lh_n s)" for i using that n logged_nth [OF assms that] by auto
    then have "first_slot (nat (lh_n s)) (\<lambda>i. lh_sector s ! i = n) = None" by (simp add: first_slot_None)
    then show ?thesis by (simp add: log_index_def)
  qed
qed

lemma log_index_le: "log_index s n \<le> nat (lh_n s)"
  by (auto simp: log_index_def first_slot_Some split: option.split)

lemma log_write_spec:
  assumes "log_inv s" "holds s b n" "n < disksize s" "\<not> in_log s n" "lh_n s < log_size s - 1" "1 \<le> log_outstanding s"
  shows "\<exists>s'. log_write b s = Done () s' \<and> log_inv s' \<and> lframe s s' \<and> blk s' = blk s \<and> memdisk s' = memdisk s \<and>
    wtrace s' = wtrace s \<and> busyset s' = busyset s \<and> (\<forall>c m. holds s c m \<longrightarrow> holds s' c m) \<and>
    logged s' = (if n \<in> set (logged s) then logged s else logged s @ [n])"
proof -
  have sec: "b_sector (bufs s b) = n" using assms(2) by (simp add: holds_def caches_def)
  have g: "log_geom s" "bio_inv s" "0 \<le> lh_n s" using assms(1) by (auto simp: log_inv_def)
  then have nL: "nat (lh_n s) < LOGSIZE" "length (lh_sector s) = LOGSIZE" "\<not> lh_n s \<ge> int LOGSIZE"
    using assms(5) by (auto simp: log_geom_def)
  let ?i = "log_index s n"
  have iL: "\<not> LOGSIZE \<le> ?i" using log_index_le [of s n] nL(1) by simp
  define t where "t = s\<lparr>lh_sector := (lh_sector s)[?i := n], lh_n := (if int ?i = lh_n s then lh_n s + 1 else lh_n s)\<rparr>"
  have lg: "logged t = (if n \<in> set (logged s) then logged s else logged s @ [n])"
  proof (cases "n \<in> set (logged s)")
    case True
    with log_index_cases(1) [OF assms(1)] have "(lh_sector s)[?i := n] = lh_sector s" "?i < nat (lh_n s)"
      by (metis list_update_id)+
    with True show ?thesis using g(3) by (simp add: t_def logged_def)
  next
    case False
    with log_index_cases(2) [OF assms(1)] have "?i = nat (lh_n s)" by simp
    with False show ?thesis using g(3) nL
      by (simp add: t_def logged_def nat_add_distrib take_Suc_conv_app_nth)
  qed
  have "holds t b n" "bio_inv t" using assms(2) g(2) by (simp_all add: t_def)
  from bc.pin_law [OF this(2,1)] obtain s' where s': "set_dirty b t = Done () s'" "bio_inv s'" "bframe t s'"
    "blk s' = blk s" "memdisk s' = memdisk s" "wtrace s' = wtrace s" "dirtyset s' = insert n (dirtyset s)"
    "busyset s' = busyset s" "\<forall>c m. holds s c m \<longrightarrow> holds s' c m"
    by (auto simp: t_def)
  note f = bframe_log [OF s'(3)]
  have lf: "lframe s s'" using s'(3) by (cases s; cases s'; simp add: t_def lframe_def bframe_def)
  have lg': "logged s' = logged t" by (simp add: logged_def f)
  have "lh_n t = int (length (logged t))" using lg g(3) length_logged [OF assms(1)]
      log_index_cases [OF assms(1), of n] by (auto simp: t_def)
  then have "lh_n s' = int (length (logged t))" by (simp add: f)
  then have "log_inv s'"
    using assms s'(2,5,7) lg lg' lframe_log [OF lf] lframe_in_log [OF lf] length_logged [OF assms(1)] f
    by (auto simp: log_inv_def log_geom_def t_def)
  moreover have "log_write b s = Done () s'"
    using s'(1) assms(5,6) nL(3) iL by (simp add: log_write_def sec t_def Let_def kop_simps)
  ultimately show ?thesis using s' lf lg lg' by auto
qed

lemma tx_update_spec:
  assumes "log_inv s" "n < disksize s" "\<not> in_log s n" "n \<notin> busyset s" "card (busyset s \<union> dirtyset s) < NBUF"
    and "lh_n s < log_size s - 1" "1 \<le> log_outstanding s" "length (f (blk s n)) = BSIZE"
  shows "\<exists>s'. tx_update n f s = Done () s' \<and> log_inv s' \<and> lframe s s' \<and> blk s' = (blk s)(n := f (blk s n)) \<and>
    memdisk s' = memdisk s \<and> wtrace s' = wtrace s \<and> busyset s' = busyset s \<and>
    logged s' = (if n \<in> set (logged s) then logged s else logged s @ [n])"
proof -
  have "bio_inv s" using assms(1) by (simp add: log_inv_def)
  then obtain b s1 where s1: "bread ROOTDEV n s = Done b s1" "bio_inv s1" "bframe s s1" "blk s1 = blk s"
    "memdisk s1 = memdisk s" "wtrace s1 = wtrace s" "dirtyset s1 = dirtyset s" "busyset s1 = insert n (busyset s)"
    "holds s1 b n"
    using bc.rd_law [of s n] assms(2,4,5) by blast
  have "length (f (blk s1 n)) = BSIZE" using assms(8) s1(4) by simp
  from bc.put_law [OF s1(2,9), of f, OF this]
  obtain s2 where s2: "set_data b f s1 = Done () s2" "bio_inv s2" "bframe s1 s2" "blk s2 = (blk s)(n := f (blk s n))"
    "memdisk s2 = memdisk s" "wtrace s2 = wtrace s" "dirtyset s2 = dirtyset s" "busyset s2 = insert n (busyset s)"
    "holds s2 b n"
    using s1 by auto
  have fr: "bframe s s2" using bframe_trans [OF s1(3) s2(3)] .
  note f = bframe_log [OF fr]
  have lg: "logged s2 = logged s" by (simp add: logged_def f)
  have li: "log_inv s2"
    using assms(1) s2(2,5,7) in_log_frame [OF fr] by (simp add: log_inv_def log_geom_def f lg)
  have "\<exists>s3. log_write b s2 = Done () s3 \<and> log_inv s3 \<and> lframe s2 s3 \<and> blk s3 = blk s2 \<and> memdisk s3 = memdisk s2 \<and>
    wtrace s3 = wtrace s2 \<and> busyset s3 = busyset s2 \<and> (\<forall>c m. holds s2 c m \<longrightarrow> holds s3 c m) \<and>
    logged s3 = (if n \<in> set (logged s2) then logged s2 else logged s2 @ [n])"
    using assms in_log_frame [OF fr] by (intro log_write_spec [OF li s2(9)]) (simp_all add: f)
  then obtain s3 where s3: "log_write b s2 = Done () s3" "log_inv s3" "lframe s2 s3" "blk s3 = blk s2"
    "memdisk s3 = memdisk s2" "wtrace s3 = wtrace s2" "busyset s3 = busyset s2" "holds s3 b n"
    "logged s3 = (if n \<in> set (logged s) then logged s else logged s @ [n])"
    using s2(9) lg by auto
  have "n \<in> dirtyset s3" "bio_inv s3" using s3(2,9) by (auto simp: log_inv_def split: if_splits)
  with bc.rel_law [OF _ s3(8)] obtain s4 where s4: "brelse b s3 = Done () s4" "bio_inv s4" "bframe s3 s4" "blk s4 = blk s3"
    "memdisk s4 = memdisk s3" "wtrace s4 = wtrace s3" "dirtyset s4 = dirtyset s3" "busyset s4 = busyset s3 - {n}"
    by blast
  note f4 = bframe_log [OF s4(3)]
  have "log_inv s4" using s3(2) s4 in_log_frame [OF s4(3)] by (simp add: log_inv_def log_geom_def logged_def f4)
  moreover have "lframe s s4"
    using bframe_lframe [OF fr] s3(3) bframe_lframe [OF s4(3)] lframe_trans by metis
  moreover have "tx_update n f s = Done () s4" using s1(1) s2(1) s3(1) s4(1) by (simp add: tx_update_def kop_simps)
  moreover have "logged s4 = logged s3" by (simp add: logged_def f4)
  ultimately show ?thesis using s2 s3 s4 assms(4) by auto
qed

lemma begin_op_admits:
  "\<not> log_committing s \<Longrightarrow> lh_n s + (log_outstanding s + 1) * int MAXOPBLOCKS \<le> int LOGSIZE \<Longrightarrow>
   begin_op s = Done () (s\<lparr>log_outstanding := log_outstanding s + 1\<rparr>)"
  by (simp add: begin_op_def)

lemma log_inv_upd_op [simp]:
  "log_inv (s\<lparr>log_outstanding := k\<rparr>) = log_inv s" "log_inv (s\<lparr>log_committing := c\<rparr>) = log_inv s"
  by (simp_all add: log_inv_def log_geom_def logged_def in_log_def)

lemma card_busy_dirty: "log_inv s \<Longrightarrow> busyset s = {} \<Longrightarrow> card (busyset s \<union> dirtyset s) < NBUF"
  using card_dirty [of s] by (auto simp: log_inv_def log_geom_def param_defs)

lemma tx_effect_Cons [simp]: "tx_effect ((n, f) # us) d = tx_effect us (d(n := f (d n)))"
  by (simp add: tx_effect_def)

lemma tx_effect_Nil [simp]: "tx_effect [] d = d"
  by (simp add: tx_effect_def)

lemma tx_loop:
  assumes "log_inv s" "busyset s = {}" "1 \<le> log_outstanding s" "lh_n s + int (length us) < log_size s"
    and "\<forall>u \<in> set us. upd_ok s u"
  shows "\<exists>s'. kfor (\<lambda>(n, f). tx_update n f) us s = Done () s' \<and> log_inv s' \<and> lframe s s' \<and>
    blk s' = tx_effect us (blk s) \<and> memdisk s' = memdisk s \<and> wtrace s' = wtrace s \<and> busyset s' = {} \<and>
    set (logged s') = set (logged s) \<union> fst ` set us"
  using assms
proof (induction us arbitrary: s)
  case Nil
  then show ?case by (simp add: kop_simps)
next
  case (Cons u us)
  obtain n f where u: "u = (n, f)" by (cases u)
  have "length (blk s n) = BSIZE" using Cons.prems(1) bio_inv_blk_length by (auto simp: log_inv_def)
  then have "\<exists>s'. tx_update n f s = Done () s' \<and> log_inv s' \<and> lframe s s' \<and> blk s' = (blk s)(n := f (blk s n)) \<and>
    memdisk s' = memdisk s \<and> wtrace s' = wtrace s \<and> busyset s' = busyset s \<and>
    logged s' = (if n \<in> set (logged s) then logged s else logged s @ [n])"
    using Cons.prems u card_busy_dirty [OF Cons.prems(1,2)] by (intro tx_update_spec) (auto simp: upd_ok_def)
  then obtain s1 where s1: "tx_update n f s = Done () s1" "log_inv s1" "lframe s s1" "blk s1 = (blk s)(n := f (blk s n))"
    "memdisk s1 = memdisk s" "wtrace s1 = wtrace s" "busyset s1 = {}"
    "logged s1 = (if n \<in> set (logged s) then logged s else logged s @ [n])"
    using Cons.prems(2) by auto
  have "nat (lh_n s1) \<le> nat (lh_n s) + 1"
    using length_logged [OF s1(2)] length_logged [OF Cons.prems(1)] s1(8) by (auto split: if_splits)
  then have "lh_n s1 + int (length us) < log_size s1"
    using Cons.prems(1,4) s1(2) by (auto simp: lframe_log [OF s1(3)] log_inv_def)
  then have "\<exists>s'. kfor (\<lambda>(n, f). tx_update n f) us s1 = Done () s' \<and> log_inv s' \<and> lframe s1 s' \<and>
    blk s' = tx_effect us (blk s1) \<and> memdisk s' = memdisk s1 \<and> wtrace s' = wtrace s1 \<and> busyset s' = {} \<and>
    set (logged s') = set (logged s1) \<union> fst ` set us"
    using s1 Cons.prems by (intro Cons.IH) (simp_all add: lframe_log [OF s1(3)] lframe_in_log [OF s1(3)] upd_ok_def)
  then obtain s2 where s2: "kfor (\<lambda>(n, f). tx_update n f) us s1 = Done () s2" "log_inv s2" "lframe s1 s2"
    "blk s2 = tx_effect us (blk s1)" "memdisk s2 = memdisk s1" "wtrace s2 = wtrace s1" "busyset s2 = {}"
    "set (logged s2) = set (logged s1) \<union> fst ` set us"
    by blast
  have "kfor (\<lambda>(n, f). tx_update n f) (u # us) s = Done () s2" using s1(1) s2(1) u by (simp add: kop_simps)
  then show ?case
    using s1 s2 u lframe_trans [OF s1(3) s2(3)] by auto
qed

lemma wakeup_log [simp]:
  "bio_inv (wakeup1 c s) = bio_inv s" "blk (wakeup1 c s) = blk s" "dirtyset (wakeup1 c s) = dirtyset s"
  "busyset (wakeup1 c s) = busyset s"
  by (simp_all add: bio_inv_def blk_def dirtyset_def busyset_def caches_def fun_eq_iff cong: option.case_cong)

lemma log_inv_frame:
  "bframe s s' \<Longrightarrow> bio_inv s' = bio_inv s \<Longrightarrow> dirtyset s' = dirtyset s \<Longrightarrow> memdisk s' = memdisk s \<Longrightarrow> log_inv s' = log_inv s"
  by (simp add: log_inv_def log_geom_frame in_log_frame logged_def bframe_log)

text \<open>The last outstanding operation commits; the others leave the commit to it.\<close>

lemma end_op_commits:
  assumes "log_inv s" "busyset s = {}" "log_outstanding s = 1" "\<not> log_committing s"
  shows "\<exists>s'. end_op s = Done () s' \<and> log_inv s' \<and> lh_n s' = 0 \<and> log_outstanding s' = 0 \<and> \<not> log_committing s' \<and>
    busyset s' = {} \<and> disksize s' = disksize s \<and> log_start s' = log_start s \<and> log_size s' = log_size s \<and>
    blk s' = replay (blk s) (op_writes s) \<and>
    memdisk s' = replay (memdisk s) (op_writes s) \<and> wtrace s' = wtrace s @ op_writes s"
proof -
  define t where "t = s\<lparr>log_outstanding := 0, log_committing := True\<rparr>"
  have "\<exists>u. commit t = Done () u \<and> log_inv u \<and> bframe (t\<lparr>lh_n := 0\<rparr>) u \<and> busyset u = {} \<and>
    blk u = replay (blk t) (op_writes s) \<and>
    memdisk u = replay (memdisk t) (op_writes s) \<and> wtrace u = wtrace t @ op_writes s"
  proof (cases "0 < lh_n s")
    case True
    moreover have "commit_writes t = commit_writes s"
      by (simp add: t_def commit_writes_def log_writes_def head_block_def logged_def)
    ultimately show ?thesis using commit_spec [of t] assms(1,2) by (auto simp: t_def op_writes_def)
  next
    case False
    moreover have "lh_n s = 0" using False assms(1) by (simp add: log_inv_def)
    moreover have "bframe (t\<lparr>lh_n := 0\<rparr>) t" using calculation by (cases s) (simp add: bframe_def t_def)
    ultimately show ?thesis using assms(1,2) by (simp add: t_def commit_def op_writes_def)
  qed
  then obtain u where u: "commit t = Done () u" "log_inv u" "bframe (t\<lparr>lh_n := 0\<rparr>) u" "busyset u = {}"
    "blk u = replay (blk t) (op_writes s)"
    "memdisk u = replay (memdisk t) (op_writes s)" "wtrace u = wtrace t @ op_writes s" by blast
  note f = bframe_log [OF u(3)]
  let ?u = "u\<lparr>log_committing := False\<rparr>"
  have "end_op s = Done () (wakeup1 ChLog ?u)"
    using u(1) assms(3,4) by (simp add: end_op_def Let_def kop_simps t_def wakeup_def)
  moreover have "log_inv (wakeup1 ChLog ?u)" using log_inv_frame [OF bframe_upd(2), of ChLog ?u] u(2) by simp
  ultimately show ?thesis using u f bframe_log [OF bframe_upd(2), of ChLog ?u] by (simp add: t_def)
qed

lemma end_op_waits:
  "\<not> log_committing s \<Longrightarrow> log_outstanding s \<noteq> 1 \<Longrightarrow>
   end_op s = Done () (wakeup1 ChLog (s\<lparr>log_outstanding := log_outstanding s - 1\<rparr>))"
  by (simp add: end_op_def Let_def wakeup_def kop_simps)

lemma replay_op_writes:
  assumes "log_inv s" "busyset s = {}" "\<not> in_log s n"
  shows "replay (memdisk s) (op_writes s) n = blk s n"
proof -
  have cl: "blk s n = memdisk s n" if "n \<notin> set (logged s)"
    using bc.synced [of s n] that assms by (auto simp: log_inv_def)
  show ?thesis
  proof (cases "n \<in> set (logged s)")
    case True
    then have "0 < lh_n s" by (cases "lh_n s \<le> 0") (auto simp: logged_def)
    moreover have "n \<noteq> log_start s" using assms(1,3) log_start_disk by (auto simp: log_inv_def)
    ultimately show ?thesis using True by (simp add: op_writes_def commit_writes_def replay_self)
  next
    case False
    then show ?thesis
      using commit_prefix_old [OF assms(1) False assms(3), of "memdisk s" "length (commit_writes s)"] cl
      by (simp add: op_writes_def)
  qed
qed

lemma transaction_spec:
  fixes s :: "'z lstate_scheme"
  assumes "log_inv s" "busyset s = {}" "lh_n s = 0" "log_outstanding s = 0" "\<not> log_committing s"
    and "int (length us) \<le> int MAXOPBLOCKS" "int (length us) < log_size s"
    and us: "\<forall>u \<in> set us. upd_ok s u"
  shows "\<exists>(s1 :: 'z lstate_scheme) s'. transaction us s = Done () s' \<and> log_inv s' \<and> lh_n s' = 0 \<and> busyset s' = {} \<and>
    log_outstanding s' = 0 \<and> \<not> log_committing s' \<and> disksize s' = disksize s \<and> log_start s' = log_start s \<and>
    log_size s' = log_size s \<and>
    log_inv s1 \<and> busyset s1 = {} \<and> memdisk s1 = memdisk s \<and> blk s1 = tx_effect us (memdisk s) \<and>
    disksize s1 = disksize s \<and> log_start s1 = log_start s \<and> log_size s1 = log_size s \<and>
    set (logged s1) = fst ` set us \<and>
    memdisk s' = replay (memdisk s) (op_writes s1) \<and> wtrace s' = wtrace s @ op_writes s1"
proof -
  define t where "t = s\<lparr>log_outstanding := 1\<rparr>"
  have t: "begin_op s = Done () t"
    using begin_op_admits [of s] assms(3-5) by (simp add: t_def param_defs)
  have "blk s n = memdisk s n" for n
    using bc.synced [of s n] assms(1-3) by (auto simp: log_inv_def logged_def)
  then have bm: "blk s = memdisk s" by auto
  obtain s1 where s1: "kfor (\<lambda>(n, f). tx_update n f) us t = Done () s1" "log_inv s1" "lframe t s1"
    "blk s1 = tx_effect us (memdisk s)" "memdisk s1 = memdisk s" "wtrace s1 = wtrace s" "busyset s1 = {}"
    "set (logged s1) = fst ` set us"
    using tx_loop [of t us] assms bm by (auto simp: t_def in_log_def logged_def upd_ok_def)
  note f = lframe_log [OF s1(3)]
  obtain s' where s': "end_op s1 = Done () s'" "log_inv s'" "lh_n s' = 0" "log_outstanding s' = 0" "\<not> log_committing s'"
    "busyset s' = {}" "disksize s' = disksize s1" "log_start s' = log_start s1" "log_size s' = log_size s1"
    "memdisk s' = replay (memdisk s1) (op_writes s1)" "wtrace s' = wtrace s1 @ op_writes s1"
    using end_op_commits [OF s1(2,7)] f assms(5) by (auto simp: t_def)
  have "transaction us s = Done () s'" using t s1(1) s'(1) by (simp add: transaction_def kop_simps)
  with s1 s' f show ?thesis unfolding t_def by auto
qed

section \<open>Crash safety\<close>

lemma replay_absorb: "replay (replay d (take k ws)) ws = replay d ws"
proof
  fix n
  have other: "n \<notin> fst ` set (take k ws)" if "n \<notin> fst ` set ws" using that by (auto dest: in_set_takeD)
  have "replay d' ws n = replay d ws n" if "n \<in> fst ` set ws" for d'
    using that by (induction ws rule: rev_induct) force+
  then show "replay (replay d (take k ws)) ws n = replay d ws n"
    using other replay_other [of n ws] replay_other [of n "take k ws" d] by (cases "n \<in> fst ` set ws") auto
qed

lemma demo_facts:
  shows "fresh_cache (loaded demo_disk 64)" "length (lh_sector (loaded demo_disk 64)) = LOGSIZE"
    "sb_ok demo_disk 64" "head_ok demo_disk 64" "sb_start demo_disk = 34" "sb_logsize demo_disk = 30"
proof -
  have sb: "decode_sb (demo_disk 1) = \<lparr>sb_size = 64, sb_nblocks = 0, sb_ninodes = 0, sb_nlog = 30\<rparr>"
    unfolding demo_disk_def decode_sb_def
    by (simp add: byte_simps BSIZE_def) (simp add: get32_def slice_def bytes_u32_def)
  then show st: "sb_start demo_disk = 34" "sb_logsize demo_disk = 30"
    by (simp_all add: sb_start_def sb_logsize_def)
  then show "sb_ok demo_disk 64" by (simp add: sb_ok_def param_defs)
  have "get32 0 (demo_disk 34) = 0" by (simp add: demo_disk_def get32_def slice_def bytes_u32_def BSIZE_def)
  then show "head_ok demo_disk 64" by (simp add: head_ok_def st head_sectors_def)
  show "length (lh_sector (loaded demo_disk 64)) = LOGSIZE" by (simp add: loaded_def)
  have "length (demo_disk n) = BSIZE" for n by (simp add: demo_disk_def byte_simps BSIZE_def)
  then show "fresh_cache (loaded demo_disk 64)" by (simp add: fresh_cache_def loaded_def static_buf_def)
qed

lemma log_of_sb_boot:
  assumes "fresh_cache s" "length (lh_sector s) = LOGSIZE" "sb_ok (memdisk s) (disksize s)" "head_ok (memdisk s) (disksize s)"
    and "1 \<notin> set (head_sectors (memdisk s (sb_start (memdisk s))))" "kseq binit initlog s = Done () s'"
  shows "log_of_sb s'" "log_inv s'" "lh_n s' = 0" "busyset s' = {}" "blk s' = memdisk s'" "disksize s' = disksize s"
    "log_outstanding s' = log_outstanding s" "log_committing s' = log_committing s" "log_size s' = sb_logsize (memdisk s)"
    "log_start s' = sb_start (memdisk s)"
    "memdisk s' = replay (memdisk s) (recovery_writes (sb_start (memdisk s)) (memdisk s))"
    "wtrace s' = wtrace s @ recovery_writes (sb_start (memdisk s)) (memdisk s)"
    "memdisk s' 1 = memdisk s 1"
proof -
  show s': "log_inv s'" "lh_n s' = 0" "busyset s' = {}" "blk s' = memdisk s'" "disksize s' = disksize s"
    "log_outstanding s' = log_outstanding s" "log_committing s' = log_committing s" "log_size s' = sb_logsize (memdisk s)"
    "log_start s' = sb_start (memdisk s)"
    "memdisk s' = replay (memdisk s) (recovery_writes (sb_start (memdisk s)) (memdisk s))"
    "wtrace s' = wtrace s @ recovery_writes (sb_start (memdisk s)) (memdisk s)"
    using boot_spec [OF assms(1-4)] assms(6) by auto
  have "1 \<notin> fst ` set (recovery_writes (sb_start (memdisk s)) (memdisk s))"
    using assms(3,5) by (auto simp: recovery_writes_def sb_ok_def) (metis nth_mem)
  then show "memdisk s' 1 = memdisk s 1" using s'(10) by (simp add: replay_other)
  then show "log_of_sb s'"
    using s' assms(3) by (simp add: log_of_sb_def sb_start_def sb_logsize_def sb_ok_def logged_def)
qed

lemma demo_boot:
  obtains s where "kseq binit initlog (loaded demo_disk 64) = Done () s" "log_inv s" "log_of_sb s" "busyset s = {}"
    "lh_n s = 0" "log_outstanding s = 0" "\<not> log_committing s" "disksize s = 64" "log_start s = 34" "log_size s = 30"
    "\<And>n. n \<noteq> 34 \<Longrightarrow> memdisk s n = demo_disk n" "blk s = memdisk s"
proof -
  have l: "memdisk (loaded demo_disk 64) = demo_disk" "disksize (loaded demo_disk 64) = 64"
    by (simp_all add: loaded_def)
  then have ok: "sb_ok (memdisk (loaded demo_disk 64)) (disksize (loaded demo_disk 64))"
    "head_ok (memdisk (loaded demo_disk 64)) (disksize (loaded demo_disk 64))" using demo_facts(3,4) by auto
  then obtain s where s: "kseq binit initlog (loaded demo_disk 64) = Done () s"
    using boot_spec [OF demo_facts(1,2)] by auto
  have hs: "head_sectors (demo_disk 34) = []"
    by (simp add: head_sectors_def demo_disk_def get32_def slice_def bytes_u32_def BSIZE_def)
  then have rw: "recovery_writes 34 demo_disk = [(34, head_bytes 0 [] (demo_disk 34))]"
    by (simp add: recovery_writes_def)
  note b = log_of_sb_boot [OF demo_facts(1,2) ok _ s, unfolded l demo_facts(5,6) hs rw, simplified]
  show ?thesis by (rule that [OF s]) (use b in \<open>auto simp: loaded_def\<close>)
qed

lemma op_crash_recovery:
  assumes "log_inv s" "busyset s = {}" "log_of_sb s"
    and t: "fresh_cache t" "length (lh_sector t) = LOGSIZE" "disksize t = disksize s"
      "memdisk t = replay (memdisk s) (take k (op_writes s))"
  shows "\<exists>t'. kseq binit initlog t = Done () t' \<and> log_inv t' \<and> log_of_sb t' \<and> lh_n t' = 0 \<and>
    ((\<forall>n. \<not> in_log s n \<longrightarrow> memdisk t' n = memdisk s n) \<or> (\<forall>n. \<not> in_log s n \<longrightarrow> memdisk t' n = blk s n))"
proof (cases "0 < lh_n s")
  case True
  then have m: "memdisk t = replay (memdisk s) (take k (commit_writes s))" using t(4) by (simp add: op_writes_def)
  from crash_recovery [OF assms(1,2) True assms(3) t(1-3) m] show ?thesis
    by (cases "k \<le> nat (lh_n s)") auto
next
  case False
  then have m: "memdisk t = memdisk s" using t(4) by (simp add: op_writes_def)
  have h: "get32 0 (memdisk s (log_start s)) = 0" "log_start s = sb_start (memdisk s)" "log_geom s"
    using assms by (auto simp: log_inv_def log_of_sb_def)
  then have hs: "head_sectors (memdisk s (sb_start (memdisk s))) = []" by (simp add: head_sectors_def)
  have ok: "sb_ok (memdisk t) (disksize t)" "head_ok (memdisk t) (disksize t)"
    using assms(3) h hs m t(3) by (auto simp: log_of_sb_def head_ok_def log_geom_def)
  from boot_spec [OF t(1,2) ok] obtain t' where t': "kseq binit initlog t = Done () t'" by auto
  note b = log_of_sb_boot [OF t(1,2) ok _ t']
  have "n \<noteq> log_start s" if "\<not> in_log s n" for n using that log_start_disk [OF h(3)] by auto
  then have "\<forall>n. \<not> in_log s n \<longrightarrow> memdisk t' n = memdisk s n"
    using b(11) hs m h(2) by (auto simp: recovery_writes_def)
  then show ?thesis using b t' hs m by auto
qed

text \<open>Every sector write is a whole block, so the disk keeps its shape.\<close>

lemma op_writes_length:
  assumes "log_inv s" "w \<in> set (op_writes s)"
  shows "length (snd w) = BSIZE"
proof -
  have "bio_inv s" "lh_n s \<le> int LOGSIZE" using assms(1) by (auto simp: log_inv_def log_geom_def)
  then have "length (blk s n) = BSIZE" "length (head_block s) = BSIZE"
    "length (head_bytes 0 (lh_sector s) (head_block s)) = BSIZE" for n
    by (simp_all add: bio_inv_blk_length head_block_def head_bytes(1))
  then show ?thesis
    using assms(2) by (auto simp: op_writes_def commit_writes_def log_writes_def split: if_splits)
qed

lemma replay_length:
  "\<forall>n. length (d n) = BSIZE \<Longrightarrow> \<forall>w \<in> set ws. length (snd w) = BSIZE \<Longrightarrow> length (replay d ws n) = BSIZE"
  by (induction ws arbitrary: d) auto

section \<open>Properties\<close>

text \<open>
  C1. A file system operation is atomic across a power failure. Take a quiet log on a disk
  whose superblock describes it, and run \<open>begin_op\<close>, up to \<open>MAXOPBLOCKS\<close> logged block updates and
  \<open>end_op\<close>. The operation returns, the disk then holds the updated blocks, and if the machine
  stops after any number \<open>k\<close> of the operation's sector writes and comes up again on the disk it
  left, \<open>initlog\<close> returns with a usable log and a disk that outside the log area is either
  exactly the old one or exactly the updated one.
\<close>

theorem transaction_crash_atomic:
  fixes s :: "'z lstate_scheme"
  assumes "log_inv s" and "log_of_sb s" and "busyset s = {}" and "lh_n s = 0"
    and "log_outstanding s = 0" and "\<not> log_committing s"
    and "length us \<le> MAXOPBLOCKS" and "int (length us) < log_size s"
    and "\<forall>u \<in> set us. upd_ok s u \<and> fst u \<noteq> 1"
  shows "\<exists>s' ws. transaction us s = Done () s' \<and> log_inv s' \<and> lh_n s' = 0 \<and> wtrace s' = wtrace s @ ws \<and>
    (\<forall>w \<in> set ws. length (snd w) = BSIZE) \<and>
    (\<forall>n. \<not> in_log s n \<longrightarrow> memdisk s' n = tx_effect us (memdisk s) n \<and> blk s' n = memdisk s' n) \<and>
    (\<forall>k (t :: 'y lstate_scheme). fresh_cache t \<and> length (lh_sector t) = LOGSIZE \<and> disksize t = disksize s \<and>
         memdisk t = replay (memdisk s) (take k ws) \<longrightarrow>
       (\<exists>t'. kseq binit initlog t = Done () t' \<and> log_inv t' \<and> log_of_sb t' \<and> lh_n t' = 0 \<and>
         ((\<forall>n. \<not> in_log s n \<longrightarrow> memdisk t' n = memdisk s n) \<or>
          (\<forall>n. \<not> in_log s n \<longrightarrow> memdisk t' n = tx_effect us (memdisk s) n))))"
proof -
  obtain s1 :: "'z lstate_scheme" and s' where s': "transaction us s = Done () s'" "log_inv s'" "lh_n s' = 0" "busyset s' = {}"
    "log_inv s1" "busyset s1 = {}" "memdisk s1 = memdisk s" "blk s1 = tx_effect us (memdisk s)"
    "disksize s1 = disksize s" "log_start s1 = log_start s" "log_size s1 = log_size s"
    "set (logged s1) = fst ` set us"
    "memdisk s' = replay (memdisk s) (op_writes s1)" "wtrace s' = wtrace s @ op_writes s1"
    using transaction_spec [of s us] assms by auto
  have il: "in_log s1 n = in_log s n" for n by (simp add: in_log_def s')
  have l1: "log_of_sb s1" using assms(2,9) s' by (auto simp: log_of_sb_def)
  have "memdisk s' n = tx_effect us (memdisk s) n" if "\<not> in_log s n" for n
    using replay_op_writes [OF s'(5,6), of n] that s' il by simp
  moreover have "blk s' n = memdisk s' n" for n
    using bc.synced [of s' n] s'(2-4) by (auto simp: log_inv_def logged_def)
  moreover note op_writes_length [OF s'(5)]
  moreover note op_crash_recovery [OF s'(5,6) l1, unfolded il s'(7-9)]
  ultimately show ?thesis
    using s'(1-3,14) by (intro exI [of _ s'] exI [of _ "op_writes s1"] conjI allI impI) auto
qed

theorem transaction_crash_atomic_witness:
  "\<exists>s s' ws. kseq binit initlog (loaded demo_disk 64) = Done () s \<and>
     transaction [(3, put32 0 7), (5, put32 8 9)] s = Done () s' \<and> wtrace s' = wtrace s @ ws \<and>
     get32 0 (memdisk s' 3) = 7 \<and>
     (\<forall>k. \<exists>t'. kseq binit initlog (loaded (replay (memdisk s) (take k ws)) 64) = Done () t' \<and>
       (get32 0 (memdisk t' 3) = 0 \<and> get32 8 (memdisk t' 5) = 0 \<or>
        get32 0 (memdisk t' 3) = 7 \<and> get32 8 (memdisk t' 5) = 9))"
proof -
  let ?us = "[(3, put32 0 7), (5, put32 8 9)] :: (uint \<times> (uchar list \<Rightarrow> uchar list)) list"
  obtain s where b: "kseq binit initlog (loaded demo_disk 64) = Done () s" "log_inv s" "log_of_sb s" "busyset s = {}"
    "lh_n s = 0" "log_outstanding s = 0" "\<not> log_committing s" "disksize s = 64" "log_start s = 34" "log_size s = 30"
    "\<And>n. n \<noteq> 34 \<Longrightarrow> memdisk s n = demo_disk n" "blk s = memdisk s"
    by (rule demo_boot) blast
  have n: "\<not> in_log s 3" "\<not> in_log s 5" using b by (simp_all add: in_log_def)
  have m: "memdisk s 3 = replicate BSIZE 0" "memdisk s 5 = replicate BSIZE 0"
    using b(11) by (simp_all add: demo_disk_def)
  have z: "get32 0 (replicate BSIZE 0) = 0" "get32 8 (replicate BSIZE 0) = 0"
    by (simp_all add: get32_def slice_def bytes_u32_def BSIZE_def)
  have e: "get32 0 (tx_effect ?us (memdisk s) 3) = 7" "get32 8 (tx_effect ?us (memdisk s) 5) = 9"
    by (simp_all add: m byte_simps BSIZE_def)
  have u: "\<forall>u \<in> set ?us. upd_ok s u \<and> fst u \<noteq> 1"
    using n b by (simp add: upd_ok_def byte_simps BSIZE_def)
  from transaction_crash_atomic [OF b(2-7) _ _ u, where ?'y = unit] obtain s' ws where
    t: "transaction ?us s = Done () s'" "log_inv s'" "wtrace s' = wtrace s @ ws"
      "\<forall>w \<in> set ws. length (snd w) = BSIZE"
      "\<forall>n. \<not> in_log s n \<longrightarrow> memdisk s' n = tx_effect ?us (memdisk s) n"
      and r: "\<forall>k (t :: lstate). fresh_cache t \<and> length (lh_sector t) = LOGSIZE \<and> disksize t = disksize s \<and>
         memdisk t = replay (memdisk s) (take k ws) \<longrightarrow>
       (\<exists>t'. kseq binit initlog t = Done () t' \<and> log_inv t' \<and> log_of_sb t' \<and> lh_n t' = 0 \<and>
         ((\<forall>n. \<not> in_log s n \<longrightarrow> memdisk t' n = memdisk s n) \<or>
          (\<forall>n. \<not> in_log s n \<longrightarrow> memdisk t' n = tx_effect ?us (memdisk s) n)))"
    using b(10) by (auto simp: param_defs)
  have "\<exists>t'. kseq binit initlog (loaded (replay (memdisk s) (take k ws)) 64) = Done () t' \<and>
       (get32 0 (memdisk t' 3) = 0 \<and> get32 8 (memdisk t' 5) = 0 \<or>
        get32 0 (memdisk t' 3) = 7 \<and> get32 8 (memdisk t' 5) = 9)" for k
  proof -
    let ?t = "loaded (replay (memdisk s) (take k ws)) 64"
    have "length (replay (memdisk s) (take k ws) n) = BSIZE" for n
      using t(4) b(2) by (intro replay_length) (auto simp: log_inv_def bio_inv_def dest: in_set_takeD)
    then have "fresh_cache ?t \<and> length (lh_sector ?t) = LOGSIZE \<and> disksize ?t = disksize s \<and>
         memdisk ?t = replay (memdisk s) (take k ws)"
      by (simp add: fresh_cache_def loaded_def static_buf_def b)
    from r [rule_format, OF this] n m z e show ?thesis by metis
  qed
  with b(1) t n(1) e(1) show ?thesis by auto
qed

lemma recovery_prefix:
  assumes "sb_ok d nsect" "head_ok d nsect" "1 \<notin> set (head_sectors (d (sb_start d)))"
    and k: "k \<le> length (head_sectors (d (sb_start d)))"
  defines "d' \<equiv> replay d (take k (recovery_writes (sb_start d) d))"
  shows "sb_start d' = sb_start d" "sb_logsize d' = sb_logsize d" "d' (sb_start d) = d (sb_start d)"
    "recovery_writes (sb_start d) d' = recovery_writes (sb_start d) d"
proof -
  let ?st = "sb_start d" and ?hs = "head_sectors (d (sb_start d))"
  let ?iw = "map (\<lambda>i. (?hs ! i, d (?st + of_nat i + 1))) [0..<length ?hs]"
  have d': "d' = replay d (take k ?iw)" using k by (simp add: d'_def recovery_writes_def)
  have keep: "d' n = d n" if "n \<notin> set ?hs" for n
    unfolding d' using that by (intro replay_other) (auto dest!: in_set_takeD)
  have area: "n \<notin> set ?hs" if "?st \<le> n" "uint n < uint ?st + sb_logsize d" for n
    using assms(2) that unfolding head_ok_def by blast
  show st: "sb_start d' = ?st" "sb_logsize d' = sb_logsize d"
    using keep [OF assms(3)] by (simp_all add: sb_start_def sb_logsize_def)
  show hd: "d' ?st = d ?st" using assms(1) by (intro keep area) (auto simp: sb_ok_def)
  have "d' (?st + of_nat i + 1) = d (?st + of_nat i + 1)" if "i < length ?hs" for i
  proof -
    have "int (Suc i) < sb_logsize d" using that assms(2) by (auto simp: head_ok_def head_sectors_def)
    moreover from this have "uint ?st + int (Suc i) < 2 ^ 32"
      using assms(1) uint_bounded [of nsect] by (auto simp: sb_ok_def)
    ultimately have "uint (?st + of_nat (Suc i)) = uint ?st + int (Suc i)"
      "uint ?st + int (Suc i) < uint ?st + sb_logsize d" by (simp_all only: uint_add_of_nat)
    then have "d' (?st + of_nat (Suc i)) = d (?st + of_nat (Suc i))"
      by (intro keep area) (simp_all add: word_le_def del: of_nat_Suc)
    then show ?thesis by (simp add: ac_simps)
  qed
  then show "recovery_writes ?st d' = recovery_writes ?st d" by (simp add: recovery_writes_def hd)
qed

text \<open>
  C2. Recovery can itself be interrupted. Boot on a disk whose superblock and log header are
  well formed (whatever the header says was committed); if the machine stops after any number
  of recovery's sector writes and boots again, the second recovery ends with the same
  disk as an uninterrupted one, except for the unused entries of the cleared log header.
\<close>

theorem recovery_crash_idempotent:
  assumes s: "fresh_cache s" "length (lh_sector s) = LOGSIZE" "sb_ok (memdisk s) (disksize s)"
    "head_ok (memdisk s) (disksize s)" "1 \<notin> set (head_sectors (memdisk s (sb_start (memdisk s))))"
    and run: "kseq binit initlog s = Done () s'" "wtrace s' = wtrace s @ ws"
    and t: "fresh_cache t" "length (lh_sector t) = LOGSIZE" "disksize t = disksize s"
      "memdisk t = replay (memdisk s) (take k ws)"
  shows "\<exists>t'. kseq binit initlog t = Done () t' \<and> log_inv t' \<and> lh_n t' = 0 \<and> log_start t' = log_start s' \<and>
    (\<forall>n. n \<noteq> log_start s' \<longrightarrow> memdisk t' n = memdisk s' n)"
proof -
  note b = log_of_sb_boot [OF s run(1)]
  let ?st = "sb_start (memdisk s)"
  have ws: "ws = recovery_writes ?st (memdisk s)" using b(12) run(2) by simp
  show ?thesis
  proof (cases "k \<le> length (head_sectors (memdisk s ?st))")
    case True
    note p = recovery_prefix [OF s(3-5) True, folded ws, folded t(4)]
    have "sb_ok (memdisk t) (disksize t)" "head_ok (memdisk t) (disksize t)"
      using s(3,4) p t(3) by (simp_all add: sb_ok_def head_ok_def)
    from boot_spec [OF t(1,2) this] show ?thesis
      using p b(10,11) replay_absorb [of "memdisk s" k ws] t(4) ws by auto
  next
    case False
    then have m: "memdisk t = memdisk s'" using b(11) ws t(4) by (simp add: recovery_writes_def)
    have h: "get32 0 (memdisk s' ?st) = 0" "sb_start (memdisk s') = ?st" "sb_logsize (memdisk s') = sb_logsize (memdisk s)"
      using b(2,10,13) by (simp_all add: log_inv_def sb_start_def sb_logsize_def)
    then have hs: "head_sectors (memdisk s' ?st) = []" by (simp add: head_sectors_def)
    have "sb_ok (memdisk t) (disksize t)" "head_ok (memdisk t) (disksize t)"
      using s(3) h hs m t(3) by (simp_all add: sb_ok_def head_ok_def)
    from boot_spec [OF t(1,2) this] show ?thesis
      using b(10) h(2) hs m by (auto simp: recovery_writes_def)
  qed
qed

theorem recovery_crash_idempotent_witness:
  "\<exists>s' ws. kseq binit initlog (loaded demo_committed 64) = Done () s' \<and> wtrace s' = ws \<and> length ws = 2 \<and>
     (\<forall>k. \<exists>t'. kseq binit initlog (loaded (replay demo_committed (take k ws)) 64) = Done () t' \<and>
        memdisk t' 3 = replicate BSIZE 7)"
proof -
  have z: "length (replicate BSIZE (0 :: uchar)) = BSIZE" by simp
  have hd: "get32 0 (demo_committed 34) = 1" "head_sectors (demo_committed 34) = [3]"
    using head_bytes [OF z, where n = 1 and secs = "[3]"]
    by (simp_all add: demo_committed_def head_sectors_def param_defs)
  have "demo_committed 1 = demo_disk 1" by (simp add: demo_committed_def)
  then have sb: "sb_start demo_committed = 34" "sb_logsize demo_committed = 30" "sb_ok demo_committed 64"
    using demo_facts(3,5,6) by (simp_all add: sb_start_def sb_logsize_def sb_ok_def)
  have len: "length (demo_committed n) = BSIZE" for n
    using head_bytes(1) [OF z, of 1 "[3]"] by (simp add: demo_committed_def demo_disk_def byte_simps param_defs)
  let ?s = "loaded demo_committed 64"
  have s: "fresh_cache ?s" "length (lh_sector ?s) = LOGSIZE" "sb_ok (memdisk ?s) (disksize ?s)"
    "head_ok (memdisk ?s) (disksize ?s)" "1 \<notin> set (head_sectors (memdisk ?s (sb_start (memdisk ?s))))"
    using len sb hd by (simp_all add: fresh_cache_def loaded_def static_buf_def head_ok_def)
  from boot_spec [OF s(1-4)] obtain s' where s': "kseq binit initlog ?s = Done () s'"
    "memdisk s' = replay demo_committed (recovery_writes 34 demo_committed)"
    "wtrace s' = recovery_writes 34 demo_committed" "log_start s' = 34"
    by (auto simp: sb) (auto simp: loaded_def sb)
  have rw: "recovery_writes 34 demo_committed = [(3, replicate BSIZE 7), (34, head_bytes 0 [] (demo_committed 34))]"
    by (simp add: recovery_writes_def hd) (simp add: demo_committed_def)
  have "\<exists>t'. kseq binit initlog (loaded (replay demo_committed (take k (wtrace s'))) 64) = Done () t' \<and>
        memdisk t' 3 = replicate BSIZE 7" for k
  proof -
    let ?t = "loaded (replay demo_committed (take k (wtrace s'))) 64"
    have "length (replay demo_committed (take k (wtrace s')) n) = BSIZE" for n
      using len head_bytes(1) [OF len, of 0 "[]"] rw s'(3) by (intro replay_length) (auto dest!: in_set_takeD)
    then have t: "fresh_cache ?t" "length (lh_sector ?t) = LOGSIZE" "disksize ?t = disksize ?s"
      "memdisk ?t = replay (memdisk ?s) (take k (wtrace s'))"
      by (simp_all add: fresh_cache_def loaded_def static_buf_def)
    have w: "wtrace s' = wtrace ?s @ wtrace s'" by (simp add: loaded_def)
    show ?thesis
      using recovery_crash_idempotent [OF s s'(1) w t] s'(2,4) rw by auto
  qed
  with s' rw show ?thesis by auto
qed

lemma log_write_full:
  "lh_n s \<ge> log_size s - 1 \<Longrightarrow> log_write b s = Panic ''too big a transaction''"
  by (simp add: log_write_def)

lemma tx_update_full:
  assumes "log_inv s" "busyset s = {}" "n < disksize s" "lh_n s \<ge> log_size s - 1"
  shows "tx_update n f s = Panic ''too big a transaction''"
proof -
  have "bio_inv s" using assms(1) by (simp add: log_inv_def)
  then obtain b s1 where s1: "bread ROOTDEV n s = Done b s1" "bio_inv s1" "bframe s s1" "holds s1 b n"
    using bc.rd_law [of s n] assms(2,3) card_busy_dirty [OF assms(1,2)] by fastforce
  then have "set_data b f s1 = Done () (upd_buf b (\<lambda>bb. bb\<lparr>b_data := f (b_data bb)\<rparr>) s1)"
    by (simp add: set_data_def kop_simps)
  moreover have "lh_n (upd_buf b g s1) = lh_n s" "log_size (upd_buf b g s1) = log_size s" for g
    using bframe_log [OF s1(3)] by (simp_all add: upd_buf_def)
  ultimately show ?thesis
    using s1(1) assms(4) log_write_full [of "upd_buf b (\<lambda>bb. bb\<lparr>b_data := f (b_data bb)\<rparr>) s1"]
    by (simp add: tx_update_def kop_simps)
qed

text \<open>
  C39. The reservation of \<open>begin_op\<close> and the limit of \<open>log_write\<close> disagree by one block on the log
  that mkfs makes (\<open>nlog = LOGSIZE\<close>): \<open>begin_op\<close> admits three operations of \<open>MAXOPBLOCKS\<close> blocks each,
  and when they log \<open>LOGSIZE\<close> different blocks between them, every update before the last returns, the log then
  holds the blocks of exactly these updates, and the last one panics with "too big a transaction".
\<close>

theorem log_reservation_one_short:
  assumes "log_inv s" and "busyset s = {}" and "lh_n s = 0" and "log_outstanding s = 0"
    and "\<not> log_committing s" and "log_size s = int LOGSIZE"
    and "distinct ns" and "length ns = 3 * MAXOPBLOCKS" and "\<forall>n \<in> set ns. n < disksize s \<and> \<not> in_log s n"
  shows "kfor (\<lambda>_. begin_op) [0..<3] s = Done () (s\<lparr>log_outstanding := 3\<rparr>) \<and>
    (\<exists>u. kfor (\<lambda>n. tx_update n id) (butlast ns) (s\<lparr>log_outstanding := 3\<rparr>) = Done () u \<and>
       lh_n u = int LOGSIZE - 1 \<and> set (logged u) = set (butlast ns) \<and> log_outstanding u = 3 \<and>
       tx_update (last ns) id u = Panic ''too big a transaction'') \<and>
    kfor (\<lambda>n. tx_update n id) ns (s\<lparr>log_outstanding := 3\<rparr>) = Panic ''too big a transaction''"
proof -
  let ?t = "s\<lparr>log_outstanding := 3\<rparr>"
  have "[0..<3] = [0, 1, 2 :: nat]" by (simp add: upt_rec)
  then have adm: "kfor (\<lambda>_. begin_op) [0..<3] s = Done () ?t"
    using assms(3-5) by (simp add: kop_simps begin_op_def param_defs)
  let ?ms = "take 29 ns"
  let ?us = "map (\<lambda>n. (n, id)) ?ms :: (uint \<times> (uchar list \<Rightarrow> uchar list)) list"
  obtain n where n: "ns = ?ms @ [n]" "n \<in> set ns"
    using assms(8) id_take_nth_drop [of 29 ns] by (auto simp: param_defs)
  have lm: "length ?ms = 29" "distinct ?ms" using assms(7,8) by (auto simp: param_defs)
  have ok: "\<forall>u \<in> set ?us. upd_ok ?t u"
    using assms(9) by (auto simp: upd_ok_def in_log_def dest!: in_set_takeD)
  have "\<exists>s'. kfor (\<lambda>(n, f). tx_update n f) ?us ?t = Done () s' \<and> log_inv s' \<and> lframe ?t s' \<and>
    blk s' = tx_effect ?us (blk ?t) \<and> memdisk s' = memdisk ?t \<and> wtrace s' = wtrace ?t \<and> busyset s' = {} \<and>
    set (logged s') = set (logged ?t) \<union> fst ` set ?us"
    using assms lm ok by (intro tx_loop) (simp_all add: param_defs)
  then obtain u where u: "kfor (\<lambda>(n, f). tx_update n f) ?us ?t = Done () u" "log_inv u" "lframe ?t u"
    "busyset u = {}" "set (logged u) = set (logged ?t) \<union> fst ` set ?us"
    by blast
  have e: "logged ?t = []" using assms(3) by (simp add: logged_def)
  then have "card (set (logged u)) = 29"
    using u(5) lm distinct_card [of ?ms] by (simp add: image_image)
  moreover have "card (set (logged u)) = nat (lh_n u)"
    using u(2) length_logged [OF u(2)] distinct_card [of "logged u"] by (simp add: log_inv_def)
  ultimately have c: "nat (lh_n u) = 29" by simp
  then have full: "lh_n u \<ge> log_size u - 1" using lframe_log [OF u(3)] assms(6) by (simp add: param_defs)
  have k: "kfor (\<lambda>n. tx_update n id) ms w = kfor (\<lambda>(n, f). tx_update n f) (map (\<lambda>n. (n, id)) ms) w" for ms and w :: "'a lstate_scheme"
    by (induction ms arbitrary: w) (simp_all add: kseq_def kbind_def split: outcome.split)
  have "tx_update n id u = Panic ''too big a transaction''"
    using tx_update_full [OF u(2,4) _ full] n(2) assms(9) lframe_log [OF u(3)] by simp
  moreover have "kfor (\<lambda>n. tx_update n id) ns ?t = Panic ''too big a transaction''"
    using u(1) calculation by (subst n(1)) (simp add: kfor_append kop_simps k)
  moreover have "butlast ns = ?ms" "last ns = n" by (subst n(1), simp)+
  moreover have "set (logged u) = set ?ms" using u(5) e by (simp add: image_image)
  ultimately show ?thesis using adm u(1) c lframe_log [OF u(3)]
    by (intro conjI exI [of _ u]) (simp_all add: k param_defs)
qed

theorem log_reservation_one_short_witness:
  "\<exists>s. kseq binit initlog (loaded demo_disk 64) = Done () s \<and>
     kfor (\<lambda>_. begin_op) [0..<3] s = Done () (s\<lparr>log_outstanding := 3\<rparr>) \<and>
     (\<exists>u. kfor (\<lambda>n. tx_update n id) (map of_nat [2..<31]) (s\<lparr>log_outstanding := 3\<rparr>) = Done () u \<and>
       lh_n u = 29 \<and> tx_update 31 id u = Panic ''too big a transaction'')"
proof -
  obtain s where b: "kseq binit initlog (loaded demo_disk 64) = Done () s" "log_inv s" "log_of_sb s" "busyset s = {}"
    "lh_n s = 0" "log_outstanding s = 0" "\<not> log_committing s" "disksize s = 64" "log_start s = 34" "log_size s = 30"
    by (rule demo_boot) blast
  have ns: "(map of_nat [2..<32] :: uint list) = [2,3,4,5,6,7,8,9,10,11,12,13,14,15,16,17,18,19,20,21,22,23,24,25,26,27,28,29,30,31]"
    by (simp add: upt_rec)
  have "log_size s = int LOGSIZE" using b(10) by (simp add: param_defs)
  moreover have "distinct (map of_nat [2..<32] :: uint list)" unfolding ns by simp
  moreover have "length (map of_nat [2..<32] :: uint list) = 3 * MAXOPBLOCKS" by (simp add: param_defs)
  moreover have "\<forall>n \<in> set (map of_nat [2..<32] :: uint list). n < disksize s \<and> \<not> in_log s n"
    unfolding ns by (simp add: in_log_def b(8-10))
  moreover have "butlast (map of_nat [2..<32] :: uint list) = map of_nat [2..<31]" "last (map of_nat [2..<32] :: uint list) = 31"
    by (simp_all add: upt_rec)
  ultimately show ?thesis
    using log_reservation_one_short [OF b(2,4-7), of "map of_nat [2..<32]"] b(1) by (simp only: param_defs) auto
qed

end
