(* ===== verification/Inode.thy ===== *)
theory Inode
  imports Fslog
begin

text \<open>
  Blocks and inodes (fs.c up to \<open>writei\<close>): the free-block bitmap, the inode cache, the block map of a
  file and reading and writing file contents. Every function of that part of fs.c is here.

  An inode pointer is an index into \<open>icache\<close>. The on-disk inode is the 64 bytes at its place in an
  inode block, with the fields of \<open>struct dinode\<close> at their C offsets. The buffer that \<open>readi\<close> fills
  and \<open>writei\<close> reads is the list of its bytes; the device switch is an argument \<open>dsw\<close> of the two
  functions that use it. \<open>icache.lock\<close> makes each table operation atomic.
\<close>

section \<open>Data\<close>

definition NDIRECT :: nat where "NDIRECT = 12"

definition NINDIRECT :: nat where "NINDIRECT = BSIZE div 4"

definition MAXFILE :: nat where "MAXFILE = NDIRECT + NINDIRECT"

definition IPB :: uint where "IPB = of_nat BSIZE div 64"

definition IBLOCK :: "uint \<Rightarrow> uint" where "IBLOCK i = i div IPB + 2"

definition BPB :: uint where "BPB = of_nat BSIZE * 8"

definition BBLOCK :: "uint \<Rightarrow> uint \<Rightarrow> uint" where "BBLOCK b ninodes = b div BPB + ninodes div IPB + 3"

definition ROOTINO :: uint where "ROOTINO = 1"

definition T_DIR :: cshort where "T_DIR = 1"

definition T_FILE :: cshort where "T_FILE = 2"

definition T_DEV :: cshort where "T_DEV = 3"

lemmas fs_consts = NDIRECT_def NINDIRECT_def MAXFILE_def IPB_def IBLOCK_def BPB_def BBLOCK_def
  ROOTINO_def T_DIR_def T_FILE_def T_DEV_def BSIZE_def

record inode =
  i_dev :: uint
  i_inum :: uint
  i_ref :: int
  i_busy :: bool
  i_valid :: bool
  i_type :: cshort
  i_major :: cshort
  i_minor :: cshort
  i_nlink :: cshort
  i_size :: uint
  i_addrs :: "uint list"

record dinode =
  d_type :: cshort
  d_major :: cshort
  d_minor :: cshort
  d_nlink :: cshort
  d_size :: uint
  d_addrs :: "uint list"

record stat =
  st_type :: cshort
  st_dev :: uint
  st_ino :: uint
  st_nlink :: cshort
  st_size :: uint

record istate = lstate +
  icache :: "nat \<Rightarrow> inode"

definition upd_inode :: "nat \<Rightarrow> (inode \<Rightarrow> inode) \<Rightarrow> 'z istate_scheme \<Rightarrow> 'z istate_scheme" where
  "upd_inode i f s = s\<lparr>icache := (icache s)(i := f (icache s i))\<rparr>"

definition set_inode :: "nat \<Rightarrow> (inode \<Rightarrow> inode) \<Rightarrow> ('z istate_scheme, unit) kop" where
  "set_inode i f = kmodify (upd_inode i f)"

definition get_inode :: "nat \<Rightarrow> ('z istate_scheme, inode) kop" where
  "get_inode i = kget (\<lambda>s. icache s i)"

text \<open>\<open>ip->addrs[k]\<close>; an access beyond the \<open>NDIRECT + 1\<close> entries is a \<open>Fault\<close>.\<close>

definition get_addr :: "nat \<Rightarrow> nat \<Rightarrow> ('z istate_scheme, uint) kop" where
  "get_addr i k = (if k < NDIRECT + 1 then kbind (get_inode i) (\<lambda>ip. kret (i_addrs ip ! k)) else kfault)"

definition set_addr :: "nat \<Rightarrow> nat \<Rightarrow> uint \<Rightarrow> ('z istate_scheme, unit) kop" where
  "set_addr i k a = (if k < NDIRECT + 1 then set_inode i (\<lambda>ip. ip\<lparr>i_addrs := (i_addrs ip)[k := a]\<rparr>) else kfault)"

text \<open>The C layout of \<open>struct dinode\<close>: four shorts, the size, thirteen block addresses.\<close>

definition get_dinode :: "nat \<Rightarrow> uchar list \<Rightarrow> dinode" where
  "get_dinode off x = \<lparr>d_type = get16 off x, d_major = get16 (off + 2) x, d_minor = get16 (off + 4) x,
     d_nlink = get16 (off + 6) x, d_size = get32 (off + 8) x,
     d_addrs = map (\<lambda>i. get32 (off + 12 + 4 * i) x) [0..<Suc NDIRECT]\<rparr>"

definition put_dinode :: "nat \<Rightarrow> dinode \<Rightarrow> uchar list \<Rightarrow> uchar list" where
  "put_dinode off d x =
     fold (\<lambda>i x. put32 (off + 12 + 4 * i) (d_addrs d ! i) x) [0..<Suc NDIRECT]
       (put32 (off + 8) (d_size d) (put16 (off + 6) (d_nlink d) (put16 (off + 4) (d_minor d)
         (put16 (off + 2) (d_major d) (put16 off (d_type d) x)))))"

definition dinode_off :: "uint \<Rightarrow> nat" where
  "dinode_off inum = 64 * unat (inum mod IPB)"

section \<open>Blocks\<close>

definition bzero :: "uint \<Rightarrow> uint \<Rightarrow> ('z lstate_scheme, unit) kop" where
  "bzero dev bno =
     kbind (bread dev bno) (\<lambda>bp.
     kseq (set_data bp (\<lambda>_. replicate BSIZE 0))
     (kseq (log_write bp)
     (brelse bp)))"

text \<open>Bit \<open>bi\<close> of a bitmap block: \<open>bp->data[bi/8] & (1 << (bi % 8))\<close>.\<close>

definition bmap_bit :: "uchar list \<Rightarrow> nat \<Rightarrow> bool" where
  "bmap_bit x bi \<longleftrightarrow> (x ! (bi div 8)) AND push_bit (bi mod 8) 1 \<noteq> 0"

definition bmap_set :: "nat \<Rightarrow> uchar list \<Rightarrow> uchar list" where
  "bmap_set bi x = blit (bi div 8) [(x ! (bi div 8)) OR push_bit (bi mod 8) 1] x"

definition bmap_clear :: "nat \<Rightarrow> uchar list \<Rightarrow> uchar list" where
  "bmap_clear bi x = blit (bi div 8) [(x ! (bi div 8)) AND NOT (push_bit (bi mod 8) 1)] x"

text \<open>The outer loop of \<open>balloc\<close> over the bitmap blocks; the fuel is their number.\<close>

fun balloc_loop :: "nat \<Rightarrow> uint \<Rightarrow> superblock \<Rightarrow> uint \<Rightarrow> ('z lstate_scheme, uint) kop" where
  "balloc_loop 0 dev sb b = (if b < sb_size sb then (\<lambda>s. Diverge) else kpanic ''balloc: out of blocks'')"
| "balloc_loop (Suc fuel) dev sb b =
     (if b < sb_size sb then
        kbind (bread dev (BBLOCK b (sb_ninodes sb))) (\<lambda>bp.
        kbind (get_data bp) (\<lambda>x.
        case first_slot (min (unat BPB) (unat (sb_size sb - b))) (\<lambda>bi. \<not> bmap_bit x bi) of
          Some bi \<Rightarrow>
            kseq (set_data bp (bmap_set bi))
            (kseq (log_write bp)
            (kseq (brelse bp)
            (kseq (bzero dev (b + of_nat bi))
            (kret (b + of_nat bi)))))
        | None \<Rightarrow>
            kseq (brelse bp)
            (balloc_loop fuel dev sb (b + BPB))))
      else kpanic ''balloc: out of blocks'')"

definition balloc :: "uint \<Rightarrow> ('z lstate_scheme, uint) kop" where
  "balloc dev =
     kbind (readsb dev) (\<lambda>sb.
     balloc_loop (unat (sb_size sb) div unat BPB + 1) dev sb 0)"

definition bfree :: "uint \<Rightarrow> uint \<Rightarrow> ('z lstate_scheme, unit) kop" where
  "bfree dev b =
     kbind (readsb dev) (\<lambda>sb.
     kbind (bread dev (BBLOCK b (sb_ninodes sb))) (\<lambda>bp.
     kbind (get_data bp) (\<lambda>x.
     let bi = unat (b mod BPB) in
     if \<not> bmap_bit x bi then kpanic ''freeing free block''
     else
       kseq (set_data bp (bmap_clear bi))
       (kseq (log_write bp)
       (brelse bp)))))"

section \<open>Inodes\<close>

definition iget :: "uint \<Rightarrow> uint \<Rightarrow> ('z istate_scheme, nat) kop" where
  "iget dev inum s =
     (case first_slot NINODE (\<lambda>i. i_ref (icache s i) > 0 \<and> i_dev (icache s i) = dev \<and> i_inum (icache s i) = inum) of
        Some i \<Rightarrow> Done i (upd_inode i (\<lambda>ip. ip\<lparr>i_ref := i_ref ip + 1\<rparr>) s)
      | None \<Rightarrow>
          (case first_slot NINODE (\<lambda>i. i_ref (icache s i) = 0) of
             None \<Rightarrow> Panic ''iget: no inodes''
           | Some i \<Rightarrow> Done i (upd_inode i (\<lambda>ip. ip\<lparr>i_dev := dev, i_inum := inum, i_ref := 1,
               i_busy := False, i_valid := False\<rparr>) s)))"

definition idup :: "nat \<Rightarrow> ('z istate_scheme, nat) kop" where
  "idup i = kseq (set_inode i (\<lambda>ip. ip\<lparr>i_ref := i_ref ip + 1\<rparr>)) (kret i)"

text \<open>The scan of \<open>ialloc\<close> over the remaining inode numbers.\<close>

fun ialloc_scan :: "uint \<Rightarrow> cshort \<Rightarrow> uint list \<Rightarrow> ('z istate_scheme, nat) kop" where
  "ialloc_scan dev ty [] = kpanic ''ialloc: no inodes''"
| "ialloc_scan dev ty (inum # rest) =
     kbind (bread dev (IBLOCK inum)) (\<lambda>bp.
     kbind (get_data bp) (\<lambda>x.
     if get16 (dinode_off inum) x = 0 then
       kseq (set_data bp (\<lambda>x. put16 (dinode_off inum) ty (blit (dinode_off inum) (replicate 64 0) x)))
       (kseq (log_write bp)
       (kseq (brelse bp)
       (iget dev inum)))
     else
       kseq (brelse bp)
       (ialloc_scan dev ty rest)))"

definition ialloc :: "uint \<Rightarrow> cshort \<Rightarrow> ('z istate_scheme, nat) kop" where
  "ialloc dev ty =
     kbind (readsb dev) (\<lambda>sb.
     ialloc_scan dev ty (map of_nat [1..<unat (sb_ninodes sb)]))"

definition dinode_of :: "inode \<Rightarrow> dinode" where
  "dinode_of ip = \<lparr>d_type = i_type ip, d_major = i_major ip, d_minor = i_minor ip,
     d_nlink = i_nlink ip, d_size = i_size ip, d_addrs = i_addrs ip\<rparr>"

definition iupdate :: "nat \<Rightarrow> ('z istate_scheme, unit) kop" where
  "iupdate i =
     kbind (get_inode i) (\<lambda>ip.
     kbind (bread (i_dev ip) (IBLOCK (i_inum ip))) (\<lambda>bp.
     kseq (set_data bp (put_dinode (dinode_off (i_inum ip)) (dinode_of ip)))
     (kseq (log_write bp)
     (brelse bp))))"

definition load_inode :: "dinode \<Rightarrow> inode \<Rightarrow> inode" where
  "load_inode d ip = ip\<lparr>i_type := d_type d, i_major := d_major d, i_minor := d_minor d,
     i_nlink := d_nlink d, i_size := d_size d, i_addrs := d_addrs d\<rparr>"

definition ilock :: "nat \<Rightarrow> ('z istate_scheme, unit) kop" where
  "ilock i s =
     (if i_ref (icache s i) < 1 then Panic ''ilock''
      else if i_busy (icache s i) then sleep (ChInode i) s
      else
        kseq (set_inode i (\<lambda>ip. ip\<lparr>i_busy := True\<rparr>))
        (kbind (get_inode i) (\<lambda>ip.
         kwhen (\<not> i_valid ip)
           (kbind (bread (i_dev ip) (IBLOCK (i_inum ip))) (\<lambda>bp.
            kbind (get_data bp) (\<lambda>x.
            let d = get_dinode (dinode_off (i_inum ip)) x in
            kseq (set_inode i (load_inode d))
            (kseq (brelse bp)
            (kseq (set_inode i (\<lambda>ip. ip\<lparr>i_valid := True\<rparr>))
            (if d_type d = 0 then kpanic ''ilock: no type'' else kret ())))))))) s)"

definition iunlock :: "nat \<Rightarrow> ('z istate_scheme, unit) kop" where
  "iunlock i s =
     (if \<not> i_busy (icache s i) \<or> i_ref (icache s i) < 1 then Panic ''iunlock''
      else
        kseq (set_inode i (\<lambda>ip. ip\<lparr>i_busy := False\<rparr>))
        (wakeup (ChInode i)) s)"

definition itrunc_direct :: "nat \<Rightarrow> nat \<Rightarrow> ('z istate_scheme, unit) kop" where
  "itrunc_direct i k =
     kbind (get_inode i) (\<lambda>ip.
     kbind (get_addr i k) (\<lambda>addr.
     kwhen (addr \<noteq> 0)
       (kseq (bfree (i_dev ip) addr)
       (set_addr i k 0))))"

definition itrunc :: "nat \<Rightarrow> ('z istate_scheme, unit) kop" where
  "itrunc i =
     kseq (kfor (itrunc_direct i) [0..<NDIRECT])
     (kseq
       (kbind (get_inode i) (\<lambda>ip.
        kbind (get_addr i NDIRECT) (\<lambda>addr.
        kwhen (addr \<noteq> 0)
          (kbind (bread (i_dev ip) addr) (\<lambda>bp.
           kbind (get_data bp) (\<lambda>x.
           kseq (kfor (\<lambda>j. kwhen (get32 (4 * j) x \<noteq> 0) (bfree (i_dev ip) (get32 (4 * j) x))) [0..<NINDIRECT])
           (kseq (brelse bp)
           (kseq (bfree (i_dev ip) addr)
           (set_addr i NDIRECT 0)))))))))
     (kseq (set_inode i (\<lambda>ip. ip\<lparr>i_size := 0\<rparr>))
     (iupdate i)))"

definition iput :: "nat \<Rightarrow> ('z istate_scheme, unit) kop" where
  "iput i s =
     kseq
       (if i_ref (icache s i) = 1 \<and> i_valid (icache s i) \<and> i_nlink (icache s i) = 0 then
          if i_busy (icache s i) then kpanic ''iput busy''
          else
            kseq (set_inode i (\<lambda>ip. ip\<lparr>i_busy := True\<rparr>))
            (kseq (itrunc i)
            (kseq (set_inode i (\<lambda>ip. ip\<lparr>i_type := 0\<rparr>))
            (kseq (iupdate i)
            (kseq (set_inode i (\<lambda>ip. ip\<lparr>i_busy := False, i_valid := False\<rparr>))
            (wakeup (ChInode i))))))
        else kret ())
     (set_inode i (\<lambda>ip. ip\<lparr>i_ref := i_ref ip - 1\<rparr>)) s"

definition iunlockput :: "nat \<Rightarrow> ('z istate_scheme, unit) kop" where
  "iunlockput i = kseq (iunlock i) (iput i)"

section \<open>Contents\<close>

definition bmap :: "nat \<Rightarrow> uint \<Rightarrow> ('z istate_scheme, uint) kop" where
  "bmap i bn =
     kbind (get_inode i) (\<lambda>ip.
     if bn < of_nat NDIRECT then
       kbind (get_addr i (unat bn)) (\<lambda>addr.
       if addr = 0 then
         kbind (balloc (i_dev ip)) (\<lambda>addr.
         kseq (set_addr i (unat bn) addr)
         (kret addr))
       else kret addr)
     else
       let bn = bn - of_nat NDIRECT in
       if bn < of_nat NINDIRECT then
         kbind
           (kbind (get_addr i NDIRECT) (\<lambda>addr.
            if addr = 0 then
              kbind (balloc (i_dev ip)) (\<lambda>addr.
              kseq (set_addr i NDIRECT addr)
              (kret addr))
            else kret addr)) (\<lambda>ind.
         kbind (bread (i_dev ip) ind) (\<lambda>bp.
         kbind (get_data bp) (\<lambda>x.
         kbind
           (if get32 (4 * unat bn) x = 0 then
              kbind (balloc (i_dev ip)) (\<lambda>addr.
              kseq (set_data bp (put32 (4 * unat bn) addr))
              (kseq (log_write bp)
              (kret addr)))
            else kret (get32 (4 * unat bn) x)) (\<lambda>addr.
         kseq (brelse bp)
         (kret addr)))))
       else kpanic ''bmap: out of range'')"

definition stati :: "nat \<Rightarrow> ('z istate_scheme, stat) kop" where
  "stati i = kget (\<lambda>s. let ip = icache s i in
     \<lparr>st_type = i_type ip, st_dev = i_dev ip, st_ino = i_inum ip, st_nlink = i_nlink ip, st_size = i_size ip\<rparr>)"

text \<open>The number of bytes one iteration of \<open>readi\<close> or \<open>writei\<close> moves.\<close>

definition chunk :: "uint \<Rightarrow> uint \<Rightarrow> uint" where
  "chunk off n = min n (of_nat BSIZE - off mod of_nat BSIZE)"

lemma chunk_less: "n \<noteq> 0 \<Longrightarrow> unat (n - chunk off n) < unat n"
proof -
  assume n: "n \<noteq> 0"
  have m: "off mod 512 < 512" by (simp add: word_mod_less_divisor)
  then have "0 < 512 - off mod 512" by (simp add: word_less_nat_alt unat_sub_uint)
  with n have "0 < chunk off n" by (simp add: chunk_def BSIZE_def word_neq_0_conv min_def)
  moreover have "chunk off n \<le> n" by (simp add: chunk_def)
  ultimately show ?thesis by (simp add: unat_sub word_less_nat_alt word_le_nat_alt)
qed

text \<open>The copying loop of \<open>readi\<close>: \<open>n\<close> is what is left, the result the bytes copied.\<close>

function readi_loop :: "nat \<Rightarrow> uint \<Rightarrow> uint \<Rightarrow> ('z istate_scheme, uchar list) kop" where
  "readi_loop i off n =
     (if n = 0 then kret []
      else
        let m = chunk off n in
        kbind (get_inode i) (\<lambda>ip.
        kbind (bmap i (off div of_nat BSIZE)) (\<lambda>addr.
        kbind (bread (i_dev ip) addr) (\<lambda>bp.
        kbind (get_data bp) (\<lambda>x.
        kseq (brelse bp)
        (kbind (readi_loop i (off + m) (n - m)) (\<lambda>rest.
        kret (slice (unat (off mod of_nat BSIZE)) (unat m) x @ rest))))))))"
  by pat_completeness auto

termination
  by (relation "measure (\<lambda>(i, off, n). unat n)") (simp_all add: chunk_less)

text \<open>The part of \<open>readi\<close> for files and directories; the count it returns and the bytes.\<close>

definition readi_data :: "nat \<Rightarrow> uint \<Rightarrow> uint \<Rightarrow> ('z istate_scheme, cint \<times> uchar list) kop" where
  "readi_data i off n =
     kbind (get_inode i) (\<lambda>ip.
     if off > i_size ip \<or> off + n < off then kret (- 1, [])
     else
       let n = (if off + n > i_size ip then i_size ip - off else n) in
       kbind (readi_loop i off n) (\<lambda>x.
       kret (n, x)))"

text \<open>
  The device switch: for a major number the driver's \<open>read\<close> (the count asked for, the count
  returned and the bytes) and \<open>write\<close>, if it has them.
\<close>

record 's devsw =
  dev_read :: "nat \<Rightarrow> (nat \<Rightarrow> uint \<Rightarrow> ('s, cint \<times> uchar list) kop) option"
  dev_write :: "nat \<Rightarrow> (nat \<Rightarrow> uchar list \<Rightarrow> ('s, cint) kop) option"

definition readi :: "('z istate_scheme) devsw \<Rightarrow> nat \<Rightarrow> uint \<Rightarrow> uint \<Rightarrow> ('z istate_scheme, cint \<times> uchar list) kop" where
  "readi dsw i off n =
     kbind (get_inode i) (\<lambda>ip.
     if i_type ip = T_DEV then
       if sint (i_major ip) < 0 \<or> sint (i_major ip) \<ge> int NDEV then kret (- 1, [])
       else
         (case dev_read dsw (nat (sint (i_major ip))) of
            None \<Rightarrow> kret (- 1, [])
          | Some rd \<Rightarrow> rd i n)
     else readi_data i off n)"

text \<open>The copying loop of \<open>writei\<close>: it returns the offset it ends at.\<close>

function writei_loop :: "nat \<Rightarrow> uchar list \<Rightarrow> uint \<Rightarrow> uint \<Rightarrow> ('z istate_scheme, uint) kop" where
  "writei_loop i src off n =
     (if n = 0 then kret off
      else
        let m = chunk off n in
        kbind (get_inode i) (\<lambda>ip.
        kbind (bmap i (off div of_nat BSIZE)) (\<lambda>addr.
        kbind (bread (i_dev ip) addr) (\<lambda>bp.
        kseq (set_data bp (blit (unat (off mod of_nat BSIZE)) (take (unat m) src)))
        (kseq (log_write bp)
        (kseq (brelse bp)
        (writei_loop i (drop (unat m) src) (off + m) (n - m))))))))"
  by pat_completeness auto

termination
  by (relation "measure (\<lambda>(i, src, off, n). unat n)") (simp_all add: chunk_less)

definition writei_data :: "nat \<Rightarrow> uchar list \<Rightarrow> uint \<Rightarrow> ('z istate_scheme, cint) kop" where
  "writei_data i src off =
     (let n = of_nat (length src) in
      kbind (get_inode i) (\<lambda>ip.
      if off > i_size ip \<or> off + n < off then kret (- 1)
      else if off + n > of_nat (MAXFILE * BSIZE) then kret (- 1)
      else
        kbind (writei_loop i src off n) (\<lambda>off.
        kseq (kwhen (n > 0 \<and> off > i_size ip)
          (kseq (set_inode i (\<lambda>ip. ip\<lparr>i_size := off\<rparr>))
          (iupdate i)))
        (kret n))))"

definition writei :: "('z istate_scheme) devsw \<Rightarrow> nat \<Rightarrow> uchar list \<Rightarrow> uint \<Rightarrow> ('z istate_scheme, cint) kop" where
  "writei dsw i src off =
     kbind (get_inode i) (\<lambda>ip.
     if i_type ip = T_DEV then
       if sint (i_major ip) < 0 \<or> sint (i_major ip) \<ge> int NDEV then kret (- 1)
       else
         (case dev_write dsw (nat (sint (i_major ip))) of
            None \<Rightarrow> kret (- 1)
          | Some wr \<Rightarrow> wr i src)
     else writei_data i src off)"

end
