(* ===== verification/Dir.thy ===== *)
theory Dir
  imports Inode
begin

text \<open>
  Directories and path names (fs.c from \<open>namecmp\<close> on). A name or a path is the list of its
  characters without the terminating NUL. Directory contents are read with the part of \<open>readi\<close> for
  files: \<open>dirlookup\<close> has checked that the inode is a directory, so the device branch is not taken.
\<close>

section \<open>Operations\<close>

definition DIRSIZ :: nat where "DIRSIZ = 14"

definition DIRENT :: nat where "DIRENT = 2 + DIRSIZ"

record dirent =
  de_inum :: ushort
  de_name :: "uchar list"

definition decode_de :: "uchar list \<Rightarrow> dirent" where
  "decode_de x = \<lparr>de_inum = get16 0 x, de_name = slice 2 DIRSIZ x\<rparr>"

definition encode_de :: "dirent \<Rightarrow> uchar list" where
  "encode_de de = u16_bytes (de_inum de) @ de_name de"

text \<open>\<open>strncmp\<close> on two character sequences, each followed by NULs.\<close>

fun strncmp_list :: "nat \<Rightarrow> uchar list \<Rightarrow> uchar list \<Rightarrow> cint" where
  "strncmp_list 0 p q = 0"
| "strncmp_list (Suc k) p q =
     (let a = (case p of [] \<Rightarrow> 0 | c # _ \<Rightarrow> c); b = (case q of [] \<Rightarrow> 0 | c # _ \<Rightarrow> c) in
      if a \<noteq> 0 \<and> a = b then strncmp_list k (tl p) (tl q) else ucast a - ucast b)"

definition namecmp :: "uchar list \<Rightarrow> uchar list \<Rightarrow> cint" where
  "namecmp s t = strncmp_list DIRSIZ s t"

text \<open>The scan of \<open>dirlookup\<close>: the offset and inode number of the entry, if there is one.\<close>

fun dirlookup_loop :: "nat \<Rightarrow> nat \<Rightarrow> uchar list \<Rightarrow> uint \<Rightarrow> ('z istate_scheme, (uint \<times> ushort) option) kop" where
  "dirlookup_loop 0 dp name off = (\<lambda>s. if off < i_size (icache s dp) then Diverge else Done None s)"
| "dirlookup_loop (Suc fuel) dp name off =
     kbind (get_inode dp) (\<lambda>d.
     if off < i_size d then
       kbind (readi_data dp off (of_nat DIRENT)) (\<lambda>(r, x).
       if r \<noteq> of_nat DIRENT then kpanic ''dirlink read''
       else
         let de = decode_de x in
         if de_inum de = 0 then dirlookup_loop fuel dp name (off + of_nat DIRENT)
         else if namecmp name (de_name de) = 0 then kret (Some (off, de_inum de))
         else dirlookup_loop fuel dp name (off + of_nat DIRENT))
     else kret None)"

text \<open>The result is the inode and the offset that the code stores through \<open>poff\<close>.\<close>

definition dirlookup :: "nat \<Rightarrow> uchar list \<Rightarrow> ('z istate_scheme, (nat \<times> uint) option) kop" where
  "dirlookup dp name =
     kbind (get_inode dp) (\<lambda>d.
     if i_type d \<noteq> T_DIR then kpanic ''dirlookup not DIR''
     else
       kbind (dirlookup_loop (unat (i_size d) div DIRENT + 1) dp name 0) (\<lambda>r.
       case r of
         None \<Rightarrow> kret None
       | Some (off, inum) \<Rightarrow>
           kbind (iget (i_dev d) (ucast inum)) (\<lambda>i. kret (Some (i, off)))))"

text \<open>The scan of \<open>dirlink\<close> for an empty entry; the offset where it stops.\<close>

fun dirlink_loop :: "nat \<Rightarrow> nat \<Rightarrow> uint \<Rightarrow> ('z istate_scheme, uint) kop" where
  "dirlink_loop 0 dp off = (\<lambda>s. if off < i_size (icache s dp) then Diverge else Done off s)"
| "dirlink_loop (Suc fuel) dp off =
     kbind (get_inode dp) (\<lambda>d.
     if off < i_size d then
       kbind (readi_data dp off (of_nat DIRENT)) (\<lambda>(r, x).
       if r \<noteq> of_nat DIRENT then kpanic ''dirlink read''
       else if de_inum (decode_de x) = 0 then kret off
       else dirlink_loop fuel dp (off + of_nat DIRENT))
     else kret off)"

definition dirlink :: "nat \<Rightarrow> uchar list \<Rightarrow> uint \<Rightarrow> ('z istate_scheme, cint) kop" where
  "dirlink dp name inum =
     kbind (dirlookup dp name) (\<lambda>r.
     case r of
       Some (i, _) \<Rightarrow> kseq (iput i) (kret (- 1))
     | None \<Rightarrow>
         kbind (get_inode dp) (\<lambda>d.
         kbind (dirlink_loop (unat (i_size d) div DIRENT + 1) dp 0) (\<lambda>off.
         let de = \<lparr>de_inum = ucast inum, de_name = take DIRSIZ (name @ replicate DIRSIZ 0)\<rparr> in
         kbind (writei_data dp (encode_de de) off) (\<lambda>r.
         if r \<noteq> of_nat DIRENT then kpanic ''dirlink'' else kret 0))))"

section \<open>Paths\<close>

definition slash :: uchar where "slash = 0x2F"

text \<open>
  \<open>skipelem\<close>: the next path element, cut to \<open>DIRSIZ\<close> characters, and the rest of the path after the
  slashes that follow it.
\<close>

definition skipelem :: "uchar list \<Rightarrow> (uchar list \<times> uchar list) option" where
  "skipelem path =
     (let p = dropWhile (\<lambda>c. c = slash) path in
      if p = [] then None
      else
        let s = takeWhile (\<lambda>c. c \<noteq> slash) p; rest = dropWhile (\<lambda>c. c \<noteq> slash) p
        in Some (if length s \<ge> DIRSIZ then take DIRSIZ s else s, dropWhile (\<lambda>c. c = slash) rest))"

lemma skipelem_shorter: "skipelem path = Some (name, rest) \<Longrightarrow> length rest < length path"
proof -
  assume s: "skipelem path = Some (name, rest)"
  let ?p = "dropWhile (\<lambda>c. c = slash) path"
  have p: "?p \<noteq> []" and r: "rest = dropWhile (\<lambda>c. c = slash) (dropWhile (\<lambda>c. c \<noteq> slash) ?p)"
    using s by (auto simp: skipelem_def Let_def split: if_splits)
  have hd: "hd ?p \<noteq> slash" using p by (rule hd_dropWhile)
  have "length rest \<le> length (dropWhile (\<lambda>c. c \<noteq> slash) ?p)" unfolding r by (rule length_dropWhile_le)
  also have "\<dots> \<le> length (tl ?p)" using p hd length_dropWhile_le [of _ "tl ?p"] by (cases ?p) auto
  also have "\<dots> < length ?p" using p by (cases ?p) auto
  also have "\<dots> \<le> length path" by (rule length_dropWhile_le)
  finally show ?thesis .
qed

text \<open>The loop of \<open>namex\<close>; the result is the inode and, for the parent, the last element.\<close>

function namex_loop :: "bool \<Rightarrow> nat \<Rightarrow> uchar list \<Rightarrow> ('z istate_scheme, (nat \<times> uchar list) option) kop" where
  "namex_loop parent ip path =
     (case skipelem path of
        None \<Rightarrow>
          if parent then kseq (iput ip) (kret None) else kret (Some (ip, []))
      | Some (name, rest) \<Rightarrow>
          kseq (ilock ip)
          (kbind (get_inode ip) (\<lambda>d.
          if i_type d \<noteq> T_DIR then kseq (iunlockput ip) (kret None)
          else if parent \<and> rest = [] then kseq (iunlock ip) (kret (Some (ip, name)))
          else
            kbind (dirlookup ip name) (\<lambda>r.
            case r of
              None \<Rightarrow> kseq (iunlockput ip) (kret None)
            | Some (next, _) \<Rightarrow>
                kseq (iunlockput ip)
                (namex_loop parent next rest)))))"
  by pat_completeness auto

termination
  by (relation "measure (\<lambda>(parent, ip, path). length path)") (auto dest: skipelem_shorter)

definition namex :: "uchar list \<Rightarrow> bool \<Rightarrow> ('z istate_scheme, (nat \<times> uchar list) option) kop" where
  "namex path parent =
     kbind
       (if path \<noteq> [] \<and> hd path = slash then iget ROOTDEV ROOTINO
        else
          kbind (kget (\<lambda>s. case curproc s of None \<Rightarrow> None | Some p \<Rightarrow> p_cwd (ptable s p))) (\<lambda>cwd.
          case cwd of None \<Rightarrow> kfault | Some i \<Rightarrow> idup i)) (\<lambda>ip.
     namex_loop parent ip path)"

definition namei :: "uchar list \<Rightarrow> ('z istate_scheme, nat option) kop" where
  "namei path = kbind (namex path False) (\<lambda>r. kret (map_option fst r))"

definition nameiparent :: "uchar list \<Rightarrow> ('z istate_scheme, (nat \<times> uchar list) option) kop" where
  "nameiparent path = namex path True"

section \<open>Names and paths\<close>

text \<open>Every path is a run of slashes, or an element between slashes followed by the rest.\<close>

definition path_form :: "nat \<Rightarrow> uchar list \<Rightarrow> nat \<Rightarrow> uchar list \<Rightarrow> uchar list" where
  "path_form m s k rest = replicate m slash @ s @ replicate k slash @ rest"

definition path_parts_ok :: "uchar list \<Rightarrow> nat \<Rightarrow> uchar list \<Rightarrow> bool" where
  "path_parts_ok s k rest \<longleftrightarrow> s \<noteq> [] \<and> slash \<notin> set s \<and> (rest \<noteq> [] \<longrightarrow> 0 < k \<and> hd rest \<noteq> slash)"

lemma dropWhile_replicate_slash:
  "(xs = [] \<or> hd xs \<noteq> slash) \<Longrightarrow> dropWhile (\<lambda>c. c = slash) (replicate m slash @ xs) = xs"
  by (induction m) (cases xs; simp)+

lemma takeWhile_elem:
  assumes "slash \<notin> set s" "t = [] \<or> hd t = slash"
  shows "takeWhile (\<lambda>c. c \<noteq> slash) (s @ t) = s" "dropWhile (\<lambda>c. c \<noteq> slash) (s @ t) = t"
proof -
  have s: "c \<in> set s \<Longrightarrow> c \<noteq> slash" for c using assms(1) by blast
  show "takeWhile (\<lambda>c. c \<noteq> slash) (s @ t) = s"
    using s assms(2) by (subst takeWhile_append2) (auto simp: takeWhile_eq_Nil_iff)
  show "dropWhile (\<lambda>c. c \<noteq> slash) (s @ t) = t"
    using s assms(2) by (subst dropWhile_append2) (auto simp: dropWhile_eq_self_iff)
qed

lemma skipelem_form:
  assumes "path_parts_ok s k rest"
  shows "skipelem (path_form m s k rest) = Some (take DIRSIZ s, rest)"
proof -
  have s: "s \<noteq> []" "slash \<notin> set s" "hd (s @ replicate k slash @ rest) \<noteq> slash" "rest = [] \<or> hd rest \<noteq> slash"
    using assms by (auto simp: path_parts_ok_def hd_append dest: hd_in_set)
  have t: "replicate k slash @ rest = [] \<or> hd (replicate k slash @ rest) = slash"
    using assms by (cases k) (auto simp: path_parts_ok_def)
  have d: "dropWhile (\<lambda>c. c = slash) (path_form m s k rest) = s @ replicate k slash @ rest"
    unfolding path_form_def using s by (intro dropWhile_replicate_slash) simp
  show ?thesis
    using s(1) by (simp add: skipelem_def Let_def d takeWhile_elem [OF s(2) t] dropWhile_replicate_slash [OF s(4)])
qed

lemma skipelem_slashes: "skipelem (replicate m slash) = None"
  using dropWhile_replicate_slash [of "[]" m] by (simp add: skipelem_def)

lemma path_cases:
  obtains m where "path = replicate m slash"
  | m s k rest where "path = path_form m s k rest" "path_parts_ok s k rest"
proof -
  have run: "\<exists>m. takeWhile (\<lambda>c. c = slash) xs = replicate m slash" for xs
    by (rule exI [of _ "length (takeWhile (\<lambda>c. c = slash) xs)"])
       (metis (mono_tags, lifting) replicate_eqI set_takeWhileD)
  let ?p = "dropWhile (\<lambda>c. c = slash) path"
  let ?q = "dropWhile (\<lambda>c. c \<noteq> slash) ?p"
  let ?r = "dropWhile (\<lambda>c. c = slash) ?q"
  obtain m where m: "takeWhile (\<lambda>c. c = slash) path = replicate m slash" using run by blast
  obtain k where k: "takeWhile (\<lambda>c. c = slash) ?q = replicate k slash" using run by blast
  have pm: "path = replicate m slash @ ?p" using m by (metis takeWhile_dropWhile_id)
  show thesis
  proof (cases "?p = []")
    case True
    show thesis using pm unfolding True append_Nil2 by (rule that(1))
  next
    case False
    let ?s = "takeWhile (\<lambda>c. c \<noteq> slash) ?p"
    have "?p = ?s @ ?q" "?q = replicate k slash @ ?r" using k by (metis takeWhile_dropWhile_id)+
    then have form: "path = path_form m ?s k ?r" using pm unfolding path_form_def by metis
    have "?s \<noteq> []" using hd_dropWhile [OF False] False by (simp add: takeWhile_eq_Nil_iff)
    moreover have "slash \<notin> set ?s" by (auto dest: set_takeWhileD)
    moreover have "0 < k \<and> hd ?r \<noteq> slash" if r: "?r \<noteq> []"
    proof
      have "?q \<noteq> []" using r dropWhile.simps(1) by metis
      then have "hd ?q = slash" using hd_dropWhile by blast
      then have "takeWhile (\<lambda>c. c = slash) ?q \<noteq> []" using \<open>?q \<noteq> []\<close> by (simp add: takeWhile_eq_Nil_iff)
      then show "0 < k" using k by (cases k) auto
      show "hd ?r \<noteq> slash" using hd_dropWhile [OF r] .
    qed
    ultimately show thesis using that(2) [OF form] by (simp add: path_parts_ok_def)
  qed
qed

lemma strncmp_list_eq_0:
  assumes "0 \<notin> set a" "0 \<notin> set b"
  shows "strncmp_list n a (b @ replicate k 0) = 0 \<longleftrightarrow> take n a = take n b"
  using assms
proof (induction n arbitrary: a b k)
  case (Suc n)
  have inj: "(ucast x - ucast y :: cint) = 0 \<longleftrightarrow> x = y" for x y :: uchar
    by (simp add: ucast_uchar_inj)
  show ?case
  proof (cases b)
    case Nil
    have h: "(case replicate k (0 :: uchar) of [] \<Rightarrow> 0 | c # _ \<Rightarrow> c) = 0" by (cases k) auto
    show ?thesis using Suc.prems by (cases a) (auto simp: Nil h Let_def inj ucast_uchar_0 ucast_uchar_inj)
  next
    case (Cons y ys)
    show ?thesis
    proof (cases a)
      case Nil
      then show ?thesis using Suc.prems Cons by (auto simp: Let_def inj ucast_uchar_0 ucast_uchar_inj)
    next
      case (Cons x xs)
      then show ?thesis using Suc.prems \<open>b = y # ys\<close> Suc.IH [of xs ys k] by (auto simp: Let_def inj ucast_uchar_0 ucast_uchar_inj)
    qed
  qed
qed simp

text \<open>
  C31. \<open>skipelem\<close> splits every path: on a path of slashes only it returns 0; on any other path, which has
  leading slashes, a first element without a slash, slashes and a rest, it returns that element cut to
  \<open>DIRSIZ\<close> characters and the rest. Every path has one of the two forms.
\<close>

theorem skipelem_splits:
  "(\<exists>m. path = replicate m slash \<and> skipelem path = None) \<or>
   (\<exists>m s k rest. path = path_form m s k rest \<and> path_parts_ok s k rest \<and>
      skipelem path = Some (take DIRSIZ s, rest))"
  by (cases path rule: path_cases) (use skipelem_form skipelem_slashes in blast)+

text \<open>
  C32. A directory entry is found by the names that agree with the name it was made for in the first
  \<open>DIRSIZ\<close> characters, and by no other: the entry that \<open>dirlink\<close> builds for a name, encoded to the 16
  bytes on disk and decoded again, has the inode number it was given and compares equal under
  \<open>namecmp\<close> exactly to those names.
\<close>

theorem dirent_roundtrip:
  assumes "0 \<notin> set name" "0 \<notin> set other"
  shows "let de = decode_de (encode_de \<lparr>de_inum = inum, de_name = take DIRSIZ (name @ replicate DIRSIZ 0)\<rparr>) in
    length (encode_de \<lparr>de_inum = inum, de_name = take DIRSIZ (name @ replicate DIRSIZ 0)\<rparr>) = DIRENT \<and>
    de_inum de = inum \<and>
    (namecmp other (de_name de) = 0 \<longleftrightarrow> take DIRSIZ other = take DIRSIZ name)"
proof -
  let ?n = "take DIRSIZ (name @ replicate DIRSIZ 0)"
  have l: "length ?n = DIRSIZ" by simp
  have n: "?n = take DIRSIZ name @ replicate (DIRSIZ - length name) 0" by (simp add: min_def)
  have z: "0 \<notin> set (take DIRSIZ name)" using assms(1) by (meson in_set_takeD)
  have dec: "decode_de (encode_de \<lparr>de_inum = inum, de_name = ?n\<rparr>) = \<lparr>de_inum = inum, de_name = ?n\<rparr>"
    using l by (simp add: decode_de_def encode_de_def get16_def slice_def byte_simps)
  have "namecmp other ?n = 0 \<longleftrightarrow> take DIRSIZ other = take DIRSIZ name"
    unfolding namecmp_def n using strncmp_list_eq_0 [OF assms(2) z] by simp
  then show ?thesis unfolding Let_def dec using l by (simp add: encode_de_def DIRENT_def byte_simps)
qed

theorem dirent_roundtrip_witness:
  "let de = decode_de (encode_de \<lparr>de_inum = 7, de_name = take DIRSIZ ([0x61, 0x62] @ replicate DIRSIZ 0)\<rparr>) in
    de_inum de = 7 \<and> namecmp [0x61, 0x62] (de_name de) = 0 \<and> namecmp [0x61] (de_name de) \<noteq> 0"
  using dirent_roundtrip [of "[0x61, 0x62]" "[0x61, 0x62]" 7] dirent_roundtrip [of "[0x61, 0x62]" "[0x61]" 7]
  by (simp add: Let_def DIRSIZ_def)

end
