(* ===== verification/Fifo.thy ===== *)
theory Fifo
  imports Prelude
begin

text \<open>
  Bounded queues kept in a ring buffer with free-running 32-bit counters: the pipes of pipe.c and the
  input buffer of console.c. The locale is what their users rely on; its lemma says that any sequence of
  guarded insertions and removals delivers the elements in order. The lemmas on rings discharge it,
  including the wrap-around of the counters, for a buffer size that divides \<open>2 ^ 32\<close>.
\<close>

section \<open>The interface\<close>

datatype 'a fifo_op = Put 'a | Get

text \<open>A sequence of operations, an insertion skipped when the queue is full and a removal when it is
  empty: the elements inserted, the elements removed and the final state.\<close>

fun fifo_run :: "('a \<Rightarrow> 's \<Rightarrow> 's) \<Rightarrow> ('s \<Rightarrow> 'a \<times> 's) \<Rightarrow> ('s \<Rightarrow> bool) \<Rightarrow> ('s \<Rightarrow> bool) \<Rightarrow> 'a fifo_op list \<Rightarrow> 's \<Rightarrow> 'a list \<times> 'a list \<times> 's" where
  "fifo_run put get full isempty [] s = ([], [], s)"
| "fifo_run put get full isempty (Put c # ops) s =
     (if full s then fifo_run put get full isempty ops s
      else let (ins, outs, s') = fifo_run put get full isempty ops (put c s) in (c # ins, outs, s'))"
| "fifo_run put get full isempty (Get # ops) s =
     (if isempty s then fifo_run put get full isempty ops s
      else let (ins, outs, s') = fifo_run put get full isempty ops (snd (get s)) in (ins, fst (get s) # outs, s'))"

locale bounded_fifo =
  fixes contents :: "'s \<Rightarrow> 'a list"
    and put :: "'a \<Rightarrow> 's \<Rightarrow> 's"
    and get :: "'s \<Rightarrow> 'a \<times> 's"
    and full :: "'s \<Rightarrow> bool"
    and isempty :: "'s \<Rightarrow> bool"
    and good :: "'s \<Rightarrow> bool"
    and cap :: nat
  assumes put_contents: "good s \<Longrightarrow> \<not> full s \<Longrightarrow> contents (put c s) = contents s @ [c]"
    and put_inv: "good s \<Longrightarrow> \<not> full s \<Longrightarrow> good (put c s)"
    and get_contents: "good s \<Longrightarrow> \<not> isempty s \<Longrightarrow> contents s = fst (get s) # contents (snd (get s))"
    and get_inv: "good s \<Longrightarrow> \<not> isempty s \<Longrightarrow> good (snd (get s))"
    and full_iff: "good s \<Longrightarrow> full s \<longleftrightarrow> length (contents s) = cap"
    and empty_iff: "good s \<Longrightarrow> isempty s \<longleftrightarrow> contents s = []"
    and cap_bound: "good s \<Longrightarrow> length (contents s) \<le> cap"
begin

lemma run_in_order:
  assumes "good s" and "fifo_run put get full isempty ops s = (ins, outs, s')"
  shows "contents s @ ins = outs @ contents s' \<and> good s' \<and> length (contents s') \<le> cap"
  using assms
proof (induction ops arbitrary: s ins outs s')
  case Nil
  then show ?case by (auto simp: cap_bound)
next
  case (Cons op ops)
  show ?case
  proof (cases op)
    case (Put c)
    show ?thesis
    proof (cases "full s")
      case False
      obtain i o' t where r: "fifo_run put get full isempty ops (put c s) = (i, o', t)" by (metis prod_cases3)
      have "contents (put c s) @ i = o' @ contents t \<and> good t \<and> length (contents t) \<le> cap"
        using Cons.IH [OF put_inv [OF Cons.prems(1) False] r] .
      then show ?thesis using Cons.prems r False Put by (auto simp: put_contents)
    qed (use Cons Put in auto)
  next
    case Get
    show ?thesis
    proof (cases "isempty s")
      case False
      obtain i o' t where r: "fifo_run put get full isempty ops (snd (get s)) = (i, o', t)" by (metis prod_cases3)
      have "contents (snd (get s)) @ i = o' @ contents t \<and> good t \<and> length (contents t) \<le> cap"
        using Cons.IH [OF get_inv [OF Cons.prems(1) False] r] .
      then show ?thesis using Cons.prems r False Get get_contents [OF Cons.prems(1) False] by auto
    qed (use Cons Get in auto)
  qed
qed

text \<open>Inserting a whole list that fits, and removing as much as wanted or available.\<close>

lemma put_list:
  "good s \<Longrightarrow> length (contents s) + length cs \<le> cap \<Longrightarrow>
   contents (fold put cs s) = contents s @ cs \<and> good (fold put cs s)"
proof (induction cs arbitrary: s)
  case (Cons c cs)
  have nf: "\<not> full s" using Cons.prems by (simp add: full_iff)
  show ?case using Cons.IH [OF put_inv [OF Cons.prems(1) nf, of c]] Cons.prems(2)
    by (simp add: put_contents [OF Cons.prems(1) nf])
qed simp

end

section \<open>Rings\<close>

definition ring :: "nat \<Rightarrow> (nat \<Rightarrow> 'a) \<Rightarrow> nat \<Rightarrow> nat \<Rightarrow> 'a list" where
  "ring N d r n = map (\<lambda>i. d ((r + i) mod N)) [0..<n]"

lemma ring_0 [simp]: "ring N d r 0 = []"
  by (simp add: ring_def)

lemma length_ring [simp]: "length (ring N d r n) = n"
  by (simp add: ring_def)

lemma ring_eq_Nil [simp]: "ring N d r n = [] \<longleftrightarrow> n = 0"
  by (simp add: ring_def)

lemma mod_window_neq:
  assumes "i < n" "n < (N::nat)"
  shows "(r + i) mod N \<noteq> (r + n) mod N"
proof
  assume "(r + i) mod N = (r + n) mod N"
  then have "N dvd (r + n) - (r + i)" using assms by (metis mod_eq_dvd_iff_nat add_le_cancel_left less_imp_le)
  then have "N dvd n - i" by simp
  then show False using assms by (meson dvd_imp_le less_imp_diff_less not_le zero_less_diff)
qed

lemma ring_put:
  assumes "n < N"
  shows "ring N (d((r + n) mod N := c)) r (Suc n) = ring N d r n @ [c]"
  using mod_window_neq [OF _ assms] by (auto simp: ring_def)

lemma ring_Suc: "ring N d r (Suc n) = d (r mod N) # ring N d (Suc r) n"
  by (rule nth_equalityI) (auto simp: ring_def nth_Cons simp del: upt_Suc split: nat.splits)

lemma ring_mod:
  assumes "N dvd M"
  shows "ring N d (r mod M) n = ring N d r n"
proof -
  have "(r mod M + i) mod N = (r + i) mod N" for i
    using assms by (metis mod_add_left_eq mod_mod_cancel)
  then show ?thesis by (simp add: ring_def)
qed

text \<open>Counters as 32-bit words.\<close>

definition fill :: "uint \<Rightarrow> uint \<Rightarrow> nat" where
  "fill r w = unat (w - r)"

lemma fill_eq_0 [simp]: "fill r w = 0 \<longleftrightarrow> r = w"
  by (auto simp: fill_def unat_eq_zero)

lemma fill_put: "fill r w < 2 ^ 32 - 1 \<Longrightarrow> fill r (w + 1) = Suc (fill r w)"
proof -
  assume a: "fill r w < 2 ^ 32 - 1"
  have "w + 1 - r = (w - r) + 1" by simp
  moreover have "unat ((w - r) + 1) = Suc (unat (w - r))"
    using a by (simp add: fill_def unat_word_ariths)
  ultimately show ?thesis unfolding fill_def by metis
qed

lemma fill_get: "r \<noteq> w \<Longrightarrow> Suc (fill (r + 1) w) = fill r w"
proof -
  assume "r \<noteq> w"
  then have nz: "unat (w - r) \<noteq> 0" by (simp add: unat_eq_zero)
  then have "1 \<le> w - r" by (simp add: word_le_nat_alt)
  then have "unat ((w - r) - 1) = unat (w - r) - 1" by (simp add: unat_sub)
  moreover have "w - (r + 1) = (w - r) - 1" by simp
  ultimately have "unat (w - (r + 1)) = unat (w - r) - 1" by metis
  then show ?thesis unfolding fill_def using nz by linarith
qed

lemma unat_write_index: "unat w = (unat r + fill r w) mod 2 ^ 32"
proof -
  have "unat (r + v) = (unat r + unat v) mod 2 ^ 32" for v :: uint by (simp add: unat_word_ariths)
  from this [of "w - r"] show ?thesis by (simp add: fill_def)
qed

text \<open>The list in a ring between two counters, and the effect of moving them.\<close>

definition ring_list :: "nat \<Rightarrow> (nat \<Rightarrow> 'a) \<Rightarrow> uint \<Rightarrow> uint \<Rightarrow> 'a list" where
  "ring_list N d r w = ring N d (unat r) (fill r w)"

lemma ring_list_put:
  assumes "N dvd 2 ^ 32" "fill r w < N" "N < 2 ^ 32"
  shows "ring_list N (d(unat w mod N := c)) r (w + 1) = ring_list N d r w @ [c]"
proof -
  have "unat w mod N = (unat r + fill r w) mod N"
    using assms(1) by (metis mod_mod_cancel unat_write_index)
  moreover have "fill r (w + 1) = Suc (fill r w)" using assms by (intro fill_put) linarith
  ultimately show ?thesis using ring_put [OF assms(2)] by (simp add: ring_list_def)
qed

lemma ring_list_get:
  assumes "N dvd 2 ^ 32" "r \<noteq> w"
  shows "ring_list N d r w = d (unat r mod N) # ring_list N d (r + 1) w"
proof -
  have "unat (r + 1) = Suc (unat r) mod 2 ^ 32" by (simp add: unat_word_ariths)
  then have "ring N d (unat (r + 1)) (fill (r + 1) w) = ring N d (Suc (unat r)) (fill (r + 1) w)"
    using ring_mod [OF assms(1)] by metis
  then show ?thesis unfolding ring_list_def fill_get [OF assms(2), symmetric] by (simp add: ring_Suc)
qed

lemma length_ring_list [simp]: "length (ring_list N d r w) = fill r w"
  by (simp add: ring_list_def)

lemma ring_list_Nil [simp]: "ring_list N d r w = [] \<longleftrightarrow> r = w"
  by (simp add: ring_list_def)

lemma fill_full: "N < 2 ^ 32 \<Longrightarrow> w = r + of_nat N \<longleftrightarrow> fill r w = N"
proof -
  assume N: "N < 2 ^ 32"
  have "w = r + of_nat N \<longleftrightarrow> w - r = of_nat N" by (auto simp: algebra_simps)
  also have "\<dots> \<longleftrightarrow> unat (w - r) = N"
    using N by (simp add: word_unat_eq_iff unat_of_nat)
  finally show ?thesis by (simp add: fill_def)
qed

lemma ring_Suc_last: "ring N d r (Suc n) = ring N d r n @ [d ((r + n) mod N)]"
  by (simp add: ring_def)

lemma ring_add: "ring N d r (a + b) = ring N d r a @ ring N d (r + a) b"
  by (induction b) (simp_all add: ring_Suc_last add.assoc)

lemma fill_add: "fill r w + fill w e < 2 ^ 32 \<Longrightarrow> fill r e = fill r w + fill w e"
proof -
  assume a: "fill r w + fill w e < 2 ^ 32"
  have "e - r = (w - r) + (e - w)" by simp
  moreover have "unat (x + y) = unat x + unat y" if "unat x + unat y < 2 ^ 32" for x y :: uint
    using that by (simp add: unat_word_ariths)
  ultimately show ?thesis using a unfolding fill_def by metis
qed

lemma ring_unat_add:
  assumes "N dvd 2 ^ 32"
  shows "ring N d (unat r + fill r w) n = ring N d (unat w) n"
  using ring_mod [OF assms, of d "unat r + fill r w" n] unat_write_index [of w r] by simp

text \<open>Two adjacent segments of a ring, a write past both, and giving back the last element.\<close>

lemma ring_list_append:
  assumes "N dvd 2 ^ 32" "fill r w + fill w e < 2 ^ 32"
  shows "ring_list N d r e = ring_list N d r w @ ring_list N d w e"
  unfolding ring_list_def fill_add [OF assms(2)] ring_add ring_unat_add [OF assms(1)] ..

lemma ring_list_write_past:
  assumes "N dvd 2 ^ 32" "fill r w + fill w e < N" "N < 2 ^ 32"
  shows "ring_list N (d(unat e mod N := c)) r w = ring_list N d r w"
proof -
  have "fill r e = fill r w + fill w e" using assms by (intro fill_add) linarith
  then have "unat e mod N = (unat r + (fill r w + fill w e)) mod N"
    using assms(1) by (metis mod_mod_cancel unat_write_index)
  moreover have "(unat r + i) mod N \<noteq> (unat r + (fill r w + fill w e)) mod N" if "i < fill r w" for i
    using that assms(2) by (intro mod_window_neq) linarith+
  ultimately show ?thesis by (auto simp: ring_list_def ring_def)
qed

lemma ring_list_back:
  assumes "N dvd 2 ^ 32" "w \<noteq> e"
  shows "ring_list N d w e = ring_list N d w (e - 1) @ [d (unat (e - 1) mod N)]"
proof -
  have nz: "unat (e - w) \<noteq> 0" using assms(2) by (simp add: unat_eq_zero)
  then have "1 \<le> e - w" by (simp add: word_le_nat_alt)
  then have "unat ((e - w) - 1) = unat (e - w) - 1" by (simp add: unat_sub)
  moreover have "e - 1 - w = (e - w) - 1" by simp
  ultimately have "unat (e - 1 - w) = unat (e - w) - 1" by metis
  then have f: "fill w e = Suc (fill w (e - 1))" unfolding fill_def using nz by linarith
  have "unat (e - 1) mod N = (unat w + fill w (e - 1)) mod N"
    using assms(1) by (metis mod_mod_cancel unat_write_index)
  then show ?thesis unfolding ring_list_def f ring_Suc_last by simp
qed

end
