(* ===== verification/File.thy ===== *)
theory File
  imports Dir Fifo
begin

text \<open>
  Open files (file.c) and pipes (pipe.c). The file table holds \<open>NFILE\<close> structures; an entry names
  either a pipe or an inode. A pipe occupies one page from \<open>kalloc\<close> and is identified by the address
  of that page; its fields are kept in the map \<open>pipes\<close> because no other code touches the page while
  the pipe is open. A byte transfer takes or gives the list of the bytes at the user address.
\<close>

section \<open>Data\<close>

datatype filetype = FD_NONE | FD_PIPE | FD_INODE

record kfile =
  f_type :: filetype
  f_ref :: int
  f_readable :: bool
  f_writable :: bool
  f_pipe :: uint
  f_ip :: nat
  f_off :: uint

definition PIPESIZE :: uint where "PIPESIZE = 512"

record pipe =
  pp_data :: "nat \<Rightarrow> uchar"
  pp_nread :: uint
  pp_nwrite :: uint
  pp_readopen :: bool
  pp_writeopen :: bool

record fstate = istate +
  ftable :: "nat \<Rightarrow> kfile"
  pipes :: "uint \<Rightarrow> pipe"

definition zero_file :: kfile where
  "zero_file = \<lparr>f_type = FD_NONE, f_ref = 0, f_readable = False, f_writable = False, f_pipe = 0, f_ip = 0, f_off = 0\<rparr>"

definition set_file :: "nat \<Rightarrow> (kfile \<Rightarrow> kfile) \<Rightarrow> ('z fstate_scheme, unit) kop" where
  "set_file f g = kmodify (\<lambda>s. s\<lparr>ftable := (ftable s)(f := g (ftable s f))\<rparr>)"

definition set_pipe :: "uint \<Rightarrow> (pipe \<Rightarrow> pipe) \<Rightarrow> ('z fstate_scheme, unit) kop" where
  "set_pipe p g = kmodify (\<lambda>s. s\<lparr>pipes := (pipes s)(p := g (pipes s p))\<rparr>)"

definition get_file :: "nat \<Rightarrow> ('z fstate_scheme, kfile) kop" where
  "get_file f = kget (\<lambda>s. ftable s f)"

definition get_pipe :: "uint \<Rightarrow> ('z fstate_scheme, pipe) kop" where
  "get_pipe p = kget (\<lambda>s. pipes s p)"

definition get_curproc :: "('z pstate_scheme, proc) kop" where
  "get_curproc s = (case curproc s of None \<Rightarrow> Fault | Some i \<Rightarrow> Done (ptable s i) s)"

section \<open>Pipes\<close>

definition pipe_read_chan :: "uint \<Rightarrow> chan" where "pipe_read_chan p = ChPipeRead (unat p)"
definition pipe_write_chan :: "uint \<Rightarrow> chan" where "pipe_write_chan p = ChPipeWrite (unat p)"

definition pipeclose :: "uint \<Rightarrow> bool \<Rightarrow> ('z fstate_scheme, unit) kop" where
  "pipeclose p writable =
     kseq (if writable then
             kseq (set_pipe p (\<lambda>x. x\<lparr>pp_writeopen := False\<rparr>)) (wakeup (pipe_read_chan p))
           else
             kseq (set_pipe p (\<lambda>x. x\<lparr>pp_readopen := False\<rparr>)) (wakeup (pipe_write_chan p)))
     (kbind (get_pipe p) (\<lambda>x.
      if \<not> pp_readopen x \<and> \<not> pp_writeopen x then kfree p else kret ()))"

text \<open>The two statements that move one byte: the counters run freely and wrap around at 32 bits.\<close>

definition pipe_put :: "uchar \<Rightarrow> pipe \<Rightarrow> pipe" where
  "pipe_put c x = x\<lparr>pp_data := (pp_data x)(unat (pp_nwrite x mod PIPESIZE) := c), pp_nwrite := pp_nwrite x + 1\<rparr>"

definition pipe_get :: "pipe \<Rightarrow> uchar \<times> pipe" where
  "pipe_get x = (pp_data x (unat (pp_nread x mod PIPESIZE)), x\<lparr>pp_nread := pp_nread x + 1\<rparr>)"

definition pipe_full :: "pipe \<Rightarrow> bool" where
  "pipe_full x \<longleftrightarrow> pp_nwrite x = pp_nread x + PIPESIZE"

definition pipe_empty :: "pipe \<Rightarrow> bool" where
  "pipe_empty x \<longleftrightarrow> pp_nread x = pp_nwrite x"

text \<open>
  The loop of \<open>pipewrite\<close> over the bytes still to write. A writer that finds the pipe full sleeps and
  continues with the same bytes when it is woken.
\<close>

fun pipewrite_loop :: "uint \<Rightarrow> cint \<Rightarrow> uchar list \<Rightarrow> ('z fstate_scheme, cint) kop" where
  "pipewrite_loop p n [] = kseq (wakeup (pipe_read_chan p)) (kret n)"
| "pipewrite_loop p n (c # cs) =
     kbind (get_pipe p) (\<lambda>x.
     if pipe_full x then
       kbind get_curproc (\<lambda>pr.
       if \<not> pp_readopen x \<or> p_killed pr then kret (- 1)
       else kseq (wakeup (pipe_read_chan p)) (sleep (pipe_write_chan p)))
     else kseq (set_pipe p (pipe_put c)) (pipewrite_loop p n cs))"

definition pipewrite :: "uint \<Rightarrow> uchar list \<Rightarrow> cint \<Rightarrow> ('z fstate_scheme, cint) kop" where
  "pipewrite p addr n = pipewrite_loop p n (take (nat (sint n)) addr)"

fun piperead_loop :: "nat \<Rightarrow> uint \<Rightarrow> ('z fstate_scheme, uchar list) kop" where
  "piperead_loop 0 p = kret []"
| "piperead_loop (Suc k) p =
     kbind (get_pipe p) (\<lambda>x.
     if pipe_empty x then kret []
     else kseq (set_pipe p (\<lambda>x. snd (pipe_get x)))
       (kbind (piperead_loop k p) (\<lambda>cs. kret (fst (pipe_get x) # cs))))"

definition piperead :: "uint \<Rightarrow> cint \<Rightarrow> ('z fstate_scheme, cint \<times> uchar list) kop" where
  "piperead p n =
     kbind (get_pipe p) (\<lambda>x.
     if pipe_empty x \<and> pp_writeopen x then
       kbind get_curproc (\<lambda>pr.
       if p_killed pr then kret (- 1, []) else sleep (pipe_read_chan p))
     else
       kbind (piperead_loop (nat (sint n)) p) (\<lambda>cs.
       kseq (wakeup (pipe_write_chan p)) (kret (of_nat (length cs), cs))))"

section \<open>The file table\<close>

definition filealloc :: "('z fstate_scheme, nat option) kop" where
  "filealloc s = (case first_slot NFILE (\<lambda>f. f_ref (ftable s f) = 0) of
       Some f \<Rightarrow> Done (Some f) (s\<lparr>ftable := (ftable s)(f := (ftable s f)\<lparr>f_ref := 1\<rparr>)\<rparr>)
     | None \<Rightarrow> Done None s)"

definition filedup :: "nat \<Rightarrow> ('z fstate_scheme, nat) kop" where
  "filedup f =
     kbind (get_file f) (\<lambda>x.
     if f_ref x < 1 then kpanic ''filedup''
     else kseq (set_file f (\<lambda>x. x\<lparr>f_ref := f_ref x + 1\<rparr>)) (kret f))"

definition fileclose :: "nat \<Rightarrow> ('z fstate_scheme, unit) kop" where
  "fileclose f =
     kbind (get_file f) (\<lambda>x.
     if f_ref x < 1 then kpanic ''fileclose''
     else
       kseq (set_file f (\<lambda>x. x\<lparr>f_ref := f_ref x - 1\<rparr>))
       (if f_ref x - 1 > 0 then kret ()
        else
          kbind (get_file f) (\<lambda>ff.
          kseq (set_file f (\<lambda>x. x\<lparr>f_ref := 0, f_type := FD_NONE\<rparr>))
          (if f_type ff = FD_PIPE then pipeclose (f_pipe ff) (f_writable ff)
           else if f_type ff = FD_INODE then kseq begin_op (kseq (iput (f_ip ff)) end_op)
           else kret ()))))"

definition filestat :: "nat \<Rightarrow> ('z fstate_scheme, cint \<times> stat option) kop" where
  "filestat f =
     kbind (get_file f) (\<lambda>x.
     if f_type x = FD_INODE then
       kseq (ilock (f_ip x))
       (kbind (stati (f_ip x)) (\<lambda>st.
       kseq (iunlock (f_ip x)) (kret (0, Some st))))
     else kret (- 1, None))"

definition fileread :: "('z fstate_scheme) devsw \<Rightarrow> nat \<Rightarrow> cint \<Rightarrow> ('z fstate_scheme, cint \<times> uchar list) kop" where
  "fileread dsw f n =
     kbind (get_file f) (\<lambda>x.
     if \<not> f_readable x then kret (- 1, [])
     else if f_type x = FD_PIPE then piperead (f_pipe x) n
     else if f_type x = FD_INODE then
       kseq (ilock (f_ip x))
       (kbind (readi dsw (f_ip x) (f_off x) n) (\<lambda>(r, cs).
       kseq (kwhen (sint r > 0) (set_file f (\<lambda>x. x\<lparr>f_off := f_off x + r\<rparr>)))
       (kseq (iunlock (f_ip x)) (kret (r, cs)))))
     else kpanic ''fileread'')"

definition filewrite_max :: nat where
  "filewrite_max = ((LOGSIZE - 1 - 1 - 2) div 2) * 512"

text \<open>
  The loop of \<open>filewrite\<close> over the bytes still to write, one transaction for each piece. The result
  tells whether the loop wrote all of them (\<open>i == n\<close>) or stopped at an error.
\<close>

function filewrite_loop :: "('z fstate_scheme) devsw \<Rightarrow> nat \<Rightarrow> uchar list \<Rightarrow> ('z fstate_scheme, bool) kop" where
  "filewrite_loop dsw f cs =
     (if cs = [] then kret True
      else
        let n1 = min (length cs) filewrite_max in
        kseq begin_op
        (kbind (get_file f) (\<lambda>x.
        kseq (ilock (f_ip x))
        (kbind (writei dsw (f_ip x) (take n1 cs) (f_off x)) (\<lambda>r.
        kseq (kwhen (sint r > 0) (set_file f (\<lambda>x. x\<lparr>f_off := f_off x + r\<rparr>)))
        (kseq (iunlock (f_ip x))
        (kseq end_op
        (if sint r < 0 then kret False
         else if r \<noteq> of_nat n1 then kpanic ''short filewrite''
         else filewrite_loop dsw f (drop n1 cs)))))))))"
  by pat_completeness auto

termination
  by (relation "measure (\<lambda>(dsw, f, cs). length cs)") (auto simp: filewrite_max_def param_defs)

definition filewrite :: "('z fstate_scheme) devsw \<Rightarrow> nat \<Rightarrow> uchar list \<Rightarrow> cint \<Rightarrow> ('z fstate_scheme, cint) kop" where
  "filewrite dsw f addr n =
     kbind (get_file f) (\<lambda>x.
     if \<not> f_writable x then kret (- 1)
     else if f_type x = FD_PIPE then pipewrite (f_pipe x) addr n
     else if f_type x = FD_INODE then
       kbind (filewrite_loop dsw f (take (nat (sint n)) addr)) (\<lambda>ok.
       kret (if ok \<and> 0 \<le> sint n then n else - 1))
     else kpanic ''filewrite'')"

text \<open>\<open>pipealloc\<close>; the code at its label \<open>bad\<close> closes the file structures already taken.\<close>

definition pipealloc_bad :: "nat option \<Rightarrow> nat option \<Rightarrow> ('z fstate_scheme, (nat \<times> nat) option) kop" where
  "pipealloc_bad f0 f1 =
     kseq (case f0 of None \<Rightarrow> kret () | Some f \<Rightarrow> fileclose f)
     (kseq (case f1 of None \<Rightarrow> kret () | Some f \<Rightarrow> fileclose f)
     (kret None))"

definition pipealloc :: "('z fstate_scheme, (nat \<times> nat) option) kop" where
  "pipealloc =
     kbind filealloc (\<lambda>f0.
     case f0 of
       None \<Rightarrow> pipealloc_bad None None
     | Some a \<Rightarrow>
         kbind filealloc (\<lambda>f1.
         case f1 of
           None \<Rightarrow> pipealloc_bad f0 None
         | Some b \<Rightarrow>
             kbind kalloc (\<lambda>p.
             if p = 0 then pipealloc_bad f0 f1
             else
               kseq (set_pipe p (\<lambda>x. x\<lparr>pp_readopen := True, pp_writeopen := True, pp_nwrite := 0, pp_nread := 0\<rparr>))
               (kseq (set_file a (\<lambda>x. x\<lparr>f_type := FD_PIPE, f_readable := True, f_writable := False, f_pipe := p\<rparr>))
               (kseq (set_file b (\<lambda>x. x\<lparr>f_type := FD_PIPE, f_readable := False, f_writable := True, f_pipe := p\<rparr>))
               (kret (Some (a, b))))))))"

section \<open>Pipes are bounded byte streams\<close>

definition pipe_contents :: "pipe \<Rightarrow> uchar list" where
  "pipe_contents x = ring_list 512 (pp_data x) (pp_nread x) (pp_nwrite x)"

definition pipe_ok :: "pipe \<Rightarrow> bool" where
  "pipe_ok x \<longleftrightarrow> fill (pp_nread x) (pp_nwrite x) \<le> 512"

lemma pipe_index: "unat (w mod PIPESIZE) = unat w mod 512"
  by (simp add: PIPESIZE_def unat_mod)

lemma pipe_full_iff: "pipe_full x \<longleftrightarrow> fill (pp_nread x) (pp_nwrite x) = 512"
  using fill_full [of 512 "pp_nwrite x" "pp_nread x"] by (simp add: pipe_full_def PIPESIZE_def)

interpretation pf: bounded_fifo pipe_contents pipe_put pipe_get pipe_full pipe_empty pipe_ok 512
proof (unfold_locales, goal_cases)
  case (1 s c)
  then have "fill (pp_nread s) (pp_nwrite s) < 512" by (auto simp: pipe_ok_def pipe_full_iff)
  then show ?case by (simp add: pipe_contents_def pipe_put_def pipe_index ring_list_put)
next
  case (2 s c)
  then have "fill (pp_nread s) (pp_nwrite s) < 512" by (auto simp: pipe_ok_def pipe_full_iff)
  then show ?case by (simp add: pipe_ok_def pipe_put_def fill_put)
next
  case (3 s)
  then show ?case by (simp add: pipe_contents_def pipe_get_def pipe_index pipe_empty_def ring_list_get)
next
  case (4 s)
  then show ?case using fill_get [of "pp_nread s" "pp_nwrite s"]
    by (simp add: pipe_ok_def pipe_get_def pipe_empty_def)
qed (auto simp: pipe_full_iff pipe_contents_def pipe_ok_def pipe_empty_def)

lemma fold_pipe_put_fields [simp]:
  "pp_readopen (fold pipe_put cs x) = pp_readopen x"
  "pp_writeopen (fold pipe_put cs x) = pp_writeopen x"
  "pp_nread (fold pipe_put cs x) = pp_nread x"
  by (induction cs arbitrary: x) (simp_all add: pipe_put_def)

definition put_pipe :: "uint \<Rightarrow> pipe \<Rightarrow> 'z fstate_scheme \<Rightarrow> 'z fstate_scheme" where
  "put_pipe p x s = s\<lparr>pipes := (pipes s)(p := x)\<rparr>"

lemma put_pipe_simps [simp]:
  "pipes (put_pipe p x s) = (pipes s)(p := x)"
  "put_pipe p x (put_pipe p y s) = put_pipe p x s"
  "put_pipe p (pipes s p) s = s"
  "curproc (put_pipe p x s) = curproc s"
  "ptable (put_pipe p x s) = ptable s"
  by (simp_all add: put_pipe_def)

lemma set_pipe_eq [kop_simps]: "set_pipe p g s = Done () (put_pipe p (g (pipes s p)) s)"
  by (simp add: set_pipe_def put_pipe_def kmodify_def)

lemma get_pipe_eq [kop_simps]: "get_pipe p s = Done (pipes s p) s"
  by (simp add: get_pipe_def kget_def)

lemma get_curproc_eq [kop_simps]: "curproc s = Some i \<Longrightarrow> get_curproc s = Done (ptable s i) s"
  by (simp add: get_curproc_def)

text \<open>The state in which the loop of \<open>pipewrite\<close> stops: as many bytes as there was room for are in.\<close>

definition pipe_room :: "pipe \<Rightarrow> nat" where
  "pipe_room x = 512 - length (pipe_contents x)"

definition pipe_filled :: "uint \<Rightarrow> uchar list \<Rightarrow> 'z fstate_scheme \<Rightarrow> 'z fstate_scheme" where
  "pipe_filled p cs s = put_pipe p (fold pipe_put (take (pipe_room (pipes s p)) cs) (pipes s p)) s"

lemma pipewrite_loop_eq:
  fixes s :: "'z fstate_scheme"
  assumes "pipe_ok (pipes s p)" "curproc s = Some i"
  shows "pipewrite_loop p n cs s =
    (if length cs \<le> pipe_room (pipes s p) then Done n (wakeup1 (pipe_read_chan p) (pipe_filled p cs s))
     else if \<not> pp_readopen (pipes s p) \<or> p_killed (ptable s i) then Done (- 1) (pipe_filled p cs s)
     else sleep (pipe_write_chan p) (wakeup1 (pipe_read_chan p) (pipe_filled p cs s)))"
  using assms
proof (induction cs arbitrary: s)
  case Nil
  then show ?case by (simp add: kop_simps pipe_filled_def)
next
  case (Cons c cs)
  let ?x = "pipes s p"
  show ?case
  proof (cases "pipe_full ?x")
    case True
    then have "pipe_room ?x = 0" using pf.full_iff [OF Cons.prems(1)] by (simp add: pipe_room_def)
    then show ?thesis using Cons.prems(2) True by (simp add: kop_simps pipe_filled_def)
  next
    case False
    let ?t = "put_pipe p (pipe_put c ?x) s"
    have ok: "pipe_ok (pipes ?t p)" using pf.put_inv [OF Cons.prems(1) False] by simp
    have "length (pipe_contents ?x) < 512"
      using pf.full_iff [OF Cons.prems(1)] pf.cap_bound [OF Cons.prems(1)] False by simp
    then have k: "pipe_room ?x = Suc (pipe_room (pipe_put c ?x))"
      using pf.put_contents [OF Cons.prems(1) False] by (simp add: pipe_room_def)
    have f: "pipe_filled p (c # cs) s = pipe_filled p cs ?t" by (simp add: pipe_filled_def k)
    have r: "pp_readopen (pipe_put c ?x) = pp_readopen ?x" by (simp add: pipe_put_def)
    have "pipewrite_loop p n (c # cs) s = pipewrite_loop p n cs ?t"
      using False by (simp add: kop_simps)
    then show ?thesis using Cons.IH [OF ok] Cons.prems(2) by (simp add: f k r)
  qed
qed

lemma piperead_loop_eq:
  fixes s :: "'z fstate_scheme"
  assumes "pipe_ok (pipes s p)"
  shows "\<exists>x'. piperead_loop k p s = Done (take k (pipe_contents (pipes s p))) (put_pipe p x' s) \<and>
    pipe_ok x' \<and> pipe_contents x' = drop k (pipe_contents (pipes s p)) \<and>
    pp_readopen x' = pp_readopen (pipes s p) \<and> pp_writeopen x' = pp_writeopen (pipes s p)"
  using assms
proof (induction k arbitrary: s)
  case 0
  show ?case by (rule exI [of _ "pipes s p"]) (simp add: 0 kop_simps)
next
  case (Suc k)
  let ?x = "pipes s p"
  show ?case
  proof (cases "pipe_empty ?x")
    case True
    then have "pipe_contents ?x = []" using pf.empty_iff [OF Suc.prems] by simp
    then show ?thesis using True by (intro exI [of _ "pipes s p"]) (simp add: Suc.prems kop_simps)
  next
    case False
    let ?y = "snd (pipe_get ?x)"
    have c: "pipe_contents ?x = fst (pipe_get ?x) # pipe_contents ?y" using pf.get_contents [OF Suc.prems False] .
    have ok: "pipe_ok ?y" using pf.get_inv [OF Suc.prems False] .
    obtain x' where x': "piperead_loop k p (put_pipe p ?y s) = Done (take k (pipe_contents ?y)) (put_pipe p x' (put_pipe p ?y s))"
        "pipe_ok x'" "pipe_contents x' = drop k (pipe_contents ?y)" "pp_readopen x' = pp_readopen ?y" "pp_writeopen x' = pp_writeopen ?y"
      using Suc.IH [of "put_pipe p ?y s"] ok by auto
    show ?thesis using False x' by (intro exI [of _ x']) (simp add: kop_simps c pipe_get_def)
  qed
qed

text \<open>
  C7. A pipe is a first-in first-out stream of bytes of bounded capacity: whatever sequence of single
  byte writes (when it is not full) and reads (when it is not empty) readers and writers make, from any
  values of the two 32-bit counters including ones that wrap around, the bytes read followed by the
  bytes still in the buffer are the bytes that were in it followed by the bytes written, and there are
  never more than \<open>PIPESIZE\<close> of them.
\<close>

theorem pipe_byte_stream:
  assumes "pipe_ok x" "fifo_run pipe_put pipe_get pipe_full pipe_empty ops x = (ins, outs, x')"
  shows "pipe_contents x @ ins = outs @ pipe_contents x' \<and> pipe_ok x' \<and> length (pipe_contents x') \<le> unat PIPESIZE"
  using pf.run_in_order [OF assms] by (simp add: PIPESIZE_def)

theorem pipe_byte_stream_witness:
  "let x = \<lparr>pp_data = (\<lambda>_. 0), pp_nread = - 1, pp_nwrite = - 1, pp_readopen = True, pp_writeopen = True\<rparr>;
       x' = snd (pipe_get (pipe_put 8 (pipe_put 7 x)))
   in fifo_run pipe_put pipe_get pipe_full pipe_empty [Get, Put 7, Put 8, Get] x = ([7, 8], [7], x') \<and>
      pipe_ok x \<and> pp_nwrite x' = 1 \<and> pipe_contents x' = [8]"
proof -
  let ?x = "\<lparr>pp_data = (\<lambda>_. 0), pp_nread = - 1, pp_nwrite = - 1, pp_readopen = True, pp_writeopen = True\<rparr>"
  let ?x' = "snd (pipe_get (pipe_put 8 (pipe_put 7 ?x)))"
  have ok: "pipe_ok ?x" by (simp add: pipe_ok_def fill_def)
  have run: "fifo_run pipe_put pipe_get pipe_full pipe_empty [Get, Put 7, Put 8, Get] ?x = ([7, 8], [7], ?x')"
    by (simp add: pipe_put_def pipe_get_def pipe_full_def pipe_empty_def PIPESIZE_def)
  have "pipe_contents ?x = []" by (simp add: pipe_contents_def)
  then have "pipe_contents ?x' = [8]" using pipe_byte_stream [OF ok run] by simp
  then show ?thesis using ok run by (simp add: Let_def pipe_put_def pipe_get_def)
qed

text \<open>
  C29. \<open>pipewrite\<close> in every case. With room for all \<open>n\<close> bytes it appends them, wakes the readers and
  returns \<open>n\<close>. Otherwise it fills the pipe; then it returns -1 if the read end is closed or the process
  has been killed, and else wakes the readers and sleeps on the write counter. It changes nothing but
  the pipe and the states of the woken readers.
\<close>

theorem pipewrite_every_case:
  fixes s :: "'z fstate_scheme"
  assumes "pipe_ok (pipes s p)" "curproc s = Some i" "nat (sint n) \<le> length addr"
  shows "\<exists>x'. pipe_ok x' \<and> pipe_contents x' = pipe_contents (pipes s p) @ take (min (pipe_room (pipes s p)) (nat (sint n))) addr \<and>
    pipewrite p addr n s =
      (if nat (sint n) \<le> pipe_room (pipes s p) then Done n (wakeup1 (pipe_read_chan p) (put_pipe p x' s))
       else if \<not> pp_readopen (pipes s p) \<or> p_killed (ptable s i) then Done (- 1) (put_pipe p x' s)
       else sleep (pipe_write_chan p) (wakeup1 (pipe_read_chan p) (put_pipe p x' s)))"
proof -
  let ?cs = "take (pipe_room (pipes s p)) (take (nat (sint n)) addr)"
  have "length (pipe_contents (pipes s p)) + length ?cs \<le> 512"
    using pf.cap_bound [OF assms(1)] by (simp add: pipe_room_def)
  then have "pipe_contents (fold pipe_put ?cs (pipes s p)) = pipe_contents (pipes s p) @ ?cs \<and>
      pipe_ok (fold pipe_put ?cs (pipes s p))"
    using pf.put_list [OF assms(1)] by blast
  then show ?thesis using pipewrite_loop_eq [OF assms(1,2), of n "take (nat (sint n)) addr"] assms(3)
    by (intro exI [of _ "fold pipe_put ?cs (pipes s p)"]) (auto simp: pipewrite_def pipe_filled_def min_absorb2)
qed

definition demo_pipe :: "'z fstate_scheme \<Rightarrow> 'z fstate_scheme" where
  "demo_pipe s = s\<lparr>curproc := Some 0, pipes := (\<lambda>_. \<lparr>pp_data = (\<lambda>_. 0), pp_nread = - 1, pp_nwrite = - 1, pp_readopen = True, pp_writeopen = True\<rparr>)\<rparr>"

theorem pipewrite_every_case_witness:
  "\<forall>s :: fstate. \<exists>x'. pipe_contents x' = [1, 2, 3] \<and>
    pipewrite 0x80400000 [1, 2, 3] 3 (demo_pipe s) =
      Done 3 (wakeup1 (pipe_read_chan 0x80400000) (put_pipe 0x80400000 x' (demo_pipe s)))"
proof
  fix s :: fstate
  have ok: "pipe_ok (pipes (demo_pipe s) 0x80400000)" "curproc (demo_pipe s) = Some 0" "nat (sint (3 :: cint)) \<le> length [1, 2, 3 :: uchar]"
    by (simp_all add: demo_pipe_def pipe_ok_def fill_def)
  have c: "pipe_contents (pipes (demo_pipe s) 0x80400000) = []" by (simp add: demo_pipe_def pipe_contents_def)
  show "\<exists>x'. pipe_contents x' = [1, 2, 3] \<and> pipewrite 0x80400000 [1, 2, 3] 3 (demo_pipe s) =
      Done 3 (wakeup1 (pipe_read_chan 0x80400000) (put_pipe 0x80400000 x' (demo_pipe s)))"
    using pipewrite_every_case [OF ok] c by (auto simp: pipe_room_def)
qed

text \<open>
  C30. \<open>piperead\<close> in every case. On an empty pipe with an open write end it returns -1 if the process has
  been killed and else sleeps on the read counter. Otherwise it removes and returns the first
  \<open>min n m\<close> of the \<open>m\<close> bytes in the pipe, in order (none at the end of the stream), and wakes the
  writers.
\<close>

theorem piperead_every_case:
  fixes s :: "'z fstate_scheme"
  assumes "pipe_ok (pipes s p)" "curproc s = Some i"
  defines "cs \<equiv> pipe_contents (pipes s p)"
  shows "if cs = [] \<and> pp_writeopen (pipes s p)
    then piperead p n s = (if p_killed (ptable s i) then Done (- 1, []) s else sleep (pipe_read_chan p) s)
    else \<exists>x'. pipe_ok x' \<and> pipe_contents x' = drop (nat (sint n)) cs \<and>
      piperead p n s = Done (of_nat (min (nat (sint n)) (length cs)), take (nat (sint n)) cs)
        (wakeup1 (pipe_write_chan p) (put_pipe p x' s))"
proof -
  have e: "pipe_empty (pipes s p) \<longleftrightarrow> cs = []" using pf.empty_iff [OF assms(1)] by (simp add: cs_def)
  obtain x' where "piperead_loop (nat (sint n)) p s = Done (take (nat (sint n)) cs) (put_pipe p x' s)"
      "pipe_ok x'" "pipe_contents x' = drop (nat (sint n)) cs"
    using piperead_loop_eq [OF assms(1)] unfolding cs_def by blast
  then show ?thesis using assms(2) e by (auto simp: piperead_def kop_simps min.commute)
qed

theorem piperead_every_case_witness:
  "\<forall>s :: fstate. piperead 0x80400000 4 (demo_pipe s) =
    (if p_killed (ptable s 0) then Done (- 1, []) (demo_pipe s) else sleep (pipe_read_chan 0x80400000) (demo_pipe s))"
proof
  fix s :: fstate
  have ok: "pipe_ok (pipes (demo_pipe s) 0x80400000)" "curproc (demo_pipe s) = Some 0"
    by (simp_all add: demo_pipe_def pipe_ok_def fill_def)
  have c: "pipe_contents (pipes (demo_pipe s) 0x80400000) = []" by (simp add: demo_pipe_def pipe_contents_def)
  show "piperead 0x80400000 4 (demo_pipe s) =
    (if p_killed (ptable s 0) then Done (- 1, []) (demo_pipe s) else sleep (pipe_read_chan 0x80400000) (demo_pipe s))"
    using piperead_every_case [OF ok, of 4] c by (simp add: demo_pipe_def)
qed

end
