(* ===== verification/Vm.thy ===== *)
theory Vm
  imports Kalloc
begin

text \<open>
  Page tables (vm.c). A page directory and its page tables are pages of the kernel's memory; an
  entry is the 32-bit word at its index. Pointers to entries are addresses, 0 for null, and
  reading through a null pointer is a \<open>Fault\<close>.

  The loops over pages carry fuel equal to the number of pages they can visit before their
  end address; running out of it is \<open>Diverge\<close>. \<open>loaduvm\<close>, which reads a file, is with exec.c. The
  segment registers (\<open>seginit\<close>, the descriptor part of \<open>switchuvm\<close>) are not represented.
\<close>

section \<open>Data\<close>

record kmap_entry =
  km_virt :: uint
  km_phys_start :: uint
  km_phys_end :: uint
  km_perm :: uint

text \<open>The table \<open>kmap\<close> of the kernel's mappings; \<open>dat\<close> is the linker symbol \<open>data\<close>.\<close>

definition kmap :: "uint \<Rightarrow> kmap_entry list" where
  "kmap dat =
     [\<lparr>km_virt = KERNBASE, km_phys_start = 0, km_phys_end = EXTMEM, km_perm = PTE_W\<rparr>,
      \<lparr>km_virt = KERNLINK, km_phys_start = v2p KERNLINK, km_phys_end = v2p dat, km_perm = 0\<rparr>,
      \<lparr>km_virt = dat, km_phys_start = v2p dat, km_phys_end = PHYSTOP, km_perm = PTE_W\<rparr>,
      \<lparr>km_virt = DEVSPACE, km_phys_start = DEVSPACE, km_phys_end = 0, km_perm = PTE_W\<rparr>]"

section \<open>Operations\<close>

definition kload :: "uint \<Rightarrow> ('z mstate_scheme, uint) kop" where
  "kload a = kget (\<lambda>s. ld32 (mem s) a)"

definition kstore :: "uint \<Rightarrow> uint \<Rightarrow> ('z mstate_scheme, unit) kop" where
  "kstore a w = kmodify (upd_mem (st32 a w))"

definition kmemset :: "uint \<Rightarrow> cint \<Rightarrow> uint \<Rightarrow> ('z mstate_scheme, unit) kop" where
  "kmemset dst c n = kmodify (upd_mem (memset dst c n))"

definition kmemmove :: "uint \<Rightarrow> uint \<Rightarrow> uint \<Rightarrow> ('z mstate_scheme, unit) kop" where
  "kmemmove dst src n = kmodify (upd_mem (memmove dst src n))"

definition walkpgdir :: "uint \<Rightarrow> uint \<Rightarrow> bool \<Rightarrow> ('z mstate_scheme, uint) kop" where
  "walkpgdir pgdir va alloc =
     kbind (kload (pgdir + 4 * PDX va)) (\<lambda>pde.
       if pde AND PTE_P \<noteq> 0 then kret (p2v (PTE_ADDR pde) + 4 * PTX va)
       else if \<not> alloc then kret 0
       else kbind kalloc (\<lambda>pgtab.
         if pgtab = 0 then kret 0
         else
           kseq (kmemset pgtab 0 PGSIZE)
           (kseq (kstore (pgdir + 4 * PDX va) (v2p pgtab OR PTE_P OR PTE_W OR PTE_U))
           (kret (pgtab + 4 * PTX va)))))"

text \<open>The endless loop of \<open>mappages\<close>, left when \<open>a\<close> is the last page.\<close>

fun mappages_loop :: "nat \<Rightarrow> uint \<Rightarrow> uint \<Rightarrow> uint \<Rightarrow> uint \<Rightarrow> uint \<Rightarrow> ('z mstate_scheme, cint) kop" where
  "mappages_loop 0 pgdir a lastp pa perm = (\<lambda>s. Diverge)"
| "mappages_loop (Suc fuel) pgdir a lastp pa perm =
     kbind (walkpgdir pgdir a True) (\<lambda>pte.
       if pte = 0 then kret (- 1)
       else kbind (kload pte) (\<lambda>e.
         if e AND PTE_P \<noteq> 0 then kpanic ''remap''
         else
           kseq (kstore pte (pa OR perm OR PTE_P))
           (if a = lastp then kret 0
            else mappages_loop fuel pgdir (a + PGSIZE) lastp (pa + PGSIZE) perm)))"

definition mappages :: "uint \<Rightarrow> uint \<Rightarrow> uint \<Rightarrow> uint \<Rightarrow> uint \<Rightarrow> ('z mstate_scheme, cint) kop" where
  "mappages pgdir va sz pa perm =
     (let a = PGROUNDDOWN va; lastp = PGROUNDDOWN (va + sz - 1)
      in mappages_loop (Suc (unat (lastp - a) div 4096)) pgdir a lastp pa perm)"

fun setupkvm_loop :: "uint \<Rightarrow> kmap_entry list \<Rightarrow> ('z mstate_scheme, uint) kop" where
  "setupkvm_loop pgdir [] = kret pgdir"
| "setupkvm_loop pgdir (k # ks) =
     kbind (mappages pgdir (km_virt k) (km_phys_end k - km_phys_start k) (km_phys_start k) (km_perm k)) (\<lambda>r.
       if sint r < 0 then kret 0 else setupkvm_loop pgdir ks)"

definition setupkvm :: "('z mstate_scheme, uint) kop" where
  "setupkvm =
     kbind kalloc (\<lambda>pgdir.
       if pgdir = 0 then kret 0
       else
         kseq (kmemset pgdir 0 PGSIZE)
         (if p2v PHYSTOP > DEVSPACE then kpanic ''PHYSTOP too high''
          else kbind (kget kdata) (\<lambda>dat. setupkvm_loop pgdir (kmap dat))))"

definition switchkvm :: "('z mstate_scheme, unit) kop" where
  "switchkvm = kmodify (\<lambda>s. s\<lparr>cr3 := v2p (kpgdir s)\<rparr>)"

definition kvmalloc :: "('z mstate_scheme, unit) kop" where
  "kvmalloc =
     kbind setupkvm (\<lambda>pgdir.
     kseq (kmodify (\<lambda>s. s\<lparr>kpgdir := pgdir\<rparr>))
     switchkvm)"

text \<open>\<open>inituvm\<close> does not test the result of \<open>kalloc\<close>; it would then write through a null pointer.\<close>

definition inituvm :: "uint \<Rightarrow> uint \<Rightarrow> uint \<Rightarrow> ('z mstate_scheme, unit) kop" where
  "inituvm pgdir init sz =
     (if sz \<ge> PGSIZE then kpanic ''inituvm: more than a page''
      else kbind kalloc (\<lambda>m.
        if m = 0 then kfault
        else
          kseq (kmemset m 0 PGSIZE)
          (kseq (mappages pgdir 0 PGSIZE (v2p m) (PTE_W OR PTE_U))
          (kmemmove m init sz))))"

fun deallocuvm_loop :: "nat \<Rightarrow> uint \<Rightarrow> uint \<Rightarrow> uint \<Rightarrow> ('z mstate_scheme, unit) kop" where
  "deallocuvm_loop 0 pgdir a oldsz = (if a < oldsz then (\<lambda>s. Diverge) else kret ())"
| "deallocuvm_loop (Suc fuel) pgdir a oldsz =
     (if a < oldsz then
        kbind (walkpgdir pgdir a False) (\<lambda>pte.
          if pte = 0 then deallocuvm_loop fuel pgdir (a + (of_nat NPTENTRIES - 1) * PGSIZE + PGSIZE) oldsz
          else kbind (kload pte) (\<lambda>e.
            if e AND PTE_P \<noteq> 0 then
              if PTE_ADDR e = 0 then kpanic ''kfree''
              else
                kseq (kfree (p2v (PTE_ADDR e)))
                (kseq (kstore pte 0)
                (deallocuvm_loop fuel pgdir (a + PGSIZE) oldsz))
            else deallocuvm_loop fuel pgdir (a + PGSIZE) oldsz))
      else kret ())"

definition deallocuvm :: "uint \<Rightarrow> uint \<Rightarrow> uint \<Rightarrow> ('z mstate_scheme, uint) kop" where
  "deallocuvm pgdir oldsz newsz =
     (if newsz \<ge> oldsz then kret oldsz
      else
        let a = PGROUNDUP newsz in
        kseq (deallocuvm_loop (unat (oldsz - a) div 4096 + 1) pgdir a oldsz)
        (kret newsz))"

text \<open>The loop of \<open>allocuvm\<close>; the result of \<open>mappages\<close> is not looked at.\<close>

fun allocuvm_loop :: "nat \<Rightarrow> uint \<Rightarrow> uint \<Rightarrow> uint \<Rightarrow> uint \<Rightarrow> ('z mstate_scheme, uint) kop" where
  "allocuvm_loop 0 pgdir a oldsz newsz = (if a < newsz then (\<lambda>s. Diverge) else kret newsz)"
| "allocuvm_loop (Suc fuel) pgdir a oldsz newsz =
     (if a < newsz then
        kbind kalloc (\<lambda>m.
          if m = 0 then kseq (deallocuvm pgdir newsz oldsz) (kret 0)
          else
            kseq (kmemset m 0 PGSIZE)
            (kseq (mappages pgdir a PGSIZE (v2p m) (PTE_W OR PTE_U))
            (allocuvm_loop fuel pgdir (a + PGSIZE) oldsz newsz)))
      else kret newsz)"

definition allocuvm :: "uint \<Rightarrow> uint \<Rightarrow> uint \<Rightarrow> ('z mstate_scheme, uint) kop" where
  "allocuvm pgdir oldsz newsz =
     (if newsz \<ge> KERNBASE then kret 0
      else if newsz < oldsz then kret oldsz
      else
        let a = PGROUNDUP oldsz in
        allocuvm_loop (unat (newsz - a) div 4096 + 1) pgdir a oldsz newsz)"

definition freevm_one :: "uint \<Rightarrow> nat \<Rightarrow> ('z mstate_scheme, unit) kop" where
  "freevm_one pgdir i =
     kbind (kload (pgdir + 4 * of_nat i)) (\<lambda>e.
       kwhen (e AND PTE_P \<noteq> 0) (kfree (p2v (PTE_ADDR e))))"

definition freevm :: "uint \<Rightarrow> ('z mstate_scheme, unit) kop" where
  "freevm pgdir =
     (if pgdir = 0 then kpanic ''freevm: no pgdir''
      else
        kseq (deallocuvm pgdir KERNBASE 0)
        (kseq (kfor (freevm_one pgdir) [0..<NPDENTRIES])
        (kfree pgdir)))"

definition clearpteu :: "uint \<Rightarrow> uint \<Rightarrow> ('z mstate_scheme, unit) kop" where
  "clearpteu pgdir uva =
     kbind (walkpgdir pgdir uva False) (\<lambda>pte.
       if pte = 0 then kpanic ''clearpteu''
       else kbind (kload pte) (\<lambda>e. kstore pte (e AND NOT PTE_U)))"

fun copyuvm_loop :: "nat \<Rightarrow> uint \<Rightarrow> uint \<Rightarrow> uint \<Rightarrow> uint \<Rightarrow> ('z mstate_scheme, uint) kop" where
  "copyuvm_loop 0 d pgdir i sz = (if i < sz then (\<lambda>s. Diverge) else kret d)"
| "copyuvm_loop (Suc fuel) d pgdir i sz =
     (if i < sz then
        kbind (walkpgdir pgdir i False) (\<lambda>pte.
          if pte = 0 then kpanic ''copyuvm: pte should exist''
          else kbind (kload pte) (\<lambda>e.
            if e AND PTE_P = 0 then kpanic ''copyuvm: page not present''
            else kbind kalloc (\<lambda>m.
              if m = 0 then kseq (freevm d) (kret 0)
              else
                kseq (kmemmove m (p2v (PTE_ADDR e)) PGSIZE)
                (kbind (mappages d i PGSIZE (v2p m) (PTE_FLAGS e)) (\<lambda>r.
                  if sint r < 0 then kseq (freevm d) (kret 0)
                  else copyuvm_loop fuel d pgdir (i + PGSIZE) sz)))))
      else kret d)"

definition copyuvm :: "uint \<Rightarrow> uint \<Rightarrow> ('z mstate_scheme, uint) kop" where
  "copyuvm pgdir sz =
     kbind setupkvm (\<lambda>d.
       if d = 0 then kret 0
       else copyuvm_loop (unat sz div 4096 + 1) d pgdir 0 sz)"

definition uva2ka :: "uint \<Rightarrow> uint \<Rightarrow> ('z mstate_scheme, uint) kop" where
  "uva2ka pgdir uva =
     kbind (walkpgdir pgdir uva False) (\<lambda>pte.
       if pte = 0 then kfault
       else kbind (kload pte) (\<lambda>e.
         if e AND PTE_P = 0 then kret 0
         else if e AND PTE_U = 0 then kret 0
         else kret (p2v (PTE_ADDR e))))"

text \<open>
  A copy of bytes that do not lie in the target: \<open>memmove\<close> into a user page from the kernel stack or
  from a user string, and the transfers of \<open>readi\<close> to memory.
\<close>

fun put_bytes :: "uint \<Rightarrow> uchar list \<Rightarrow> memory \<Rightarrow> memory" where
  "put_bytes a [] m = m"
| "put_bytes a (c # cs) m = put_bytes (a + 1) cs (m(a := c))"

definition kwrite :: "uint \<Rightarrow> uchar list \<Rightarrow> ('z mstate_scheme, unit) kop" where
  "kwrite a cs = kmodify (\<lambda>s. s\<lparr>mem := put_bytes a cs (mem s)\<rparr>)"

lemma page_rest_pos: "0 < PGSIZE - (va - PGROUNDDOWN va)"
proof -
  have le: "unat (PGROUNDDOWN va) \<le> unat va" and lt: "unat va - unat (PGROUNDDOWN va) < 4096"
    by (auto simp: unat_PGROUNDDOWN)
  have "PGROUNDDOWN va \<le> va" using le by (simp add: word_le_nat_alt)
  then have "unat (va - PGROUNDDOWN va) = unat va - unat (PGROUNDDOWN va)" by (rule unat_sub)
  then have "va - PGROUNDDOWN va < PGSIZE" using lt by (simp add: word_less_nat_alt PGSIZE_def)
  then have "PGSIZE - (va - PGROUNDDOWN va) \<noteq> 0" by auto
  then show ?thesis by (simp add: word_gt_0)
qed

text \<open>The loop of \<open>copyout\<close> over the bytes still to copy (\<open>p\<close> and \<open>len\<close>).\<close>

function copyout :: "uint \<Rightarrow> uint \<Rightarrow> uchar list \<Rightarrow> ('z mstate_scheme, cint) kop" where
  "copyout pgdir va buf =
     (if buf \<noteq> [] then
        let va0 = PGROUNDDOWN va in
        kbind (uva2ka pgdir va0) (\<lambda>pa0.
          if pa0 = 0 then kret (- 1)
          else
            let n = min (unat (PGSIZE - (va - va0))) (length buf) in
            kseq (kwrite (pa0 + (va - va0)) (take n buf))
            (copyout pgdir (va0 + PGSIZE) (drop n buf)))
      else kret 0)"
  by pat_completeness auto

termination
proof (relation "measure (\<lambda>(pgdir, va, buf). length buf)", goal_cases)
  case (2 pgdir va buf va0 pa0 n)
  have "0 < unat (PGSIZE - (va - va0))" using page_rest_pos [of va] 2(2) by (simp add: word_less_nat_alt)
  then show ?case using 2 by simp
qed simp

end
