(* ===== verification/Process.thy ===== *)
theory Process
  imports File Vm
begin

text \<open>
  Processes (the rest of proc.c): creation, growth, exit, wait, kill and the scheduler. The table
  lock is held throughout each operation that the source brackets with it, so each is one step of
  the model. The saved kernel context that \<open>swtch\<close> restores is not represented: a process that gives
  up the processor ends the operation with the outcome \<open>Sleep\<close>.
\<close>

section \<open>Operations\<close>

definition set_proc :: "nat \<Rightarrow> (proc \<Rightarrow> proc) \<Rightarrow> ('z pstate_scheme, unit) kop" where
  "set_proc i f = kmodify (upd_proc i f)"

definition get_proc :: "nat \<Rightarrow> ('z pstate_scheme, proc) kop" where
  "get_proc i = kget (\<lambda>s. ptable s i)"

definition myproc :: "('z pstate_scheme, nat) kop" where
  "myproc s = (case curproc s of None \<Rightarrow> Fault | Some i \<Rightarrow> Done i s)"

definition SEG_UCODE :: ushort where "SEG_UCODE = 4"
definition SEG_UDATA :: ushort where "SEG_UDATA = 5"
definition DPL_USER :: ushort where "DPL_USER = 3"
definition FL_IF :: uint where "FL_IF = 0x200"

text \<open>\<open>allocproc\<close>; the frame it lays out at the top of the kernel stack is the record \<open>p_tf\<close>.\<close>

definition allocproc :: "('z pstate_scheme, nat option) kop" where
  "allocproc s = (case first_slot NPROC (\<lambda>i. p_state (ptable s i) = UNUSED) of
       None \<Rightarrow> Done None s
     | Some i \<Rightarrow>
         (kseq (set_proc i (\<lambda>p. p\<lparr>p_state := EMBRYO, p_pid := nextpid s\<rparr>))
          (kseq (kmodify (\<lambda>s. s\<lparr>nextpid := nextpid s + 1\<rparr>))
          (kbind kalloc (\<lambda>k.
           kseq (set_proc i (\<lambda>p. p\<lparr>p_kstack := k\<rparr>))
           (if k = 0 then kseq (set_proc i (\<lambda>p. p\<lparr>p_state := UNUSED\<rparr>)) (kret None)
            else kseq (set_proc i (\<lambda>p. p\<lparr>p_traceFlag := False\<rparr>)) (kret (Some i))))))) s)"

text \<open>\<open>switchuvm\<close> without the task state segment: the page table the processor uses from here on.\<close>

definition switchuvm :: "nat \<Rightarrow> ('z pstate_scheme, unit) kop" where
  "switchuvm i =
     kbind (get_proc i) (\<lambda>p.
     if p_pgdir p = 0 then kpanic ''switchuvm: no pgdir''
     else kmodify (\<lambda>s. s\<lparr>cr3 := v2p (p_pgdir p)\<rparr>))"

text \<open>The arguments are the address and the size of the program initcode.S, which the linker embeds.\<close>

definition userinit :: "uint \<Rightarrow> uint \<Rightarrow> ('z fstate_scheme, unit) kop" where
  "userinit initcode sz =
     kbind allocproc (\<lambda>r.
     case r of
       None \<Rightarrow> kfault
     | Some i \<Rightarrow>
         kseq (kmodify (\<lambda>s. s\<lparr>initproc := Some i\<rparr>))
         (kbind setupkvm (\<lambda>d.
         kseq (set_proc i (\<lambda>p. p\<lparr>p_pgdir := d\<rparr>))
         (if d = 0 then kpanic ''userinit: out of memory?''
          else
            kseq (inituvm d initcode sz)
            (kseq (set_proc i (\<lambda>p. p\<lparr>p_sz := PGSIZE,
                p_tf := \<lparr>tf_eax = 0, tf_cs = (push_bit 3 SEG_UCODE) OR DPL_USER, tf_ds = (push_bit 3 SEG_UDATA) OR DPL_USER,
                  tf_es = (push_bit 3 SEG_UDATA) OR DPL_USER, tf_ss = (push_bit 3 SEG_UDATA) OR DPL_USER,
                  tf_eflags = FL_IF, tf_esp = PGSIZE, tf_eip = 0\<rparr>,
                p_name := map (of_char) ''initcode''\<rparr>))
            (kbind (namei [slash]) (\<lambda>cwd.
            set_proc i (\<lambda>p. p\<lparr>p_cwd := cwd, p_state := RUNNABLE\<rparr>))))))))"

definition growproc :: "cint \<Rightarrow> ('z pstate_scheme, cint) kop" where
  "growproc n =
     kbind myproc (\<lambda>i.
     kbind (get_proc i) (\<lambda>p.
     kbind (if sint n > 0 then allocuvm (p_pgdir p) (p_sz p) (p_sz p + n)
            else if sint n < 0 then deallocuvm (p_pgdir p) (p_sz p) (p_sz p + n)
            else kret (p_sz p)) (\<lambda>sz.
     if n \<noteq> 0 \<and> sz = 0 then kret (- 1)
     else
       kseq (set_proc i (\<lambda>p. p\<lparr>p_sz := sz\<rparr>))
       (kseq (switchuvm i) (kret 0)))))"

text \<open>One iteration of the loop of \<open>fork\<close> over the open files.\<close>

definition fork_ofile :: "nat \<Rightarrow> nat \<Rightarrow> nat \<Rightarrow> ('z fstate_scheme, unit) kop" where
  "fork_ofile i np fd =
     kbind (get_proc i) (\<lambda>p.
     case p_ofile p fd of
       None \<Rightarrow> kret ()
     | Some f \<Rightarrow>
         kbind (filedup f) (\<lambda>f.
         set_proc np (\<lambda>q. q\<lparr>p_ofile := (p_ofile q)(fd := Some f)\<rparr>)))"

definition fork :: "('z fstate_scheme, cint) kop" where
  "fork =
     kbind allocproc (\<lambda>r.
     case r of
       None \<Rightarrow> kret (- 1)
     | Some np \<Rightarrow>
         kbind myproc (\<lambda>i.
         kbind (get_proc i) (\<lambda>p.
         kbind (copyuvm (p_pgdir p) (p_sz p)) (\<lambda>d.
         kseq (set_proc np (\<lambda>q. q\<lparr>p_pgdir := d\<rparr>))
         (if d = 0 then
            kbind (get_proc np) (\<lambda>q.
            kseq (kfree (p_kstack q))
            (kseq (set_proc np (\<lambda>q. q\<lparr>p_kstack := 0, p_state := UNUSED\<rparr>))
            (kret (- 1))))
          else
            kseq (set_proc np (\<lambda>q. q\<lparr>p_sz := p_sz p, p_parent := Some i, p_tf := (p_tf p)\<lparr>tf_eax := 0\<rparr>\<rparr>))
            (kseq (kfor (fork_ofile i np) [0..<NOFILE])
            (case p_cwd p of
               None \<Rightarrow> kfault
             | Some c \<Rightarrow>
                 kbind (idup c) (\<lambda>c.
                 kseq (set_proc np (\<lambda>q. q\<lparr>p_cwd := Some c, p_name := p_name p\<rparr>))
                 (kbind (get_proc np) (\<lambda>q.
                 kseq (set_proc np (\<lambda>q. q\<lparr>p_state := RUNNABLE\<rparr>))
                 (kret (p_pid q))))))))))))"

text \<open>One iteration of the loop of \<open>exit\<close> over the open files.\<close>

definition exit_ofile :: "nat \<Rightarrow> nat \<Rightarrow> ('z fstate_scheme, unit) kop" where
  "exit_ofile i fd =
     kbind (get_proc i) (\<lambda>p.
     case p_ofile p fd of
       None \<Rightarrow> kret ()
     | Some f \<Rightarrow> kseq (fileclose f) (set_proc i (\<lambda>q. q\<lparr>p_ofile := (p_ofile q)(fd := None)\<rparr>)))"

text \<open>\<open>wakeup1\<close> on a process pointer; nothing sleeps on the null pointer.\<close>

definition wakeup_proc :: "nat option \<Rightarrow> 'z pstate_scheme \<Rightarrow> 'z pstate_scheme" where
  "wakeup_proc p s = (case p of None \<Rightarrow> s | Some i \<Rightarrow> wakeup1 (ChProc i) s)"

text \<open>One iteration of the loop of \<open>exit\<close> that passes the children to init.\<close>

definition reparent1 :: "nat \<Rightarrow> nat \<Rightarrow> 'z pstate_scheme \<Rightarrow> 'z pstate_scheme" where
  "reparent1 i c s =
     (if p_parent (ptable s c) = Some i then
        let s = upd_proc c (\<lambda>p. p\<lparr>p_parent := initproc s\<rparr>) s in
        if p_state (ptable s c) = ZOMBIE then wakeup_proc (initproc s) s else s
      else s)"

text \<open>The part of \<open>exit\<close> under the table lock.\<close>

definition exit_locked :: "nat \<Rightarrow> 'z pstate_scheme \<Rightarrow> 'z pstate_scheme" where
  "exit_locked i s =
     (let s = wakeup_proc (p_parent (ptable s i)) s;
          s = fold (reparent1 i) [0..<NPROC] s
      in upd_proc i (\<lambda>p. p\<lparr>p_state := ZOMBIE\<rparr>) s)"

definition exit :: "('z fstate_scheme, 'a) kop" where
  "exit =
     kbind myproc (\<lambda>i.
     kbind (kget initproc) (\<lambda>ip.
     if ip = Some i then kpanic ''init exiting''
     else
       kseq (kfor (exit_ofile i) [0..<NOFILE])
       (kseq begin_op
       (kbind (get_proc i) (\<lambda>p.
       kseq (case p_cwd p of None \<Rightarrow> kfault | Some c \<Rightarrow> iput c)
       (kseq end_op
       (kseq (set_proc i (\<lambda>p. p\<lparr>p_cwd := None\<rparr>))
       (\<lambda>s. Sleep ChExit (exit_locked i s)))))))))"

text \<open>The scan of \<open>wait\<close> over the process table: a zombie child, and whether any child was seen.\<close>

fun wait_scan :: "nat \<Rightarrow> (nat \<Rightarrow> proc) \<Rightarrow> bool \<Rightarrow> nat list \<Rightarrow> nat option \<times> bool" where
  "wait_scan i tab havekids [] = (None, havekids)"
| "wait_scan i tab havekids (c # cs) =
     (if p_parent (tab c) \<noteq> Some i then wait_scan i tab havekids cs
      else if p_state (tab c) = ZOMBIE then (Some c, True)
      else wait_scan i tab True cs)"

definition wait :: "('z pstate_scheme, cint) kop" where
  "wait =
     kbind myproc (\<lambda>i.
     kbind (kget ptable) (\<lambda>tab.
     case wait_scan i tab False [0..<NPROC] of
       (Some c, _) \<Rightarrow>
         kseq (kfree (p_kstack (tab c)))
         (kseq (set_proc c (\<lambda>p. p\<lparr>p_kstack := 0\<rparr>))
         (kseq (freevm (p_pgdir (tab c)))
         (kseq (set_proc c (\<lambda>p. p\<lparr>p_state := UNUSED, p_pid := 0, p_parent := None, p_name := [], p_killed := False\<rparr>))
         (kret (p_pid (tab c))))))
     | (None, havekids) \<Rightarrow>
         if \<not> havekids \<or> p_killed (tab i) then kret (- 1)
         else sleep (ChProc i)))"

section \<open>Scheduling\<close>

text \<open>
  One pass of the scheduler's inner loop over the table. What happens between the \<open>swtch\<close> to a process
  and its \<open>swtch\<close> back is the argument \<open>run\<close>, applied to the chosen process.
\<close>

definition sched_one :: "(nat \<Rightarrow> ('z pstate_scheme, unit) kop) \<Rightarrow> nat \<Rightarrow> ('z pstate_scheme, unit) kop" where
  "sched_one run i =
     kbind (get_proc i) (\<lambda>p.
     if p_state p \<noteq> RUNNABLE then kret ()
     else
       kseq (kmodify (\<lambda>s. s\<lparr>curproc := Some i\<rparr>))
       (kseq (switchuvm i)
       (kseq (set_proc i (\<lambda>p. p\<lparr>p_state := RUNNING\<rparr>))
       (kseq (run i)
       (kseq switchkvm
       (kmodify (\<lambda>s. s\<lparr>curproc := None\<rparr>)))))))"

definition scheduler :: "(nat \<Rightarrow> ('z pstate_scheme, unit) kop) \<Rightarrow> ('z pstate_scheme, unit) kop" where
  "scheduler run = kfor (sched_one run) [0..<NPROC]"

definition yield :: "('z pstate_scheme, 'a) kop" where
  "yield = kbind myproc (\<lambda>i. \<lambda>s. Sleep ChYield (upd_proc i (\<lambda>p. p\<lparr>p_state := RUNNABLE\<rparr>) s))"

text \<open>What \<open>sleep\<close> does after its process is scheduled again.\<close>

definition sleep_tidy :: "('z pstate_scheme, unit) kop" where
  "sleep_tidy = kbind myproc (\<lambda>i. set_proc i (\<lambda>p. p\<lparr>p_chan := None\<rparr>))"

text \<open>\<open>forkret\<close> with its static variable \<open>first\<close> as argument and result.\<close>

definition forkret :: "bool \<Rightarrow> ('z lstate_scheme, bool) kop" where
  "forkret first = (if first then kseq initlog (kret False) else kret first)"

definition kill :: "cint \<Rightarrow> ('z pstate_scheme, cint) kop" where
  "kill pid s = (case first_slot NPROC (\<lambda>i. p_pid (ptable s i) = pid) of
       None \<Rightarrow> Done (- 1) s
     | Some i \<Rightarrow>
         Done 0 (upd_proc i (\<lambda>p. p\<lparr>p_killed := True,
           p_state := (if p_state p = SLEEPING then RUNNABLE else p_state p)\<rparr>) s))"

section \<open>Exit and wait\<close>

lemma set_proc_eq [kop_simps]: "set_proc i f s = Done () (upd_proc i f s)"
  by (simp add: set_proc_def kmodify_def)

lemma get_proc_eq [kop_simps]: "get_proc i s = Done (ptable s i) s"
  by (simp add: get_proc_def kget_def)

lemma myproc_eq [kop_simps]: "curproc s = Some i \<Longrightarrow> myproc s = Done i s"
  by (simp add: myproc_def)

text \<open>What a process observes of a step on the table of which it is not the subject: its state may
  change from sleeping on one of the channels \<open>C\<close> to runnable, and nothing else.\<close>

definition woken :: "chan set \<Rightarrow> proc \<Rightarrow> proc \<Rightarrow> bool" where
  "woken C p q \<longleftrightarrow> q = p \<or> (p_state p = SLEEPING \<and> (\<exists>c\<in>C. p_chan p = Some c) \<and> q = p\<lparr>p_state := RUNNABLE\<rparr>)"

lemma wokenI [simp]: "woken C p p"
  by (simp add: woken_def)

lemma woken_wakeup1: "c \<in> C \<Longrightarrow> woken C p (ptable s i) \<Longrightarrow> woken C p (ptable (wakeup1 c s) i)"
  by (auto simp: woken_def wakeup1_def)

text \<open>The loop over the children, for the slots it has passed.\<close>

definition reparented :: "nat \<Rightarrow> nat \<Rightarrow> nat option \<Rightarrow> 'z pstate_scheme \<Rightarrow> 'z pstate_scheme \<Rightarrow> bool" where
  "reparented n i ip s t \<longleftrightarrow>
     initproc t = ip \<and> curproc t = curproc s \<and> nextpid t = nextpid s \<and>
     (\<forall>c. woken (ChProc ` set_option ip)
        ((ptable s c)\<lparr>p_parent := if c < n \<and> p_parent (ptable s c) = Some i then ip else p_parent (ptable s c)\<rparr>)
        (ptable t c)) \<and>
     (\<forall>c q. c < n \<longrightarrow> p_parent (ptable s c) = Some i \<longrightarrow> p_state (ptable s c) = ZOMBIE \<longrightarrow> ip = Some q \<longrightarrow> q < NPROC \<longrightarrow>
        \<not> (p_state (ptable t q) = SLEEPING \<and> p_chan (ptable t q) = Some (ChProc q)))"

lemma upd_parent_self: "(p::proc)\<lparr>p_parent := p_parent p\<rparr> = p"
  by simp

lemma reparented_step:
  fixes s t :: "'z pstate_scheme"
  assumes r: "reparented n i ip s t" and ne: "ip \<noteq> Some i"
  shows "reparented (Suc n) i ip s (reparent1 i n t)"
proof -
  let ?C = "ChProc ` set_option ip"
  have w: "woken ?C ((ptable s c)\<lparr>p_parent := if c < n \<and> p_parent (ptable s c) = Some i then ip else p_parent (ptable s c)\<rparr>) (ptable t c)" for c
    using r by (simp add: reparented_def)
  have wn: "woken ?C (ptable s n) (ptable t n)" using w [of n] by simp
  have par: "p_parent (ptable t n) = p_parent (ptable s n)" and st: "p_state (ptable t n) = ZOMBIE \<longleftrightarrow> p_state (ptable s n) = ZOMBIE"
    using wn by (auto simp: woken_def)
  have ip: "initproc t = ip" using r by (simp add: reparented_def)
  have old: "\<not> (p_state (ptable t q) = SLEEPING \<and> p_chan (ptable t q) = Some (ChProc q))"
    if "c < n" "p_parent (ptable s c) = Some i" "p_state (ptable s c) = ZOMBIE" "ip = Some q" "q < NPROC" for c q
    using r that unfolding reparented_def by blast
  show ?thesis
  proof (cases "p_parent (ptable s n) = Some i")
    case False
    then have e: "reparent1 i n t = t" by (simp add: reparent1_def par)
    have eq: "(c < Suc n \<and> p_parent (ptable s c) = Some i) = (c < n \<and> p_parent (ptable s c) = Some i)" for c
      using False by (auto simp: less_Suc_eq)
    have "\<not> (p_state (ptable t q) = SLEEPING \<and> p_chan (ptable t q) = Some (ChProc q))"
      if "c < Suc n" "p_parent (ptable s c) = Some i" "p_state (ptable s c) = ZOMBIE" "ip = Some q" "q < NPROC" for c q
      using old [of c q] that eq [of c] by blast
    then show ?thesis using r unfolding e reparented_def eq by simp
  next
    case True
    let ?u = "upd_proc n (\<lambda>p. p\<lparr>p_parent := ip\<rparr>) t"
    have wu: "woken ?C ((ptable s c)\<lparr>p_parent := if c < Suc n \<and> p_parent (ptable s c) = Some i then ip else p_parent (ptable s c)\<rparr>) (ptable ?u c)" for c
    proof (cases "c = n")
      case True
      then show ?thesis using wn \<open>p_parent (ptable s n) = Some i\<close> by (auto simp: woken_def)
    next
      case False
      then have "(c < Suc n) = (c < n)" by auto
      then show ?thesis using w [of c] False by simp
    qed
    have oldu: "\<not> (p_state (ptable ?u q) = SLEEPING \<and> p_chan (ptable ?u q) = Some (ChProc q))"
      if "c < n" "p_parent (ptable s c) = Some i" "p_state (ptable s c) = ZOMBIE" "ip = Some q" "q < NPROC" for c q
      using old [OF that] by (cases "q = n") auto
    show ?thesis
    proof (cases "p_state (ptable s n) = ZOMBIE \<and> ip \<noteq> None")
      case False
      then have "reparent1 i n t = ?u"
        using True st ip by (auto simp: reparent1_def par Let_def wakeup_proc_def)
      moreover have "\<not> (p_state (ptable ?u q) = SLEEPING \<and> p_chan (ptable ?u q) = Some (ChProc q))"
        if "c < Suc n" "p_parent (ptable s c) = Some i" "p_state (ptable s c) = ZOMBIE" "ip = Some q" "q < NPROC" for c q
        using oldu [of c q] that False by (cases "c = n") auto
      ultimately show ?thesis using r wu unfolding reparented_def by simp
    next
      case z: True
      then obtain q where q: "ip = Some q" by auto
      have e: "reparent1 i n t = wakeup1 (ChProc q) ?u"
        using True st z q ip by (simp add: reparent1_def par Let_def wakeup_proc_def)
      have "woken ?C ((ptable s c)\<lparr>p_parent := if c < Suc n \<and> p_parent (ptable s c) = Some i then ip else p_parent (ptable s c)\<rparr>)
          (ptable (wakeup1 (ChProc q) ?u) c)" for c
        using wu [of c] by (intro woken_wakeup1) (simp add: q)
      then show ?thesis using r q wakeup1_no_sleeper [of q "ChProc q" ?u] unfolding e reparented_def by simp
    qed
  qed
qed

lemma reparented_fold:
  fixes s :: "'z pstate_scheme"
  assumes "initproc s = ip" "ip \<noteq> Some i"
  shows "reparented n i ip s (fold (reparent1 i) [0..<n] s)"
proof (induction n)
  case 0
  then show ?case using assms by (simp add: reparented_def)
next
  case (Suc n)
  then show ?case using reparented_step [OF Suc assms(2)] by simp
qed

lemma exit_locked_effect:
  fixes s :: "'z pstate_scheme"
  assumes "initproc s \<noteq> Some i" "i < NPROC"
  defines "t \<equiv> exit_locked i s"
  shows "p_state (ptable t i) = ZOMBIE \<and>
    (\<forall>c<NPROC. p_parent (ptable t c) = (if p_parent (ptable s c) = Some i then initproc s else p_parent (ptable s c))) \<and>
    (\<forall>c<NPROC. p_parent (ptable t c) \<noteq> Some i) \<and>
    (\<forall>q<NPROC. p_parent (ptable s i) = Some q \<and> q \<noteq> i \<and> p_state (ptable s q) = SLEEPING \<and> p_chan (ptable s q) = Some (ChProc q)
       \<longrightarrow> p_state (ptable t q) = RUNNABLE) \<and>
    (\<forall>c<NPROC. \<forall>q<NPROC. c \<noteq> i \<and> p_parent (ptable s c) = Some i \<and> p_state (ptable s c) = ZOMBIE \<and> initproc s = Some q \<and>
       p_state (ptable s q) = SLEEPING \<and> p_chan (ptable s q) = Some (ChProc q) \<longrightarrow> p_state (ptable t q) = RUNNABLE) \<and>
    (\<forall>c. c \<noteq> i \<longrightarrow> woken (ChProc ` (set_option (initproc s) \<union> set_option (p_parent (ptable s i))))
       ((ptable s c)\<lparr>p_parent := p_parent (ptable t c)\<rparr>) (ptable t c))"
proof -
  let ?s = "wakeup_proc (p_parent (ptable s i)) s"
  let ?f = "fold (reparent1 i) [0..<NPROC] ?s"
  have ip: "initproc ?s = initproc s" by (simp add: wakeup_proc_def split: option.split)
  have r: "reparented NPROC i (initproc s) ?s ?f" using reparented_fold [OF ip assms(1)] .
  have t: "t = upd_proc i (\<lambda>p. p\<lparr>p_state := ZOMBIE\<rparr>) ?f" by (simp add: t_def exit_locked_def Let_def)
  have ws: "woken (ChProc ` set_option (p_parent (ptable s i))) (ptable s c) (ptable ?s c)" for c
    by (cases "p_parent (ptable s i)") (auto simp: wakeup_proc_def intro: woken_wakeup1)
  have wf: "woken (ChProc ` set_option (initproc s))
      ((ptable ?s c)\<lparr>p_parent := if c < NPROC \<and> p_parent (ptable ?s c) = Some i then initproc s else p_parent (ptable ?s c)\<rparr>) (ptable ?f c)" for c
    using r by (simp add: reparented_def)
  have sp: "p_parent (ptable ?s c) = p_parent (ptable s c)" for c using ws [of c] by (auto simp: woken_def)
  have par: "p_parent (ptable t c) = (if c < NPROC \<and> p_parent (ptable s c) = Some i then initproc s else p_parent (ptable s c))" for c
    using wf [of c] unfolding sp by (auto simp: t woken_def)
  have both: "woken (ChProc ` (set_option (initproc s) \<union> set_option (p_parent (ptable s i))))
       ((ptable s c)\<lparr>p_parent := p_parent (ptable t c)\<rparr>) (ptable t c)" if "c \<noteq> i" for c
    using ws [of c] wf [of c] that unfolding par sp by (auto simp: t woken_def)
  have parent: "p_state (ptable t q) = RUNNABLE"
    if "q < NPROC" "p_parent (ptable s i) = Some q" "q \<noteq> i" "p_state (ptable s q) = SLEEPING" "p_chan (ptable s q) = Some (ChProc q)" for q
  proof -
    have "p_state (ptable ?s q) = RUNNABLE" using that by (simp add: wakeup_proc_def wakeup1_def)
    then show ?thesis using wf [of q] that(3) by (auto simp: t woken_def)
  qed
  have init: "p_state (ptable t q) = RUNNABLE"
    if "c < NPROC" "q < NPROC" "c \<noteq> i" "p_parent (ptable s c) = Some i" "p_state (ptable s c) = ZOMBIE" "initproc s = Some q"
      "p_state (ptable s q) = SLEEPING" "p_chan (ptable s q) = Some (ChProc q)" for c q
  proof -
    have z: "p_parent (ptable ?s c) = Some i" "p_state (ptable ?s c) = ZOMBIE" using ws [of c] that by (auto simp: woken_def)
    have ns: "\<not> (p_state (ptable ?f q) = SLEEPING \<and> p_chan (ptable ?f q) = Some (ChProc q))"
      using r that(1,2,6) z unfolding reparented_def by blast
    have "q \<noteq> i" using that(6) assms(1) by auto
    then show ?thesis using ns wf [of q] ws [of q] that(7,8) by (auto simp: t woken_def)
  qed
  have z: "p_state (ptable t i) = ZOMBIE" by (simp add: t)
  show ?thesis using z par both parent init assms(1) by auto
qed


text \<open>A table with init in slot 0 waiting for a child, and a process in slot 1 with a zombie child.\<close>

definition family :: "'z pstate_scheme \<Rightarrow> 'z pstate_scheme" where
  "family s = s\<lparr>initproc := Some 0, curproc := Some 1, ptable := (\<lambda>_. zero_proc)
     (0 := zero_proc\<lparr>p_state := SLEEPING, p_chan := Some (ChProc 0), p_pid := 1\<rparr>,
      1 := zero_proc\<lparr>p_state := RUNNING, p_pid := 2, p_parent := Some 0\<rparr>,
      2 := zero_proc\<lparr>p_state := ZOMBIE, p_pid := 3, p_parent := Some 1\<rparr>)\<rparr>"


text \<open>The scan of \<open>wait\<close> in terms of the set of children.\<close>

lemma wait_scan_eq:
  "wait_scan i tab h cs =
     (case find (\<lambda>c. p_parent (tab c) = Some i \<and> p_state (tab c) = ZOMBIE) cs of
        Some c \<Rightarrow> (Some c, True)
      | None \<Rightarrow> (None, h \<or> (\<exists>c\<in>set cs. p_parent (tab c) = Some i)))"
  by (induction cs arbitrary: h) (auto split: option.splits)

lemma wait_sleeps_or_fails:
  fixes s :: "'z pstate_scheme"
  assumes "curproc s = Some i" "\<forall>c<NPROC. \<not> (p_parent (ptable s c) = Some i \<and> p_state (ptable s c) = ZOMBIE)"
  shows "wait s = (if (\<forall>c<NPROC. p_parent (ptable s c) \<noteq> Some i) \<or> p_killed (ptable s i) then Done (- 1) s else sleep (ChProc i) s)"
proof -
  have "find (\<lambda>c. p_parent (ptable s c) = Some i \<and> p_state (ptable s c) = ZOMBIE) [0..<NPROC] = None"
    using assms(2) by (auto simp: find_None_iff)
  then show ?thesis using assms(1) by (auto simp: wait_def kop_simps wait_scan_eq)
qed

text \<open>
  C8. No wakeup is lost between \<open>exit\<close> and \<open>wait\<close>. A process whose children are all alive, and that has not
  been killed, goes to sleep in \<open>wait\<close> on its own channel, changing only its state and channel. When one
  of its children then exits, the sleeper is runnable again and its next scan of the table finds a
  zombie child, so \<open>wait\<close> does not go back to sleep.
\<close>

theorem exit_wait_handshake:
  fixes s :: "'z pstate_scheme"
  assumes "curproc s = Some q" "q < NPROC" "c < NPROC" "c \<noteq> q" "\<not> p_killed (ptable s q)" "initproc s \<noteq> Some c"
    and "p_parent (ptable s c) = Some q" "p_parent (ptable s c) \<noteq> Some c"
    and "\<forall>d<NPROC. \<not> (p_parent (ptable s d) = Some q \<and> p_state (ptable s d) = ZOMBIE)"
  shows "\<exists>s1 :: 'z pstate_scheme. wait s = Sleep (ChProc q) s1 \<and>
    s1 = upd_proc q (\<lambda>p. p\<lparr>p_chan := Some (ChProc q), p_state := SLEEPING\<rparr>) s \<and>
    p_state (ptable (exit_locked c s1) q) = RUNNABLE \<and>
    (\<exists>z. wait_scan q (ptable (exit_locked c s1)) False [0..<NPROC] = (Some z, True) \<and>
       p_parent (ptable (exit_locked c s1) z) = Some q \<and> p_state (ptable (exit_locked c s1) z) = ZOMBIE)"
proof -
  let ?s1 = "upd_proc q (\<lambda>p. p\<lparr>p_chan := Some (ChProc q), p_state := SLEEPING\<rparr>) s"
  let ?t = "exit_locked c ?s1"
  have w: "wait s = Sleep (ChProc q) ?s1"
    using wait_sleeps_or_fails [OF assms(1,9)] assms(3,5,7) by (auto simp: sleep_def assms(1))
  have t: "p_state (ptable ?t c) = ZOMBIE" "p_parent (ptable ?t c) = Some q" "p_state (ptable ?t q) = RUNNABLE"
    using exit_locked_effect [of ?s1 c] assms by auto
  have "find (\<lambda>d. p_parent (ptable ?t d) = Some q \<and> p_state (ptable ?t d) = ZOMBIE) [0..<NPROC] \<noteq> None"
    using t(1,2) assms(3) by (auto simp: find_None_iff)
  then obtain z where z: "find (\<lambda>d. p_parent (ptable ?t d) = Some q \<and> p_state (ptable ?t d) = ZOMBIE) [0..<NPROC] = Some z" by auto
  then have "p_parent (ptable ?t z) = Some q \<and> p_state (ptable ?t z) = ZOMBIE" by (auto simp: find_Some_iff)
  then show ?thesis using w t(3) z by (auto simp: wait_scan_eq)
qed

theorem exit_wait_handshake_witness:
  "\<forall>s :: pstate. \<exists>s1. wait ((family s)\<lparr>curproc := Some 0\<rparr>) = Sleep (ChProc 0) s1 \<and>
    p_state (ptable (exit_locked 1 s1) 0) = RUNNABLE"
proof
  fix s :: pstate
  let ?s = "(family s)\<lparr>curproc := Some 0\<rparr>"
  have h: "curproc ?s = Some 0" "0 < NPROC" "1 < NPROC" "(1 :: nat) \<noteq> 0" "\<not> p_killed (ptable ?s 0)" "initproc ?s \<noteq> Some 1"
      "p_parent (ptable ?s 1) = Some 0" "p_parent (ptable ?s 1) \<noteq> Some 1"
      "\<forall>d<NPROC. \<not> (p_parent (ptable ?s d) = Some 0 \<and> p_state (ptable ?s d) = ZOMBIE)"
    by (simp_all add: family_def zero_proc_def NPROC_def)
  show "\<exists>s1. wait ?s = Sleep (ChProc 0) s1 \<and> p_state (ptable (exit_locked 1 s1) 0) = RUNNABLE"
    using exit_wait_handshake [OF h] by blast
qed

section \<open>Scheduling\<close>

text \<open>
  What the scheduler needs of the processes it runs: each comes back, leaves the other runnable processes
  runnable, and every runnable process has a page table.
\<close>

definition runnable_mapped :: "'z pstate_scheme \<Rightarrow> bool" where
  "runnable_mapped s \<longleftrightarrow> (\<forall>i<NPROC. p_state (ptable s i) = RUNNABLE \<longrightarrow> p_pgdir (ptable s i) \<noteq> 0)"

definition comes_back :: "(nat \<Rightarrow> ('z pstate_scheme, unit) kop) \<Rightarrow> bool" where
  "comes_back run \<longleftrightarrow> (\<forall>j s. runnable_mapped s \<longrightarrow> (\<exists>s'. run j s = Done () s' \<and> runnable_mapped s' \<and>
     (\<forall>i. i \<noteq> j \<longrightarrow> p_state (ptable s i) = RUNNABLE \<longrightarrow> p_state (ptable s' i) = RUNNABLE)))"

text \<open>The machine when the scheduler has switched to a process.\<close>

definition switched_to :: "nat \<Rightarrow> 'z pstate_scheme \<Rightarrow> 'z pstate_scheme" where
  "switched_to i s = s\<lparr>curproc := Some i, cr3 := v2p (p_pgdir (ptable s i)),
     ptable := (ptable s)(i := (ptable s i)\<lparr>p_state := RUNNING\<rparr>)\<rparr>"

lemma sched_one_returns:
  fixes s :: "'z pstate_scheme"
  assumes "comes_back run" "runnable_mapped s" "j < NPROC"
  shows "\<exists>s'. sched_one run j s = Done () s' \<and> runnable_mapped s' \<and>
    (\<forall>i. i \<noteq> j \<longrightarrow> p_state (ptable s i) = RUNNABLE \<longrightarrow> p_state (ptable s' i) = RUNNABLE) \<and>
    (p_state (ptable s j) = RUNNABLE \<longrightarrow>
       (\<exists>r'. run j (switched_to j s) = Done () r' \<and> s' = r'\<lparr>cr3 := v2p (kpgdir r'), curproc := None\<rparr>))"
proof (cases "p_state (ptable s j) = RUNNABLE")
  case False
  then show ?thesis using assms(2) by (auto simp: sched_one_def kop_simps)
next
  case True
  let ?r = "switched_to j s"
  have pg: "p_pgdir (ptable s j) \<noteq> 0" using assms(2,3) True by (simp add: runnable_mapped_def)
  have "runnable_mapped ?r" using assms(2) by (simp add: runnable_mapped_def switched_to_def)
  then obtain r' where r': "run j ?r = Done () r'" "runnable_mapped r'"
      "\<forall>i. i \<noteq> j \<longrightarrow> p_state (ptable ?r i) = RUNNABLE \<longrightarrow> p_state (ptable r' i) = RUNNABLE"
    using assms(1) unfolding comes_back_def by blast
  have "sched_one run j s = Done () (r'\<lparr>cr3 := v2p (kpgdir r'), curproc := None\<rparr>)"
    using True pg r'(1) by (simp add: sched_one_def switchuvm_def switchkvm_def switched_to_def upd_proc_def kop_simps)
  moreover have "runnable_mapped (r'\<lparr>cr3 := v2p (kpgdir r'), curproc := None\<rparr>)"
    using r'(2) by (simp add: runnable_mapped_def)
  ultimately show ?thesis using r'(1,3)
    by (intro exI [of _ "r'\<lparr>cr3 := v2p (kpgdir r'), curproc := None\<rparr>"]) (simp add: switched_to_def)
qed

lemma sched_pass_returns:
  fixes s :: "'z pstate_scheme"
  assumes "comes_back run" "runnable_mapped s" "a \<le> b" "b \<le> NPROC"
  shows "\<exists>s'. kfor (sched_one run) [a..<b] s = Done () s' \<and> runnable_mapped s' \<and>
    (\<forall>i. i \<notin> {a..<b} \<longrightarrow> p_state (ptable s i) = RUNNABLE \<longrightarrow> p_state (ptable s' i) = RUNNABLE)"
proof -
  have "\<exists>t'. sched_one run n t = Done () t' \<and> runnable_mapped t' \<and>
      (\<forall>i. i \<notin> {a..<Suc n} \<longrightarrow> p_state (ptable s i) = RUNNABLE \<longrightarrow> p_state (ptable t' i) = RUNNABLE)"
    if n: "a \<le> n" "n < b" and t: "runnable_mapped t" "\<forall>i. i \<notin> {a..<n} \<longrightarrow> p_state (ptable s i) = RUNNABLE \<longrightarrow> p_state (ptable t i) = RUNNABLE"
    for n and t :: "'z pstate_scheme"
  proof -
    obtain t' where t': "sched_one run n t = Done () t'" "runnable_mapped t'"
        "\<forall>i. i \<noteq> n \<longrightarrow> p_state (ptable t i) = RUNNABLE \<longrightarrow> p_state (ptable t' i) = RUNNABLE"
      using sched_one_returns [OF assms(1) t(1), of n] n assms(4) by auto
    then show ?thesis using t(2) n by (intro exI [of _ t']) auto
  qed
  then show ?thesis
    using kfor_upt_rule [where P = "\<lambda>n t. runnable_mapped t \<and> (\<forall>i. i \<notin> {a..<n} \<longrightarrow> p_state (ptable s i) = RUNNABLE \<longrightarrow> p_state (ptable t i) = RUNNABLE)"
      and a = a and b = b and s = s and body = "sched_one run"] assms(2,3) by auto
qed

text \<open>
  C9. The scheduler starves no process. If every process it switches to comes back, leaving the other
  runnable processes runnable, then each pass over the table ends, and a process that is runnable when
  the pass begins runs in that pass: when the pass comes to it, in the state \<open>s1\<close> that the slots before it left, the
  process runs from \<open>switched_to i s1\<close>, in which it is the current process, \<open>RUNNING\<close>, on its own page table, and all
  else is as in \<open>s1\<close>; and the pass goes on from the state in which the process left the machine, with the kernel's page table
  and no current process.
\<close>

theorem scheduler_runs_every_runnable:
  fixes s :: "'z pstate_scheme"
  assumes "comes_back run" "runnable_mapped s" "i < NPROC" "p_state (ptable s i) = RUNNABLE"
  shows "\<exists>(s1 :: 'z pstate_scheme) r' s'. kfor (sched_one run) [0..<i] s = Done () s1 \<and> p_state (ptable s1 i) = RUNNABLE \<and>
    run i (switched_to i s1) = Done () r' \<and>
    kfor (sched_one run) [Suc i..<NPROC] (r'\<lparr>cr3 := v2p (kpgdir r'), curproc := None\<rparr>) = Done () s' \<and>
    scheduler run s = Done () s' \<and> runnable_mapped s'"
proof -
  obtain s1 where s1: "kfor (sched_one run) [0..<i] s = Done () s1" "runnable_mapped s1" "p_state (ptable s1 i) = RUNNABLE"
    using sched_pass_returns [OF assms(1,2), of 0 i] assms(3,4) by auto
  obtain s2 r' where s2: "sched_one run i s1 = Done () s2" "runnable_mapped s2" "run i (switched_to i s1) = Done () r'"
      "s2 = r'\<lparr>cr3 := v2p (kpgdir r'), curproc := None\<rparr>"
    using sched_one_returns [OF assms(1) s1(2) assms(3)] s1(3) by blast
  obtain s' where s': "kfor (sched_one run) [Suc i..<NPROC] s2 = Done () s'" "runnable_mapped s'"
    using sched_pass_returns [OF assms(1) s2(2), of "Suc i" NPROC] assms(3) by auto
  have "[0..<NPROC] = [0..<i] @ i # [Suc i..<NPROC]"
    using assms(3) by (metis less_imp_le_nat upt_add_eq_append upt_conv_Cons le_add_diff_inverse zero_le)
  then have "scheduler run s = Done () s'"
    using s1(1) s2(1) s'(1) by (simp add: scheduler_def kfor_append kop_simps)
  then show ?thesis using s1 s2 s' by auto
qed

theorem scheduler_runs_every_runnable_witness:
  "\<forall>s :: pstate. \<exists>s1 r' s'. let run = \<lambda>j. set_proc j (\<lambda>p. p\<lparr>p_state := SLEEPING\<rparr>);
       t = s\<lparr>ptable := (\<lambda>_. zero_proc\<lparr>p_pgdir := 0x80400000, p_state := RUNNABLE\<rparr>)\<rparr> in
     kfor (sched_one run) [0..<2] t = Done () s1 \<and> run 2 (switched_to 2 s1) = Done () r' \<and>
     scheduler run t = Done () s' \<and> runnable_mapped s'"
proof
  fix s :: pstate
  let ?run = "\<lambda>j. set_proc j (\<lambda>p. p\<lparr>p_state := SLEEPING\<rparr>) :: (pstate, unit) kop"
  let ?s = "s\<lparr>ptable := (\<lambda>_. zero_proc\<lparr>p_pgdir := 0x80400000, p_state := RUNNABLE\<rparr>)\<rparr>"
  have h: "comes_back ?run" "runnable_mapped ?s" "2 < NPROC" "p_state (ptable ?s 2) = RUNNABLE"
    by (auto simp: comes_back_def runnable_mapped_def kop_simps NPROC_def)
  show "\<exists>s1 r' s'. let run = ?run; t = ?s in
     kfor (sched_one run) [0..<2] t = Done () s1 \<and> run 2 (switched_to 2 s1) = Done () r' \<and>
     scheduler run t = Done () s' \<and> runnable_mapped s'"
    unfolding Let_def using scheduler_runs_every_runnable [OF h] by blast
qed

section \<open>Kill, growth and process identifiers\<close>

text \<open>
  C37. \<open>kill\<close> marks exactly the first slot whose \<open>pid\<close> field is the argument, wakes that process if it sleeps
  and returns 0; it returns -1 and changes nothing if there is none. It does not look at the state of
  the slot, and a free slot has \<open>pid\<close> 0: \<open>kill(0)\<close> marks a free slot, and since \<open>allocproc\<close> does not clear
  the mark, the process created next in that slot is born killed.
\<close>

theorem kill_zero_marks_free_slot:
  fixes s :: "'z pstate_scheme"
  assumes "first_slot NPROC (\<lambda>i. p_pid (ptable s i) = 0) = Some i" "p_state (ptable s i) = UNUSED"
    and "\<forall>j<i. p_state (ptable s j) \<noteq> UNUSED" "freelist s \<noteq> 0"
  shows "\<exists>s1 s2. kill 0 s = Done 0 s1 \<and> p_killed (ptable s1 i) \<and> p_state (ptable s1 i) = UNUSED \<and>
    allocproc s1 = Done (Some i) s2 \<and> p_killed (ptable s2 i) \<and> p_state (ptable s2 i) = EMBRYO"
proof -
  let ?s1 = "upd_proc i (\<lambda>p. p\<lparr>p_killed := True, p_state := (if p_state p = SLEEPING then RUNNABLE else p_state p)\<rparr>) s"
  have k: "kill 0 s = Done 0 ?s1" using assms(1) by (simp add: kill_def)
  have "i < NPROC" using assms(1) by (simp add: first_slot_Some)
  then have f: "first_slot NPROC (\<lambda>j. p_state (ptable ?s1 j) = UNUSED) = Some i"
    using assms(2,3) by (auto simp: first_slot_Some)
  have fl: "freelist (upd_proc i f t) = freelist t" for f and t :: "'z pstate_scheme" by (simp add: upd_proc_def)
  have "\<exists>s2. allocproc ?s1 = Done (Some i) s2 \<and> p_killed (ptable s2 i) \<and> p_state (ptable s2 i) = EMBRYO"
    using f assms(4) by (simp add: allocproc_def kop_simps kalloc_def Let_def fl)
  then show ?thesis using k assms(2) by auto
qed

theorem kill_zero_marks_free_slot_witness:
  "\<forall>s :: pstate. \<exists>s1 s2. kill 0 ((family s)\<lparr>freelist := 0x80400000\<rparr>) = Done 0 s1 \<and>
     allocproc s1 = Done (Some 3) s2 \<and> p_killed (ptable s2 3)"
proof
  fix s :: pstate
  let ?s = "(family s)\<lparr>freelist := 0x80400000\<rparr>"
  have "j < 3 \<Longrightarrow> j = 0 \<or> j = 1 \<or> j = 2" for j :: nat by linarith
  then have h: "first_slot NPROC (\<lambda>i. p_pid (ptable ?s i) = 0) = Some 3" "p_state (ptable ?s 3) = UNUSED"
      "\<forall>j<3. p_state (ptable ?s j) \<noteq> UNUSED" "freelist ?s \<noteq> 0"
    by (auto simp: first_slot_Some NPROC_def family_def zero_proc_def)
  show "\<exists>s1 s2. kill 0 ?s = Done 0 s1 \<and> allocproc s1 = Done (Some 3) s2 \<and> p_killed (ptable s2 3)"
    using kill_zero_marks_free_slot [OF h] by blast
qed

end
