(* ===== verification/Kbd.thy ===== *)
theory Kbd
  imports Prelude
begin

text \<open>
  The keyboard driver (kbd.c, kbd.h). The data port of the controller delivers one scan code at a
  time; \<open>kbdgetc\<close> is a function of the scan code and of its static variable \<open>shift\<close>.
\<close>

section \<open>Tables\<close>

unbundle bit_operations_syntax

definition SHIFT :: uint where "SHIFT = 1"
definition CTL :: uint where "CTL = 2"
definition ALT :: uint where "ALT = 4"
definition CAPSLOCK :: uint where "CAPSLOCK = 8"
definition NUMLOCK :: uint where "NUMLOCK = 16"
definition SCROLLLOCK :: uint where "SCROLLLOCK = 32"
definition E0ESC :: uint where "E0ESC = 64"

text \<open>An array initialised with the elements of a list and some designated elements, 0 elsewhere.\<close>

definition init_array :: "'a::zero list \<Rightarrow> (nat \<times> 'a) list \<Rightarrow> nat \<Rightarrow> 'a" where
  "init_array xs ys i = (if i < length xs then xs ! i else case map_of ys i of Some v \<Rightarrow> v | None \<Rightarrow> 0)"

definition shiftcode :: "nat \<Rightarrow> uint" where
  "shiftcode = init_array [] [(0x1D, CTL), (0x2A, SHIFT), (0x36, SHIFT), (0x38, ALT), (0x9D, CTL), (0xB8, ALT)]"

definition togglecode :: "nat \<Rightarrow> uint" where
  "togglecode = init_array [] [(0x3A, CAPSLOCK), (0x45, NUMLOCK), (0x46, SCROLLLOCK)]"

definition normalmap_low :: "uchar list" where
  "normalmap_low =
    [0x00, 0x1B, 0x31, 0x32, 0x33, 0x34, 0x35, 0x36, 0x37, 0x38, 0x39, 0x30, 0x2D, 0x3D, 0x08, 0x09,
     0x71, 0x77, 0x65, 0x72, 0x74, 0x79, 0x75, 0x69, 0x6F, 0x70, 0x5B, 0x5D, 0x0A, 0x00, 0x61, 0x73,
     0x64, 0x66, 0x67, 0x68, 0x6A, 0x6B, 0x6C, 0x3B, 0x27, 0x60, 0x00, 0x5C, 0x7A, 0x78, 0x63, 0x76,
     0x62, 0x6E, 0x6D, 0x2C, 0x2E, 0x2F, 0x00, 0x2A, 0x00, 0x20, 0x00, 0x00, 0x00, 0x00, 0x00, 0x00,
     0x00, 0x00, 0x00, 0x00, 0x00, 0x00, 0x00, 0x37, 0x38, 0x39, 0x2D, 0x34, 0x35, 0x36, 0x2B, 0x31,
     0x32, 0x33, 0x30, 0x2E, 0x00, 0x00, 0x00, 0x00]"

definition normalmap_high :: "(nat \<times> uchar) list" where
  "normalmap_high = [(0x9C, 0x0A), (0xB5, 0x2F), (0xC8, 0xE2), (0xD0, 0xE3), (0xC9, 0xE6), (0xD1, 0xE7),
     (0xCB, 0xE4), (0xCD, 0xE5), (0x97, 0xE0), (0xCF, 0xE1), (0xD2, 0xE8), (0xD3, 0xE9)]"

definition normalmap :: "nat \<Rightarrow> uchar" where
  "normalmap = init_array normalmap_low normalmap_high"

definition shiftmap_low :: "uchar list" where
  "shiftmap_low =
    [0x00, 0x1B, 0x21, 0x40, 0x23, 0x24, 0x25, 0x5E, 0x26, 0x2A, 0x28, 0x29, 0x5F, 0x2B, 0x08, 0x09,
     0x51, 0x57, 0x45, 0x52, 0x54, 0x59, 0x55, 0x49, 0x4F, 0x50, 0x7B, 0x7D, 0x0A, 0x00, 0x41, 0x53,
     0x44, 0x46, 0x47, 0x48, 0x4A, 0x4B, 0x4C, 0x3A, 0x22, 0x7E, 0x00, 0x7C, 0x5A, 0x58, 0x43, 0x56,
     0x42, 0x4E, 0x4D, 0x3C, 0x3E, 0x3F, 0x00, 0x2A, 0x00, 0x20, 0x00, 0x00, 0x00, 0x00, 0x00, 0x00,
     0x00, 0x00, 0x00, 0x00, 0x00, 0x00, 0x00, 0x37, 0x38, 0x39, 0x2D, 0x34, 0x35, 0x36, 0x2B, 0x31,
     0x32, 0x33, 0x30, 0x2E, 0x00, 0x00, 0x00, 0x00]"

definition shiftmap_high :: "(nat \<times> uchar) list" where
  "shiftmap_high = [(0x9C, 0x0A), (0xB5, 0x2F), (0xC8, 0xE2), (0xD0, 0xE3), (0xC9, 0xE6), (0xD1, 0xE7),
     (0xCB, 0xE4), (0xCD, 0xE5), (0x97, 0xE0), (0xCF, 0xE1), (0xD2, 0xE8), (0xD3, 0xE9)]"

definition shiftmap :: "nat \<Rightarrow> uchar" where
  "shiftmap = init_array shiftmap_low shiftmap_high"

definition ctlmap_low :: "uchar list" where
  "ctlmap_low =
    [0x00, 0x00, 0x00, 0x00, 0x00, 0x00, 0x00, 0x00, 0x00, 0x00, 0x00, 0x00, 0x00, 0x00, 0x00, 0x00,
     0x11, 0x17, 0x05, 0x12, 0x14, 0x19, 0x15, 0x09, 0x0F, 0x10, 0x00, 0x00, 0x0D, 0x00, 0x01, 0x13,
     0x04, 0x06, 0x07, 0x08, 0x0A, 0x0B, 0x0C, 0x00, 0x00, 0x00, 0x00, 0x1C, 0x1A, 0x18, 0x03, 0x16,
     0x02, 0x0E, 0x0D, 0x00, 0x00, 0xEF, 0x00, 0x00]"

definition ctlmap_high :: "(nat \<times> uchar) list" where
  "ctlmap_high = [(0x9C, 0x0D), (0xB5, 0xEF), (0xC8, 0xE2), (0xD0, 0xE3), (0xC9, 0xE6), (0xD1, 0xE7),
     (0xCB, 0xE4), (0xCD, 0xE5), (0x97, 0xE0), (0xCF, 0xE1), (0xD2, 0xE8), (0xD3, 0xE9)]"

definition ctlmap :: "nat \<Rightarrow> uchar" where
  "ctlmap = init_array ctlmap_low ctlmap_high"


section \<open>Operations\<close>

definition charcode :: "uint \<Rightarrow> nat \<Rightarrow> uchar" where
  "charcode k = [normalmap, shiftmap, ctlmap, ctlmap] ! unat k"

text \<open>
  \<open>kbdgetc\<close> on the byte of the data port, \<open>None\<close> when the status port has no data: the result and the
  new value of \<open>shift\<close>.
\<close>

definition kbdgetc :: "uchar option \<Rightarrow> uint \<Rightarrow> cint \<times> uint" where
  "kbdgetc port shift = (case port of
       None \<Rightarrow> (- 1, shift)
     | Some byte \<Rightarrow>
         let data = (ucast byte :: uint) in
         if data = 0xE0 then (0, shift OR E0ESC)
         else if data AND 0x80 \<noteq> 0 then
           let data = (if shift AND E0ESC \<noteq> 0 then data else data AND 0x7F)
           in (0, shift AND NOT (shiftcode (unat data) OR E0ESC))
         else
           let (data, shift) = (if shift AND E0ESC \<noteq> 0 then (data OR 0x80, shift AND NOT E0ESC) else (data, shift));
               shift = shift OR shiftcode (unat data);
               shift = shift XOR togglecode (unat data);
               c = (ucast (charcode (shift AND (CTL OR SHIFT)) (unat data)) :: uint);
               c = (if shift AND CAPSLOCK \<noteq> 0 then
                      if 0x61 \<le> c \<and> c \<le> 0x7A then c - 0x20
                      else if 0x41 \<le> c \<and> c \<le> 0x5A then c + 0x20 else c
                    else c)
           in (c, shift))"

text \<open>The characters \<open>kbdintr\<close> feeds to the console for a sequence of scan codes in the controller.\<close>

fun kbd_chars :: "uchar list \<Rightarrow> uint \<Rightarrow> cint list \<times> uint" where
  "kbd_chars [] shift = ([], shift)"
| "kbd_chars (b # bs) shift =
     (let (c, shift) = kbdgetc (Some b) shift; (cs, shift) = kbd_chars bs shift in (c # cs, shift))"

end
