(* ===== verification/Console.thy ===== *)
theory Console
  imports Process Kbd
begin

text \<open>
  The console (console.c, with \<open>procdump\<close> of proc.c): formatted output, the CGA screen and the input
  buffer with its line editing. The serial port is the list of bytes sent to it. The state record adds
  the tick counter of trap.c, which the system calls of the next theories use.
\<close>

unbundle bit_operations_syntax

section \<open>Data\<close>

definition INPUT_BUF :: uint where "INPUT_BUF = 128"

record cstate = fstate +
  ticks :: uint
  panicked :: bool
  uart_out :: "uchar list"
  crt :: "nat \<Rightarrow> ushort"
  crt_pos :: int
  in_buf :: "nat \<Rightarrow> uchar"
  in_r :: uint
  in_w :: uint
  in_e :: uint
  kbd_shift :: uint

section \<open>Formatted output\<close>

definition digits :: "uchar list" where "digits = map of_char ''0123456789abcdef''"

text \<open>The do-while loop of \<open>printint\<close>: the digits, least significant first.\<close>

function printint_digits :: "uint \<Rightarrow> uint \<Rightarrow> uchar list" where
  "printint_digits base x =
     (if base \<le> 1 then [] else
      digits ! unat (x mod base) # (if x div base = 0 then [] else printint_digits base (x div base)))"
  by pat_completeness auto

termination
proof (relation "measure (\<lambda>(base, x). unat x)", goal_cases)
  case (2 base x)
  have "1 < unat base" using 2 by (simp add: word_less_nat_alt not_le)
  moreover have "unat x \<noteq> 0" using 2 by (auto simp: unat_eq_zero)
  ultimately show ?case by (simp add: unat_div)
qed simp

definition printint :: "cint \<Rightarrow> uint \<Rightarrow> bool \<Rightarrow> uchar list" where
  "printint xx base sign =
     (let neg = (sign \<and> sint xx < 0); x = (if neg then - xx else xx)
      in rev (printint_digits base x @ (if neg then [0x2D] else [])))"

text \<open>An argument of \<open>cprintf\<close>: a number, or a pointer to a string with its characters.\<close>

datatype arg = ANum uint | AStr "uchar list option"

definition ch :: "char \<Rightarrow> uchar" where "ch = of_char"

definition arg_num :: "arg list \<Rightarrow> uint option" where
  "arg_num as = (case as of ANum x # _ \<Rightarrow> Some x | _ \<Rightarrow> None)"

text \<open>The characters \<open>cprintf\<close> prints; \<open>None\<close> when it reads an argument it was not given.\<close>

fun cprintf_chars :: "uchar list \<Rightarrow> arg list \<Rightarrow> uchar list option" where
  "cprintf_chars [] as = Some []"
| "cprintf_chars [c] as = (if c \<noteq> 0x25 then Some [c] else Some [])"
| "cprintf_chars (c # d # fmt) as =
     (if c \<noteq> 0x25 then map_option (\<lambda>r. c # r) (cprintf_chars (d # fmt) as)
      else if d = 0x64 then
        (case as of ANum x # as' \<Rightarrow> map_option (\<lambda>r. printint x 10 True @ r) (cprintf_chars fmt as') | _ \<Rightarrow> None)
      else if d = 0x78 \<or> d = 0x70 then
        (case as of ANum x # as' \<Rightarrow> map_option (\<lambda>r. printint x 16 False @ r) (cprintf_chars fmt as') | _ \<Rightarrow> None)
      else if d = 0x73 then
        (case as of AStr s # as' \<Rightarrow>
           map_option (\<lambda>r. (case s of None \<Rightarrow> map of_char ''(null)'' | Some t \<Rightarrow> t) @ r) (cprintf_chars fmt as')
         | _ \<Rightarrow> None)
      else if d = 0x25 then map_option (\<lambda>r. 0x25 # r) (cprintf_chars fmt as)
      else map_option (\<lambda>r. 0x25 # d # r) (cprintf_chars fmt as))"

section \<open>The screen and the serial port\<close>

definition BACKSPACE :: cint where "BACKSPACE = 0x100"

text \<open>\<open>cgaputc\<close> on the text memory and the cursor position that the CRT controller holds.\<close>

definition cgaputc :: "cint \<Rightarrow> (nat \<Rightarrow> ushort) \<times> int \<Rightarrow> (nat \<Rightarrow> ushort) \<times> int" where
  "cgaputc c = (\<lambda>(m, pos).
     let (m, pos) =
           (if c = 0x0A then (m, pos + (80 - pos mod 80))
            else if c = BACKSPACE then (m, if pos > 0 then pos - 1 else pos)
            else (m(nat pos := ucast (c AND 0xFF) OR 0x0700), pos + 1));
         (m, pos) =
           (if pos div 80 \<ge> 24 then
              let m = (\<lambda>i. if i < 23 * 80 then m (i + 80) else m i); pos = pos - 80
              in (\<lambda>i. if nat pos \<le> i \<and> i < 24 * 80 then 0 else m i, pos)
            else (m, pos))
     in (m(nat pos := 0x20 OR 0x0700), pos))"

definition consputc :: "cint \<Rightarrow> ('z cstate_scheme, unit) kop" where
  "consputc c s =
     (if panicked s then Diverge
      else
        let (m, pos) = cgaputc c (crt s, crt_pos s) in
        Done () (s\<lparr>uart_out := uart_out s @ (if c = BACKSPACE then [0x08, 0x20, 0x08] else [ucast c]),
          crt := m, crt_pos := pos\<rparr>))"

definition cprintf :: "uchar list \<Rightarrow> arg list \<Rightarrow> ('z cstate_scheme, unit) kop" where
  "cprintf fmt as = (case cprintf_chars fmt as of
       None \<Rightarrow> kfault
     | Some cs \<Rightarrow> kfor (\<lambda>c. consputc (ucast c)) cs)"

text \<open>\<open>procdump\<close>; \<open>pcs\<close> is the call chain that \<open>getcallerpcs\<close> reads from a process's kernel stack.\<close>

definition state_name :: "procstate \<Rightarrow> string" where
  "state_name st = (case st of UNUSED \<Rightarrow> ''unused'' | EMBRYO \<Rightarrow> ''embryo'' | SLEEPING \<Rightarrow> ''sleep ''
     | RUNNABLE \<Rightarrow> ''runble'' | RUNNING \<Rightarrow> ''run   '' | ZOMBIE \<Rightarrow> ''zombie'')"

definition procdump1 :: "(nat \<Rightarrow> uint list) \<Rightarrow> nat \<Rightarrow> ('z cstate_scheme, unit) kop" where
  "procdump1 pcs i =
     kbind (get_proc i) (\<lambda>p.
     if p_state p = UNUSED then kret ()
     else
       kseq (cprintf (map of_char ''%d %s %s'')
         [ANum (p_pid p), AStr (Some (map of_char (state_name (p_state p)))), AStr (Some (p_name p))])
       (kseq (kwhen (p_state p = SLEEPING)
          (kfor (\<lambda>pc. cprintf (map of_char '' %p'') [ANum pc]) (takeWhile (\<lambda>pc. pc \<noteq> 0) (take 10 (pcs i)))))
       (cprintf [0x0A] [])))"

definition procdump :: "(nat \<Rightarrow> uint list) \<Rightarrow> ('z cstate_scheme, unit) kop" where
  "procdump pcs = kfor (procdump1 pcs) [0..<NPROC]"

section \<open>Input\<close>

definition Ctrl :: "uint \<Rightarrow> cint" where "Ctrl x = x - 0x40"

definition in_at :: "uint \<Rightarrow> 'z cstate_scheme \<Rightarrow> uchar" where
  "in_at i s = in_buf s (unat (i mod INPUT_BUF))"

text \<open>The loop for control-U; \<open>e - w\<close> is the number of characters it can remove.\<close>

fun killline :: "nat \<Rightarrow> ('z cstate_scheme, unit) kop" where
  "killline 0 = kret ()"
| "killline (Suc k) = (\<lambda>s.
     if in_e s \<noteq> in_w s \<and> in_at (in_e s - 1) s \<noteq> 0x0A then
       kseq (kmodify (\<lambda>s. s\<lparr>in_e := in_e s - 1\<rparr>)) (kseq (consputc BACKSPACE) (killline k)) s
     else Done () s)"

definition consoleintr1 :: "(nat \<Rightarrow> uint list) \<Rightarrow> cint \<Rightarrow> ('z cstate_scheme, unit) kop" where
  "consoleintr1 pcs c s =
     (if c = Ctrl 0x50 then procdump pcs s
      else if c = Ctrl 0x55 then killline (unat (in_e s - in_w s)) s
      else if c = Ctrl 0x48 \<or> c = 0x7F then
        (if in_e s \<noteq> in_w s then
           kseq (kmodify (\<lambda>s. s\<lparr>in_e := in_e s - 1\<rparr>)) (consputc BACKSPACE) s
         else Done () s)
      else if c \<noteq> 0 \<and> in_e s - in_r s < INPUT_BUF then
        let c = (if c = 0x0D then 0x0A else c) in
        kseq (kmodify (\<lambda>s. s\<lparr>in_buf := (in_buf s)(unat (in_e s mod INPUT_BUF) := ucast c), in_e := in_e s + 1\<rparr>))
        (kseq (consputc c)
        (\<lambda>s. if c = 0x0A \<or> c = Ctrl 0x44 \<or> in_e s = in_r s + INPUT_BUF then
               kseq (kmodify (\<lambda>s. s\<lparr>in_w := in_e s\<rparr>)) (wakeup ChInput) s
             else Done () s)) s
      else Done () s)"

text \<open>\<open>consoleintr\<close> on the characters that \<open>getc\<close> returns before it returns a negative number.\<close>

definition consoleintr :: "(nat \<Rightarrow> uint list) \<Rightarrow> cint list \<Rightarrow> ('z cstate_scheme, unit) kop" where
  "consoleintr pcs cs = kfor (consoleintr1 pcs) cs"

definition kbdintr :: "(nat \<Rightarrow> uint list) \<Rightarrow> uchar list \<Rightarrow> ('z cstate_scheme, unit) kop" where
  "kbdintr pcs scan s =
     (let (cs, shift) = kbd_chars scan (kbd_shift s)
      in consoleintr pcs cs (s\<lparr>kbd_shift := shift\<rparr>))"

text \<open>
  The loop of \<open>consoleread\<close>: \<open>n\<close> bytes are still wanted, \<open>first\<close> says that none has been read yet. The
  result is \<open>None\<close> when the process was killed.
\<close>

fun consoleread_loop :: "nat \<Rightarrow> bool \<Rightarrow> ('z cstate_scheme, uchar list option) kop" where
  "consoleread_loop 0 first = kret (Some [])"
| "consoleread_loop (Suc n) first = (\<lambda>s.
     if in_r s = in_w s then
       kbind get_curproc (\<lambda>p. if p_killed p then kret None else sleep ChInput) s
     else
       let c = in_at (in_r s) s; s = s\<lparr>in_r := in_r s + 1\<rparr> in
       if c = 0x04 then Done (Some []) (if \<not> first then s\<lparr>in_r := in_r s - 1\<rparr> else s)
       else if c = 0x0A then Done (Some [c]) s
       else kbind (consoleread_loop n False) (\<lambda>r. kret (map_option (\<lambda>cs. c # cs) r)) s)"

definition consoleread :: "nat \<Rightarrow> uint \<Rightarrow> ('z cstate_scheme, cint \<times> uchar list) kop" where
  "consoleread ip n =
     kseq (iunlock ip)
     (kbind (consoleread_loop (nat (sint n)) True) (\<lambda>r.
     kseq (ilock ip)
     (case r of None \<Rightarrow> kret (- 1, []) | Some cs \<Rightarrow> kret (if sint n \<le> 0 then 0 else of_nat (length cs), cs))))"

definition consolewrite :: "nat \<Rightarrow> uchar list \<Rightarrow> ('z cstate_scheme, cint) kop" where
  "consolewrite ip buf =
     kseq (iunlock ip)
     (kseq (kfor (\<lambda>c. consputc (ucast c)) buf)
     (kseq (ilock ip) (kret (of_nat (length buf)))))"

text \<open>The device switch after \<open>consoleinit\<close>.\<close>

definition CONSOLE :: nat where "CONSOLE = 1"

definition console_devsw :: "('z cstate_scheme) devsw" where
  "console_devsw = \<lparr>dev_read = (\<lambda>m. if m = CONSOLE then Some consoleread else None),
     dev_write = (\<lambda>m. if m = CONSOLE then Some consolewrite else None)\<rparr>"

section \<open>Numbers and the screen\<close>

definition dig_val :: "uchar \<Rightarrow> nat" where
  "dig_val c = (if c \<le> 0x39 then unat c - 0x30 else unat c - 0x61 + 10)"

text \<open>The number that a string of digits denotes, most significant digit first, with a sign.\<close>

definition parse_nat :: "nat \<Rightarrow> uchar list \<Rightarrow> nat" where
  "parse_nat base cs = foldl (\<lambda>n c. base * n + dig_val c) 0 cs"

definition parse_num :: "nat \<Rightarrow> uchar list \<Rightarrow> int" where
  "parse_num base cs = (case cs of [] \<Rightarrow> 0 | c # cs' \<Rightarrow> if c = 0x2D then - int (parse_nat base cs') else int (parse_nat base cs))"

lemma dig_val_digits: "k < 16 \<Longrightarrow> dig_val (digits ! k) = k \<and> digits ! k \<noteq> 0x2D"
proof -
  have "\<forall>k\<in>set [0..<16]. dig_val (digits ! k) = k \<and> digits ! k \<noteq> 0x2D" by code_simp
  then show "k < 16 \<Longrightarrow> ?thesis" by simp
qed

declare printint_digits.simps [simp del]

lemma printint_digits_props:
  assumes "1 < base" "base \<le> 16"
  shows "parse_nat (unat base) (rev (printint_digits base x)) = unat x \<and>
    printint_digits base x \<noteq> [] \<and> 0x2D \<notin> set (printint_digits base x) \<and>
    unat base ^ (length (printint_digits base x) - 1) \<le> max 1 (unat x)"
  using assms
proof (induction base x rule: printint_digits.induct)
  case (1 base x)
  let ?q = "x div base"
  have b: "\<not> base \<le> 1" "1 < unat base" "unat base \<le> 16" using "1.prems" by (simp_all add: not_le word_less_nat_alt word_le_nat_alt)
  have q: "unat ?q = unat x div unat base" "unat (x mod base) = unat x mod unat base" by (simp_all add: unat_div unat_mod)
  have "unat x mod unat base < unat base" using b(2) by simp
  then have d: "dig_val (digits ! unat (x mod base)) = unat x mod unat base" "digits ! unat (x mod base) \<noteq> 0x2D"
    using dig_val_digits [of "unat (x mod base)"] b(3) q(2) by auto
  show ?case
  proof (cases "?q = 0")
    case True
    then have "unat x div unat base = 0" using q(1) by simp
    then have "unat x mod unat base = unat x" using b(2) by (simp add: div_eq_0_iff)
    moreover have e: "printint_digits base x = [digits ! unat (x mod base)]" using True b(1) by (subst printint_digits.simps) simp
    ultimately show ?thesis using d by (simp add: parse_nat_def)
  next
    case False
    have e: "printint_digits base x = digits ! unat (x mod base) # printint_digits base ?q" using False b(1) by (subst printint_digits.simps) simp
    note IH = "1.IH" [OF b(1) False "1.prems"]
    have "unat ?q \<ge> 1" using False by (simp add: Suc_le_eq unat_gt_0)
    then have m: "max 1 (unat ?q) = unat x div unat base" using q(1) by simp
    obtain l where l: "length (printint_digits base ?q) = Suc l" using IH by (cases "printint_digits base ?q") auto
    have "unat base ^ Suc l \<le> unat base * (unat x div unat base)" using IH l m by simp
    also have "\<dots> \<le> unat x" by simp
    finally have "unat base ^ Suc l \<le> max 1 (unat x)" by simp
    moreover have "parse_nat (unat base) (rev (printint_digits base x)) = unat base * (unat x div unat base) + unat x mod unat base"
      using IH d(1) q(1) unfolding e by (simp add: parse_nat_def)
    moreover have "length (printint_digits base x) - 1 = Suc l" unfolding e using l by simp
    moreover have "0x2D \<notin> set (printint_digits base x)" "printint_digits base x \<noteq> []" unfolding e using d(2) IH by auto
    ultimately show ?thesis by simp
  qed
qed

lemma sint_split: "sint (x :: cint) = (if uint x < 2 ^ 31 then uint x else uint x - 2 ^ 32)"
proof -
  have "sint x = signed_take_bit 31 (uint x)" by (simp add: sint_uint)
  also have "\<dots> = (if uint x < 2 ^ 31 then uint x else uint x - 2 ^ 32)"
  proof (cases "uint x < 2 ^ 31")
    case True
    have "- (2 ^ 31) \<le> uint x" by (rule order_trans [OF _ uint_ge_0]) simp
    then have "signed_take_bit 31 (uint x) = uint x" using True by (intro signed_take_bit_int_eq_self) auto
    then show ?thesis using True by simp
  next
    case False
    have "signed_take_bit 31 (uint x) = signed_take_bit 31 (uint x - 2 ^ 32)"
      by (rule signed_take_bit_eq_iff_take_bit_eq [THEN iffD2]) (simp add: take_bit_eq_mod)
    also have "\<dots> = uint x - 2 ^ 32" using False uint_lt2p [of x] by (intro signed_take_bit_int_eq_self) auto
    finally show ?thesis using False by simp
  qed
  finally show ?thesis .
qed

lemma sint_neg_uint: "sint (x :: cint) < 0 \<Longrightarrow> sint x = uint x - 2 ^ 32"
  by (simp add: sint_split split: if_splits)

lemma sint_nonneg_uint: "\<not> sint (x :: cint) < 0 \<Longrightarrow> sint x = uint x"
  using uint_lt2p [of x] by (simp add: sint_split split: if_splits)

lemma parse_num_printint:
  assumes "1 < base" "base \<le> 16"
  shows "parse_num (unat base) (printint x base sign) = (if sign then sint x else uint x)"
proof -
  let ?neg = "sign \<and> sint x < 0"
  let ?d = "rev (printint_digits base (if ?neg then - x else x))"
  have p: "parse_nat (unat base) ?d = unat (if ?neg then - x else x)" "?d \<noteq> []" "0x2D \<notin> set ?d"
    using printint_digits_props [OF assms, of "if ?neg then - x else x"] by auto
  show ?thesis
  proof (cases ?neg)
    case True
    then have "printint x base sign = 0x2D # ?d" by (simp add: printint_def)
    moreover have "int (unat (- x)) = - sint x"
    proof -
      have s: "sint x = uint x - 2 ^ 32" using True sint_neg_uint by simp
      have "x \<noteq> 0" using True by auto
      then have "uint x \<noteq> 0" by (simp add: uint_0_iff)
      then have "uint x mod 2 ^ 32 \<noteq> 0" using uint_lt2p [of x] uint_ge_0 [of x] by (simp add: mod_pos_pos_trivial)
      then have "(- uint x) mod 2 ^ 32 = 2 ^ 32 - uint x mod 2 ^ 32" by (simp add: zmod_zminus1_eq_if)
      moreover have "uint x mod 2 ^ 32 = uint x" using uint_lt2p [of x] uint_ge_0 [of x] by (intro mod_pos_pos_trivial) auto
      moreover have "uint (- x) = (- uint x) mod 2 ^ 32" by (simp add: uint_word_ariths)
      ultimately have "uint (- x) = 2 ^ 32 - uint x" by simp
      then show ?thesis using s by simp
    qed
    ultimately show ?thesis using True p(1) by (simp add: parse_num_def)
  next
    case False
    then have e: "printint x base sign = ?d" by (auto simp: printint_def Let_def)
    obtain c cs where c: "?d = c # cs" using p(2) by (cases ?d) auto
    then have "c \<noteq> 0x2D" using p(3) by (metis list.set_intros(1))
    then have "parse_num (unat base) ?d = int (unat x)" using p(1) False unfolding parse_num_def c by auto
    moreover have "sign \<Longrightarrow> sint x = uint x" using False sint_nonneg_uint by simp
    ultimately show ?thesis unfolding e by simp
  qed
qed

text \<open>
  \<open>printint\<close> prints what it is given: for the two ways \<open>cprintf\<close> calls it, the printed string read
  back is the signed value of the argument in base 10, and its unsigned value in base 16. For every
  argument at most 16 characters are stored, which is the size of the array \<open>buf\<close>.
\<close>

lemma printint_roundtrip:
  "parse_num 10 (printint x 10 True) = sint x \<and> parse_num 16 (printint x 16 False) = uint x \<and>
   length (printint x 10 True) \<le> 16 \<and> length (printint x 16 False) \<le> 16"
proof -
  have len: "length (printint_digits base y) \<le> 10" if b: "10 \<le> unat base" "base \<le> 16" for base y :: uint
  proof (rule ccontr)
    assume n: "\<not> length (printint_digits base y) \<le> 10"
    have "1 < base" using b(1) by (simp add: word_less_nat_alt)
    then have "unat base ^ (length (printint_digits base y) - 1) \<le> max 1 (unat y)"
      using printint_digits_props [OF _ b(2)] by blast
    moreover have "unat y < 2 ^ 32" by (rule order_less_le_trans [OF unsigned_less]) simp
    moreover have "(10 :: nat) ^ 10 \<le> unat base ^ (length (printint_digits base y) - 1)"
    proof -
      let ?k = "length (printint_digits base y) - 1"
      have "(10 :: nat) ^ 10 \<le> 10 ^ ?k" using n by (intro power_increasing) auto
      also have "\<dots> \<le> unat base ^ ?k" using b(1) by (intro power_mono) auto
      finally show ?thesis .
    qed
    ultimately show False by simp
  qed
  have "length (printint x base sign) \<le> 16" if "10 \<le> unat base" "base \<le> 16" for base sign
    using len [OF that, of "if sign \<and> sint x < 0 then - x else x"] by (auto simp: printint_def Let_def)
  then show ?thesis using parse_num_printint [of 10 x True] parse_num_printint [of 16 x False] by simp
qed

text \<open>The screen after its lines have moved up by one.\<close>

definition scrolled :: "(nat \<Rightarrow> ushort) \<Rightarrow> nat \<Rightarrow> ushort" where
  "scrolled m = (\<lambda>i. if i < 23 * 80 then m (i + 80) else if i < 24 * 80 then 0 else m i)"

text \<open>
  C33. The screen is never written outside its 24 lines of 80 cells, and the cursor stays inside them: from
  a cursor position on the screen, \<open>cgaputc\<close> of any character leaves the cursor on the screen, leaves the
  rest of the text memory alone, and shows a blank under the cursor. Each kind of character has exactly its effect: an
  ordinary one appears at the old position and the cursor moves one cell on, after the last cell to the start of the last
  line with the screen scrolled; a newline moves to the start of the next line, from the last line with the screen
  scrolled; a backspace moves the cursor one cell back, or nowhere at the top left, and blanks that cell. Nothing else changes.
\<close>

theorem cgaputc_in_screen:
  assumes "0 \<le> pos" "pos < 24 * 80" "cgaputc c (m, pos) = (m', pos')"
  shows "0 \<le> pos' \<and> pos' < 24 * 80 \<and> m' (nat pos') = 0x0720 \<and> (\<forall>i\<ge>24 * 80. m' i = m i) \<and>
    (c \<noteq> 0x0A \<and> c \<noteq> BACKSPACE \<and> pos + 1 < 24 * 80 \<longrightarrow>
       pos' = pos + 1 \<and> m' = m(nat pos := ucast (c AND 0xFF) OR 0x0700, nat pos' := 0x0720)) \<and>
    (c \<noteq> 0x0A \<and> c \<noteq> BACKSPACE \<and> pos + 1 = 24 * 80 \<longrightarrow>
       pos' = 23 * 80 \<and> m' = (scrolled (m(nat pos := ucast (c AND 0xFF) OR 0x0700)))(nat pos' := 0x0720)) \<and>
    (c = 0x0A \<and> pos < 23 * 80 \<longrightarrow> pos' = 80 * (pos div 80 + 1) \<and> m' = m(nat pos' := 0x0720)) \<and>
    (c = 0x0A \<and> pos \<ge> 23 * 80 \<longrightarrow> pos' = 23 * 80 \<and> m' = (scrolled m)(nat pos' := 0x0720)) \<and>
    (c = BACKSPACE \<longrightarrow> pos' = max 0 (pos - 1) \<and> m' = m(nat pos' := 0x0720))"
proof -
  have nleq: "pos + (80 - pos mod 80) = (pos div 80 + 1) * 80" by (simp add: algebra_simps minus_mod_eq_mult_div)
  have d: "0 \<le> pos div 80" "pos div 80 \<le> 23" "pos < 23 * 80 \<Longrightarrow> pos div 80 \<le> 22" "pos \<ge> 23 * 80 \<Longrightarrow> pos div 80 = 23"
    using assms(1,2) by linarith+
  consider (nl) "c = 0x0A" | (bs) "c = BACKSPACE" "c \<noteq> 0x0A" | (ch) "c \<noteq> 0x0A" "c \<noteq> BACKSPACE" by blast
  then show ?thesis
  proof cases
    case nl
    show ?thesis
    proof (cases "pos < 23 * 80")
      case True
      then have "\<not> 24 \<le> pos div 80 + 1" using d(3) by linarith
      then have "pos' = (pos div 80 + 1) * 80" "m' = m(nat ((pos div 80 + 1) * 80) := 0x0720)"
        using assms(3) nl by (auto simp: cgaputc_def Let_def nleq)
      then show ?thesis using d(1) d(3) [OF True] nl True by (auto simp: BACKSPACE_def)
    next
      case False
      then have e: "pos div 80 = 23" using d(4) by simp
      then have "pos' = 1840" "m' = (\<lambda>i. if 1840 \<le> i \<and> i < 1920 then 0 else if i < 1840 then m (i + 80) else m i)(1840 := 0x0720)"
        using assms(3) nl e by (auto simp: cgaputc_def Let_def nleq)
      then show ?thesis using nl False by (auto simp: BACKSPACE_def scrolled_def)
    qed
  next
    case bs
    have "\<not> 24 \<le> (if pos > 0 then pos - 1 else pos) div 80" using assms(1,2) by auto
    then have "pos' = (if pos > 0 then pos - 1 else pos)" "m' = m(nat (if pos > 0 then pos - 1 else pos) := 0x0720)"
      using assms(3) bs unfolding cgaputc_def by (auto simp: Let_def)
    then show ?thesis using assms(1,2) bs by auto
  next
    case ch
    let ?w = "ucast (c AND 0xFF) OR 0x0700 :: ushort"
    show ?thesis
    proof (cases "pos + 1 < 24 * 80")
      case True
      then have "\<not> 24 \<le> (pos + 1) div 80" by auto
      then have "pos' = pos + 1" "m' = m(nat pos := ?w, nat (pos + 1) := 0x0720)"
        using assms(3) ch unfolding cgaputc_def by (auto simp: Let_def)
      then show ?thesis using assms(1,2) ch True by (auto simp: nat_add_distrib)
    next
      case False
      then have p: "pos = 1919" using assms(2) by simp
      have "cgaputc c (m, 1919) = ((\<lambda>i. if 1840 \<le> i \<and> i < 1920 then 0 else if i < 1840 then (m(1919 := ?w)) (i + 80) else (m(1919 := ?w)) i)(1840 := 0x0720), 1840)"
        using ch by (simp add: cgaputc_def Let_def cong: if_cong)
      then have "pos' = 1840" "m' = (\<lambda>i. if 1840 \<le> i \<and> i < 1920 then 0 else if i < 1840 then (m(1919 := ?w)) (i + 80) else (m(1919 := ?w)) i)(1840 := 0x0720)"
        using assms(3) unfolding p by simp_all
      then show ?thesis using ch p by (auto simp: scrolled_def)
    qed
  qed
qed

theorem cgaputc_in_screen_witness:
  "snd (cgaputc 0x0A (\<lambda>_. 0, 1919)) = 1840 \<and> cgaputc 0x61 (\<lambda>_. 0, 0) = ((\<lambda>_. 0)(0 := 0x0761, 1 := 0x0720), 1) \<and>
   cgaputc BACKSPACE (\<lambda>_. 0x0761, 5) = ((\<lambda>_. 0x0761)(4 := 0x0720), 4)"
proof -
  obtain m1 p1 m2 p2 m3 p3 where e: "cgaputc 0x0A (\<lambda>_. 0, 1919) = (m1, p1)" "cgaputc 0x61 (\<lambda>_. 0, 0) = (m2, p2)"
    "cgaputc BACKSPACE (\<lambda>_. 0x0761, 5) = (m3, p3)" by fastforce
  show ?thesis
    using cgaputc_in_screen [OF _ _ e(1)] cgaputc_in_screen [OF _ _ e(2)] cgaputc_in_screen [OF _ _ e(3)] e
    by (simp add: BACKSPACE_def)
qed

section \<open>Line editing\<close>

text \<open>The characters a reader can get, and those that can still be edited.\<close>

definition in_committed :: "'z cstate_scheme \<Rightarrow> uchar list" where
  "in_committed s = ring_list 128 (in_buf s) (in_r s) (in_w s)"

definition in_pending :: "'z cstate_scheme \<Rightarrow> uchar list" where
  "in_pending s = ring_list 128 (in_buf s) (in_w s) (in_e s)"

definition con_ok :: "'z cstate_scheme \<Rightarrow> bool" where
  "con_ok s \<longleftrightarrow> fill (in_r s) (in_w s) + fill (in_w s) (in_e s) \<le> 128 \<and> 0x0A \<notin> set (in_pending s)"

text \<open>The editor that the buffer implements, on the two lists.\<close>

definition edit_line :: "cint \<Rightarrow> uchar list \<times> uchar list \<Rightarrow> uchar list \<times> uchar list" where
  "edit_line c = (\<lambda>(com, pend).
     if c = Ctrl 0x50 then (com, pend)
     else if c = Ctrl 0x55 then (com, [])
     else if c = Ctrl 0x48 \<or> c = 0x7F then (com, butlast pend)
     else if c = 0 \<or> length com + length pend \<ge> 128 then (com, pend)
     else
       let c = (if c = 0x0D then 0x0A else c); pend = pend @ [ucast c] in
       if c = 0x0A \<or> c = Ctrl 0x44 \<or> length com + length pend = 128 then (com @ pend, []) else (com, pend))"

text \<open>Output changes the screen and the serial port only.\<close>

definition outs :: "'z cstate_scheme \<Rightarrow> 'z cstate_scheme \<Rightarrow> bool" where
  "outs s t \<longleftrightarrow> t = s\<lparr>uart_out := uart_out t, crt := crt t, crt_pos := crt_pos t\<rparr>"

lemma outs_refl [simp]: "outs s s"
  by (simp add: outs_def)

lemma outs_update [simp]: "outs s (s\<lparr>uart_out := u, crt := m, crt_pos := p\<rparr>)"
  by (simp add: outs_def)

lemma outs_trans: "outs s t \<Longrightarrow> outs t u \<Longrightarrow> outs s u"
proof -
  assume "outs s t" "outs t u"
  then have t: "t = s\<lparr>uart_out := uart_out t, crt := crt t, crt_pos := crt_pos t\<rparr>"
    and u: "u = t\<lparr>uart_out := uart_out u, crt := crt u, crt_pos := crt_pos u\<rparr>" by (simp_all add: outs_def)
  have "t\<lparr>uart_out := a, crt := b, crt_pos := c\<rparr> = s\<lparr>uart_out := a, crt := b, crt_pos := c\<rparr>" for a b c
    by (subst t) simp
  then show "outs s u" using u unfolding outs_def by metis
qed

lemma outs_fields:
  assumes "outs s t"
  shows "in_buf t = in_buf s" "in_r t = in_r s" "in_w t = in_w s" "in_e t = in_e s" "panicked t = panicked s" "ptable t = ptable s"
proof -
  have t: "t = s\<lparr>uart_out := uart_out t, crt := crt t, crt_pos := crt_pos t\<rparr>" using assms by (simp add: outs_def)
  show "in_buf t = in_buf s" by (subst t) simp
  show "in_r t = in_r s" by (subst t) simp
  show "in_w t = in_w s" by (subst t) simp
  show "in_e t = in_e s" by (subst t) simp
  show "panicked t = panicked s" by (subst t) simp
  show "ptable t = ptable s" by (subst t) simp
qed

lemma consputc_outs: "\<not> panicked s \<Longrightarrow> \<exists>t. consputc c s = Done () t \<and> outs s t"
  by (auto simp: consputc_def Let_def split: prod.split)

lemma kfor_outs:
  assumes "\<And>x s. x \<in> set xs \<Longrightarrow> \<not> panicked s \<Longrightarrow> \<exists>t. f x s = Done () t \<and> outs s t" "\<not> panicked s"
  shows "\<exists>t. kfor f xs s = Done () t \<and> outs s t"
  using assms
proof (induction xs arbitrary: s)
  case (Cons x xs)
  obtain t where t: "f x s = Done () t" "outs s t" using Cons.prems by force
  then obtain u where "kfor f xs t = Done () u" "outs t u"
    using Cons.IH [of t] Cons.prems outs_fields(5) by force
  then show ?case using t by (auto simp: kop_simps intro: outs_trans)
qed (simp add: kop_simps)

lemma cprintf_outs:
  assumes "cprintf_chars fmt as = Some cs" "\<not> panicked s"
  shows "\<exists>t. cprintf fmt as s = Done () t \<and> outs s t"
  using kfor_outs [of cs "\<lambda>c. consputc (ucast c)" s] consputc_outs assms by (auto simp: cprintf_def)

lemma procdump_outs:
  assumes "\<not> panicked s"
  shows "\<exists>t. procdump pcs s = Done () t \<and> outs s t"
proof -
  have head: "\<exists>cs. cprintf_chars (map of_char ''%d %s %s'') [ANum a, AStr b, AStr c] = Some cs" for a b c by simp
  have pc: "\<exists>cs. cprintf_chars (map of_char '' %p'') [ANum a] = Some cs" for a by simp
  have nl: "cprintf_chars [0x0A] [] = Some [0x0A]" by simp
  have "\<exists>t. procdump1 pcs i s = Done () t \<and> outs s t" if p: "\<not> panicked s" for i and s :: "'a cstate_scheme"
  proof (cases "p_state (ptable s i) = UNUSED")
    case True
    then show ?thesis by (simp add: procdump1_def kop_simps)
  next
    case False
    let ?p = "ptable s i"
    obtain t where t: "cprintf (map of_char ''%d %s %s'') [ANum (p_pid ?p), AStr (Some (map of_char (state_name (p_state ?p)))), AStr (Some (p_name ?p))] s
        = Done () t" "outs s t" using head cprintf_outs [OF _ p] by blast
    have pt: "\<not> panicked t" using p t(2) by (simp add: outs_fields)
    have "\<exists>u. kfor (\<lambda>pc. cprintf (map of_char '' %p'') [ANum pc]) xs t = Done () u \<and> outs t u" for xs
      by (rule kfor_outs) (use pc cprintf_outs pt in blast)+
    then obtain u where u: "kwhen (p_state ?p = SLEEPING)
        (kfor (\<lambda>pc. cprintf (map of_char '' %p'') [ANum pc]) (takeWhile (\<lambda>pc. pc \<noteq> 0) (take 10 (pcs i)))) t = Done () u" "outs t u"
      by (cases "p_state ?p = SLEEPING") (force simp: kop_simps)+
    have "\<not> panicked u" using pt u(2) by (simp add: outs_fields)
    then obtain v where v: "cprintf [0x0A] [] u = Done () v" "outs u v" using nl cprintf_outs by blast
    have "procdump1 pcs i s = Done () v"
      by (simp only: procdump1_def kbind_eq kseq_eq get_proc_eq t(1) u(1) v(1) outcome.case False if_False)
    then show ?thesis using outs_trans [OF outs_trans [OF t(2) u(2)] v(2)] by blast
  qed
  then show ?thesis unfolding procdump_def by (intro kfor_outs assms)
qed


text \<open>The two lists and the read index, which determine what later readers get.\<close>

definition con_view :: "'z cstate_scheme \<Rightarrow> uchar list \<times> uchar list" where
  "con_view s = (in_committed s, in_pending s)"

lemma con_view_outs:
  assumes "outs s t"
  shows "con_view t = con_view s" "con_ok t = con_ok s"
  using outs_fields [OF assms] by (simp_all add: con_view_def con_ok_def in_committed_def in_pending_def)

lemma in_lengths:
  "length (in_committed s) = fill (in_r s) (in_w s)" "length (in_pending s) = fill (in_w s) (in_e s)"
  by (simp_all add: in_committed_def in_pending_def)

lemma in_pending_back:
  "in_e s \<noteq> in_w s \<Longrightarrow> in_pending s = in_pending (s\<lparr>in_e := in_e s - 1\<rparr>) @ [in_at (in_e s - 1) s]"
  using ring_list_back [of 128 "in_w s" "in_e s" "in_buf s"]
  by (simp add: in_pending_def in_at_def INPUT_BUF_def unat_mod)

lemma con_back:
  assumes "con_ok s" "in_e s \<noteq> in_w s"
  shows "con_ok (s\<lparr>in_e := in_e s - 1\<rparr>)" "con_view (s\<lparr>in_e := in_e s - 1\<rparr>) = (in_committed s, butlast (in_pending s))"
proof -
  let ?t = "s\<lparr>in_e := in_e s - 1\<rparr>"
  have p: "in_pending s = in_pending ?t @ [in_at (in_e s - 1) s]" using in_pending_back [OF assms(2)] .
  have "fill (in_w s) (in_e s) = Suc (fill (in_w s) (in_e s - 1))"
    using arg_cong [OF p, of length] in_lengths(2) [of s] in_lengths(2) [of ?t] by simp
  then show "con_ok ?t" using assms(1) p by (simp add: con_ok_def)
  show "con_view ?t = (in_committed s, butlast (in_pending s))"
    by (simp add: p con_view_def in_committed_def)
qed

lemma killline_eq:
  assumes "con_ok s" "\<not> panicked s" "k = fill (in_w s) (in_e s)"
  shows "\<exists>t. killline k s = Done () t \<and> con_ok t \<and> con_view t = (in_committed s, []) \<and> in_r t = in_r s \<and> panicked t = panicked s"
  using assms
proof (induction k arbitrary: s)
  case 0
  then have "in_pending s = []" by (simp add: in_pending_def)
  then show ?case using 0 by (simp add: kop_simps con_view_def)
next
  case (Suc k)
  let ?t = "s\<lparr>in_e := in_e s - 1\<rparr>"
  have ne: "in_e s \<noteq> in_w s" using Suc.prems(3) by (metis fill_eq_0 nat.distinct(1))
  have p: "in_pending s = in_pending ?t @ [in_at (in_e s - 1) s]" using in_pending_back [OF ne] .
  have nl: "in_at (in_e s - 1) s \<noteq> 0x0A" using Suc.prems(1) p by (auto simp: con_ok_def)
  have k: "k = fill (in_w ?t) (in_e ?t)"
    using arg_cong [OF p, of length] in_lengths(2) [of s] in_lengths(2) [of ?t] Suc.prems(3) by simp
  obtain u where u: "consputc BACKSPACE ?t = Done () u" "outs ?t u" using consputc_outs [of ?t] Suc.prems(2) by auto
  note f = outs_fields [OF u(2)]
  have "con_ok u" using con_view_outs(2) [OF u(2)] con_back(1) [OF Suc.prems(1) ne] by simp
  then obtain v where v: "killline k u = Done () v" "con_ok v" "con_view v = (in_committed u, [])" "in_r v = in_r u" "panicked v = panicked u"
    using Suc.IH [of u] Suc.prems(2) k f by auto
  have "in_committed u = in_committed s" using f by (simp add: in_committed_def)
  moreover have "killline (Suc k) s = killline k u" using ne nl u(1) by (simp add: kop_simps)
  ultimately show ?case using v f by simp
qed

lemma ucast_low: "(d :: cint) < 256 \<Longrightarrow> (ucast d :: uchar) = 0x0A \<longleftrightarrow> d = 0x0A"
proof -
  assume "d < 256"
  then have "unat d < 256" by (simp add: word_less_nat_alt)
  then have "unat (ucast d :: uchar) = unat d" by (simp add: unsigned_ucast_eq take_bit_eq_mod)
  then show ?thesis by (simp add: word_unat_eq_iff)
qed

lemma con_insert:
  fixes s :: "'z cstate_scheme" and b :: uchar
  assumes "con_ok s" "length (in_committed s) + length (in_pending s) < 128"
  defines "t \<equiv> s\<lparr>in_buf := (in_buf s)(unat (in_e s mod INPUT_BUF) := b), in_e := in_e s + 1\<rparr>"
  shows "con_view t = (in_committed s, in_pending s @ [b])"
    and "b \<noteq> 0x0A \<Longrightarrow> con_ok t"
    and "con_ok (t\<lparr>in_w := in_e t\<rparr>)" "con_view (t\<lparr>in_w := in_e t\<rparr>) = (in_committed s @ in_pending s @ [b], [])"
    and "fill (in_r s) (in_e t) = length (in_committed s) + length (in_pending s) + 1"
proof -
  have room: "fill (in_r s) (in_w s) + fill (in_w s) (in_e s) < 128" using assms(2) by (simp add: in_lengths)
  have i: "unat (in_e s mod INPUT_BUF) = unat (in_e s) mod 128" by (simp add: INPUT_BUF_def unat_mod)
  have c: "in_committed t = in_committed s"
    using ring_list_write_past [of 128 "in_r s" "in_w s" "in_e s"] room by (simp add: t_def in_committed_def i)
  have p: "in_pending t = in_pending s @ [b]"
    using ring_list_put [of 128 "in_w s" "in_e s"] room by (simp add: t_def in_pending_def i)
  then show v: "con_view t = (in_committed s, in_pending s @ [b])" using c by (simp add: con_view_def)
  have fe: "fill (in_w s) (in_e s + 1) = Suc (fill (in_w s) (in_e s))" using room by (intro fill_put) simp
  show "con_ok t" if "b \<noteq> 0x0A" using assms(1) room that p fe by (simp add: con_ok_def t_def)
  have "fill (in_r s) (in_e s + 1) = fill (in_r s) (in_w s) + fill (in_w s) (in_e s + 1)"
    using room fe by (intro fill_add) simp
  then show re: "fill (in_r s) (in_e t) = length (in_committed s) + length (in_pending s) + 1"
    using fe by (simp add: t_def in_lengths)
  have "ring_list 128 (in_buf t) (in_r t) (in_e t) = in_committed t @ in_pending t"
    unfolding in_committed_def in_pending_def using room fe
    by (intro ring_list_append) (simp_all add: t_def)
  then show "con_view (t\<lparr>in_w := in_e t\<rparr>) = (in_committed s @ in_pending s @ [b], [])"
    using c p by (simp add: con_view_def in_committed_def [of "t\<lparr>in_w := in_e t\<rparr>"] in_pending_def [of "t\<lparr>in_w := in_e t\<rparr>"])
  have "fill (in_r t) (in_e t) \<le> 128" using re room by (simp add: t_def in_lengths)
  then show "con_ok (t\<lparr>in_w := in_e t\<rparr>)" by (simp add: con_ok_def in_pending_def fill_def ring_list_def)
qed

lemma consoleintr1_eq:
  assumes "con_ok s" "\<not> panicked s" "c < 256"
  shows "\<exists>t. consoleintr1 pcs c s = Done () t \<and> con_ok t \<and> con_view t = edit_line c (con_view s) \<and> \<not> panicked t"
proof -
  have ctl: "Ctrl 0x50 = 16" "Ctrl 0x55 = 21" "Ctrl 0x48 = 8" "Ctrl 0x44 = 4" by (simp_all add: Ctrl_def)
  consider (dump) "c = 16" | (kill) "c = 21" | (bksp) "c = 8 \<or> c = 0x7F"
    | (skip) "c \<noteq> 16" "c \<noteq> 21" "c \<noteq> 8" "c \<noteq> 0x7F" "c = 0 \<or> \<not> in_e s - in_r s < INPUT_BUF"
    | (char) "c \<noteq> 16" "c \<noteq> 21" "c \<noteq> 8" "c \<noteq> 0x7F" "c \<noteq> 0" "in_e s - in_r s < INPUT_BUF" by blast
  moreover have re: "unat (in_e s - in_r s) = length (in_committed s) + length (in_pending s)"
    using fill_add [of "in_r s" "in_w s" "in_e s"] assms(1) by (simp add: in_lengths con_ok_def fill_def)
  ultimately show ?thesis
  proof cases
    case dump
    then show ?thesis using procdump_outs [OF assms(2), of pcs] con_view_outs outs_fields(5) assms
      by (fastforce simp: consoleintr1_def ctl edit_line_def con_view_def)
  next
    case kill
    then show ?thesis using killline_eq [OF assms(1,2) refl] assms(2)
      by (auto simp: consoleintr1_def ctl edit_line_def con_view_def fill_def)
  next
    case bksp
    show ?thesis
    proof (cases "in_e s = in_w s")
      case True
      then have "in_pending s = []" by (simp add: in_pending_def)
      then show ?thesis using True bksp assms by (auto simp: consoleintr1_def ctl edit_line_def con_view_def)
    next
      case False
      let ?t = "s\<lparr>in_e := in_e s - 1\<rparr>"
      obtain u where u: "consputc BACKSPACE ?t = Done () u" "outs ?t u" using consputc_outs [of ?t] assms(2) by auto
      have "consoleintr1 pcs c s = Done () u" using bksp False u(1) by (auto simp: consoleintr1_def ctl kop_simps)
      then show ?thesis using con_back [OF assms(1) False] con_view_outs [OF u(2)] outs_fields(5) [OF u(2)] bksp assms(2)
        by (auto simp: edit_line_def ctl con_view_def)
    qed
  next
    case skip
    then have "c = 0 \<or> 128 \<le> length (in_committed s) + length (in_pending s)"
      using re by (auto simp: INPUT_BUF_def word_less_nat_alt)
    then show ?thesis using skip assms by (auto simp: consoleintr1_def ctl edit_line_def con_view_def)
  next
    case char
    have room: "length (in_committed s) + length (in_pending s) < 128" using char(6) re by (simp add: INPUT_BUF_def word_less_nat_alt)
    define d where "d = (if c = 0x0D then 0x0A else c)"
    define b where "b = (ucast d :: uchar)"
    let ?t = "s\<lparr>in_buf := (in_buf s)(unat (in_e s mod INPUT_BUF) := b), in_e := in_e s + 1\<rparr>"
    have "d < 256" using assms(3) by (simp add: d_def)
    then have bn: "b = 0x0A \<longleftrightarrow> d = 0x0A" unfolding b_def by (rule ucast_low)
    obtain u where u: "consputc d ?t = Done () u" "outs ?t u" using consputc_outs [of ?t] assms(2) by auto
    note f = outs_fields [OF u(2)]
    note ins = con_insert [OF assms(1) room, of b]
    have full: "in_e u = in_r u + INPUT_BUF \<longleftrightarrow> length (in_committed s) + length (in_pending s) + 1 = 128"
      using fill_full [of 128 "in_e u" "in_r u"] ins(5) f by (simp add: INPUT_BUF_def)
    have run: "consoleintr1 pcs c s = (if d = 0x0A \<or> d = 4 \<or> in_e u = in_r u + INPUT_BUF
        then Done () (wakeup1 ChInput (u\<lparr>in_w := in_e u\<rparr>)) else Done () u)"
      using char u(1) by (simp add: consoleintr1_def ctl kop_simps Let_def d_def b_def)
    have ed: "edit_line c (con_view s) = (if d = 0x0A \<or> d = 4 \<or> length (in_committed s) + length (in_pending s) + 1 = 128
        then (in_committed s @ in_pending s @ [b], []) else (in_committed s, in_pending s @ [b]))"
      using char room by (auto simp: edit_line_def ctl con_view_def Let_def d_def b_def)
    show ?thesis
    proof (cases "d = 0x0A \<or> d = 4 \<or> in_e u = in_r u + INPUT_BUF")
      case True
      let ?u = "wakeup1 ChInput (u\<lparr>in_w := in_e u\<rparr>)"
      have "in_buf ?u = in_buf ?t" "in_r ?u = in_r ?t" "in_w ?u = in_e ?t" "in_e ?u = in_e ?t" "panicked ?u = panicked s"
        using f by (simp_all add: wakeup1_def)
      then have "con_view ?u = con_view (?t\<lparr>in_w := in_e ?t\<rparr>)" "con_ok ?u = con_ok (?t\<lparr>in_w := in_e ?t\<rparr>)" "panicked ?u = panicked s"
        by (simp_all add: con_view_def con_ok_def in_committed_def in_pending_def)
      then show ?thesis using True run ed full ins(3,4) assms(2) by auto
    next
      case False
      then show ?thesis using run ed full ins(1,2) bn con_view_outs [OF u(2)] f(5) assms(2) by auto
    qed
  qed
qed


lemma consoleintr_eq:
  assumes "con_ok s" "\<not> panicked s" "\<forall>c\<in>set cs. c < 256"
  shows "\<exists>t. consoleintr pcs cs s = Done () t \<and> con_ok t \<and> con_view t = fold edit_line cs (con_view s) \<and> \<not> panicked t"
  using assms
proof (induction cs arbitrary: s)
  case Nil
  then show ?case by (simp add: consoleintr_def kop_simps)
next
  case (Cons c cs)
  obtain t where t: "consoleintr1 pcs c s = Done () t" "con_ok t" "con_view t = edit_line c (con_view s)" "\<not> panicked t"
    using consoleintr1_eq [OF Cons.prems(1,2), of c] Cons.prems(3) by auto
  obtain u where u: "consoleintr pcs cs t = Done () u" "con_ok u" "con_view u = fold edit_line cs (con_view t)" "\<not> panicked u"
    using Cons.IH [OF t(2,4)] Cons.prems(3) by auto
  then show ?case using t by (auto simp: consoleintr_def kop_simps)
qed

text \<open>
  C25. The input buffer of the console is a line editor. For any sequence of characters from the keyboard or
  the serial port, the interrupt handler returns and the circular buffer with its three wrapping indices
  behaves as the pair of the committed and the pending characters: a character is appended to the pending
  ones while fewer than \<open>INPUT_BUF\<close> are held and dropped otherwise, backspace and delete remove the last
  pending character, control-U removes them all, and a newline, a control-D or a full buffer commits them
  for the readers. No committed character is ever changed or lost.
\<close>

theorem console_line_editor:
  assumes "con_ok s" "\<not> panicked s" "\<forall>c\<in>set cs. c < 256"
  shows "\<exists>t. consoleintr pcs cs s = Done () t \<and> con_ok t \<and>
    (in_committed t, in_pending t) = fold edit_line cs (in_committed s, in_pending s) \<and>
    length (in_committed t) + length (in_pending t) \<le> 128"
proof -
  obtain t where t: "consoleintr pcs cs s = Done () t" "con_ok t" "con_view t = fold edit_line cs (con_view s)"
    using consoleintr_eq [OF assms] by blast
  moreover have "length (in_committed t) + length (in_pending t) \<le> 128" using t(2) by (simp add: con_ok_def in_lengths)
  ultimately show ?thesis by (auto simp: con_view_def)
qed

definition quiet_console :: "'z cstate_scheme \<Rightarrow> 'z cstate_scheme" where
  "quiet_console s = s\<lparr>panicked := False, in_r := - 1, in_w := - 1, in_e := - 1, curproc := Some 0, ptable := (\<lambda>_. zero_proc)\<rparr>"

lemma quiet_console_view:
  "in_committed (quiet_console s) = []" "in_pending (quiet_console s) = []" "con_ok (quiet_console s)" "\<not> panicked (quiet_console s)"
  by (simp_all add: in_committed_def in_pending_def con_ok_def quiet_console_def fill_def ring_list_def)

theorem console_line_editor_witness:
  "\<forall>s :: cstate. \<exists>t. consoleintr (\<lambda>_. []) [0x61, 0x62, 0x08, 0x63, 0x0D, 0x64] (quiet_console s) = Done () t \<and>
     in_committed t = [0x61, 0x63, 0x0A] \<and> in_pending t = [0x64]"
proof
  fix s :: cstate
  have c: "\<forall>c\<in>set [0x61, 0x62, 0x08, 0x63, 0x0D, 0x64 :: cint]. c < 256" by simp
  have "fold edit_line [0x61, 0x62, 0x08, 0x63, 0x0D, 0x64] ([], []) = ([0x61, 0x63, 0x0A], [0x64])"
    by (simp add: edit_line_def Ctrl_def)
  then show "\<exists>t. consoleintr (\<lambda>_. []) [0x61, 0x62, 0x08, 0x63, 0x0D, 0x64] (quiet_console s) = Done () t \<and>
     in_committed t = [0x61, 0x63, 0x0A] \<and> in_pending t = [0x64]"
    using console_line_editor [OF quiet_console_view(3,4) c] by (force simp: quiet_console_view)
qed

section \<open>Reading lines\<close>

text \<open>What a reader of \<open>n\<close> bytes takes from the committed characters: \<open>None\<close> if it has to wait.\<close>

fun read_line :: "nat \<Rightarrow> bool \<Rightarrow> uchar list \<Rightarrow> (uchar list \<times> uchar list) option" where
  "read_line 0 first com = Some ([], com)"
| "read_line (Suc n) first [] = None"
| "read_line (Suc n) first (c # com) =
     (if c = 0x04 then Some ([], if first then com else c # com)
      else if c = 0x0A then Some ([c], com)
      else map_option (\<lambda>(out, rest). (c # out, rest)) (read_line n False com))"

lemma in_committed_step:
  "in_r s \<noteq> in_w s \<Longrightarrow> in_committed s = in_at (in_r s) s # in_committed (s\<lparr>in_r := in_r s + 1\<rparr>)"
  using ring_list_get [of 128 "in_r s" "in_w s" "in_buf s"]
  by (simp add: in_committed_def in_at_def INPUT_BUF_def unat_mod)

lemma con_ok_step: "con_ok s \<Longrightarrow> in_r s \<noteq> in_w s \<Longrightarrow> con_ok (s\<lparr>in_r := in_r s + 1\<rparr>)"
  using fill_get [of "in_r s" "in_w s"] by (auto simp: con_ok_def in_pending_def)

text \<open>
  C26. \<open>consoleread\<close> delivers the committed characters in order, at most a line at a time. Reading \<open>n\<close> bytes
  stops after a newline, at the end-of-file character (which is consumed only if nothing was read before
  it, so that the caller gets a result of 0 bytes for it) or after \<open>n\<close> characters; with none of these in the
  committed characters the reader sleeps. What it does not take stays for the next reader, and the pending
  characters are not touched.
\<close>

theorem consoleread_takes_line:
  fixes s :: "'z cstate_scheme"
  assumes "con_ok s" "curproc s = Some i" "\<not> p_killed (ptable s i)"
  shows "case read_line n first (in_committed s) of
      Some (out, rest) \<Rightarrow> \<exists>t :: 'z cstate_scheme. consoleread_loop n first s = Done (Some out) t \<and>
        in_committed t = rest \<and> in_pending t = in_pending s \<and> con_ok t
    | None \<Rightarrow> \<exists>t. consoleread_loop n first s = Sleep ChInput t"
  using assms
proof (induction n arbitrary: first s)
  case 0
  then show ?case by (auto simp: kop_simps)
next
  case (Suc n)
  show ?case
  proof (cases "in_r s = in_w s")
    case True
    then have "in_committed s = []" by (simp add: in_committed_def)
    then show ?thesis using True Suc.prems by (simp add: kop_simps sleep_def)
  next
    case False
    let ?c = "in_at (in_r s) s" and ?t = "s\<lparr>in_r := in_r s + 1\<rparr>"
    have c: "in_committed s = ?c # in_committed ?t" using in_committed_step [OF False] .
    have ok: "con_ok ?t" using con_ok_step [OF Suc.prems(1) False] .
    have pend: "in_pending ?t = in_pending s" by (simp add: in_pending_def)
    consider (eof) "?c = 0x04" | (nl) "?c \<noteq> 0x04" "?c = 0x0A" | (char) "?c \<noteq> 0x04" "?c \<noteq> 0x0A" by blast
    then show ?thesis
    proof cases
      case eof
      have "s\<lparr>in_r := in_r s\<rparr> = s" by simp
      then show ?thesis using False eof Suc.prems(1) ok pend c by (auto simp: Let_def)
    next
      case nl
      then show ?thesis using False ok pend unfolding c by (auto simp: Let_def)
    next
      case char
      have run: "consoleread_loop (Suc n) first s = kbind (consoleread_loop n False) (\<lambda>r. kret (map_option (\<lambda>cs. ?c # cs) r)) ?t"
        using False char by (simp add: Let_def)
      have IH: "case read_line n False (in_committed ?t) of
          Some (out, rest) \<Rightarrow> \<exists>t :: 'z cstate_scheme. consoleread_loop n False ?t = Done (Some out) t \<and> in_committed t = rest \<and> in_pending t = in_pending ?t \<and> con_ok t
        | None \<Rightarrow> \<exists>t. consoleread_loop n False ?t = Sleep ChInput t"
        using Suc.IH [OF ok] Suc.prems(2,3) by simp
      show ?thesis
      proof (cases "read_line n False (in_committed ?t)")
        case None
        then show ?thesis using IH run char unfolding c by (auto simp: kop_simps)
      next
        case (Some a)
        then show ?thesis using IH run char pend unfolding c by (cases a) (auto simp: kop_simps)
      qed
    qed
  qed
qed

theorem consoleread_takes_line_witness:
  "\<forall>s :: cstate. \<exists>t. consoleread_loop 10 True (quiet_console s) = Sleep ChInput t"
proof
  fix s :: cstate
  have h: "curproc (quiet_console s) = Some 0" "\<not> p_killed (ptable (quiet_console s) 0)"
    by (simp_all add: quiet_console_def zero_proc_def)
  have "read_line 10 True [] = None" using read_line.simps(2) [of 9] by simp
  then show "\<exists>t. consoleread_loop 10 True (quiet_console s) = Sleep ChInput t"
    using consoleread_takes_line [OF quiet_console_view(3) h, of 10 True] by (simp add: quiet_console_view)
qed

end
