(* ===== verification/Contents.thy ===== *)
theory Contents
  imports Inode
begin

text \<open>
  What \<open>readi\<close> delivers. \<open>file_data\<close> are the blocks of a file one after the other, found through the addresses in the inode
  and in its indirect block; on a file whose blocks are all allocated, \<open>bmap\<close> returns the address of each block and \<open>readi\<close>
  exactly the bytes of the range asked for, cut at the end of the file.
\<close>

section \<open>The contents of a file\<close>

definition block_of :: "'z istate_scheme \<Rightarrow> nat \<Rightarrow> nat \<Rightarrow> uint" where
  "block_of s i bn =
     (if bn < NDIRECT then i_addrs (icache s i) ! bn
      else get32 (4 * (bn - NDIRECT)) (blk s (i_addrs (icache s i) ! NDIRECT)))"

definition file_blocks :: "'z istate_scheme \<Rightarrow> nat \<Rightarrow> nat" where
  "file_blocks s i = (unat (i_size (icache s i)) + (BSIZE - 1)) div BSIZE"

definition file_data :: "'z istate_scheme \<Rightarrow> nat \<Rightarrow> uchar list" where
  "file_data s i = concat (map (\<lambda>bn. blk s (block_of s i bn)) [0..<file_blocks s i])"

definition on_disk :: "'z istate_scheme \<Rightarrow> uint \<Rightarrow> bool" where
  "on_disk s a \<longleftrightarrow> a \<noteq> 0 \<and> a < disksize s"

text \<open>A file of the root disk with every block allocated.\<close>

definition file_ok :: "'z istate_scheme \<Rightarrow> nat \<Rightarrow> bool" where
  "file_ok s i \<longleftrightarrow> i_dev (icache s i) = ROOTDEV \<and> unat (i_size (icache s i)) \<le> MAXFILE * BSIZE \<and>
     (\<forall>bn < file_blocks s i. on_disk s (block_of s i bn)) \<and>
     (NDIRECT < file_blocks s i \<longrightarrow> on_disk s (i_addrs (icache s i) ! NDIRECT))"

text \<open>A cache with no buffer held and room for one.\<close>

definition cache_idle :: "'z bstate_scheme \<Rightarrow> bool" where
  "cache_idle s \<longleftrightarrow> bio_inv s \<and> busyset s = {} \<and> card (dirtyset s) < NBUF"

text \<open>\<open>t\<close> differs from \<open>s\<close> in what is cached only.\<close>

definition recached :: "'z bstate_scheme \<Rightarrow> 'z bstate_scheme \<Rightarrow> bool" where
  "recached s t \<longleftrightarrow> cache_idle t \<and> bframe s t \<and> blk t = blk s"

lemma recached_trans: "recached s t \<Longrightarrow> recached t u \<Longrightarrow> recached s u"
  unfolding recached_def using bc.frame_trans by metis

lemma recached_refl: "cache_idle s \<Longrightarrow> recached s s"
  by (simp add: recached_def bc.frame_refl)

lemma recached_file:
  fixes s :: "'z istate_scheme"
  assumes "recached s t"
  shows "icache t = icache s" "disksize t = disksize s" "block_of t = block_of s" "file_data t = file_data s" "file_ok t = file_ok s"
proof -
  have "bstate.more t = bstate.more s" using assms by (simp add: recached_def bframe_def)
  then show i: "icache t = icache s" by (cases s; cases t) simp
  show d: "disksize t = disksize s" using assms by (simp add: recached_def bframe_def)
  show b: "block_of t = block_of s" using assms by (simp add: block_of_def recached_def i fun_eq_iff)
  show "file_data t = file_data s" using assms by (simp add: file_data_def recached_def i b file_blocks_def fun_eq_iff)
  show "file_ok t = file_ok s" by (simp add: file_ok_def on_disk_def file_blocks_def i b d fun_eq_iff)
qed

text \<open>Reading a block: \<open>bread\<close>, use of the data, \<open>brelse\<close>.\<close>

lemma read_block:
  assumes "cache_idle s" "n < disksize s"
  shows "\<exists>b s1 t. bread ROOTDEV n s = Done b s1 \<and> get_data b s1 = Done (blk s n) s1 \<and> brelse b s1 = Done () t \<and> recached s t"
proof -
  have i: "bio_inv s" "busyset s = {}" "card (busyset s \<union> dirtyset s) < NBUF" using assms(1) by (simp_all add: cache_idle_def)
  obtain b s1 where s1: "bread ROOTDEV n s = Done b s1" "bio_inv s1" "bframe s s1" "blk s1 = blk s" "memdisk s1 = memdisk s"
    "dirtyset s1 = dirtyset s" "busyset s1 = insert n (busyset s)" "holds s1 b n"
    using bc.rd_law [OF i(1) assms(2)] i(2,3) by auto
  have g: "get_data b s1 = Done (blk s n) s1" using bc.get_law [OF s1(2,8)] s1(4) by simp
  have "n \<in> dirtyset s1 \<or> blk s1 n = memdisk s1 n" using bc.synced [OF i(1), of n] i(2) s1(4-6) by simp
  from bc.rel_law [OF s1(2,8) this] obtain t where t: "brelse b s1 = Done () t" "bio_inv t" "bframe s1 t" "blk t = blk s1"
    "dirtyset t = dirtyset s1" "busyset t = busyset s1 - {n}" by blast
  have "recached s t" using s1 t i bc.frame_trans [OF s1(3) t(3)] by (simp add: recached_def cache_idle_def)
  then show ?thesis using s1(1) g t(1) by blast
qed

lemma NDIRECT_word: "unat (of_nat NDIRECT :: uint) = NDIRECT" "unat (of_nat NINDIRECT :: uint) = NINDIRECT"
  by (simp_all add: NDIRECT_def NINDIRECT_def BSIZE_def)

lemma file_blocks_le: "file_ok s i \<Longrightarrow> file_blocks s i \<le> MAXFILE"
  using div_le_mono [of "unat (i_size (icache s i)) + 511" "71680 + 511" 512]
  by (simp add: file_ok_def file_blocks_def MAXFILE_def NDIRECT_def NINDIRECT_def BSIZE_def)

lemma bmap_allocated:
  fixes s :: "'z istate_scheme"
  assumes "cache_idle s" "file_ok s i" "unat bn < file_blocks s i"
  shows "\<exists>t. bmap i bn s = Done (block_of s i (unat bn)) t \<and> recached s t"
proof -
  have ok: "i_dev (icache s i) = ROOTDEV" "on_disk s (block_of s i (unat bn))" using assms(2,3) by (simp_all add: file_ok_def)
  show ?thesis
  proof (cases "unat bn < NDIRECT")
    case True
    then have "bn < of_nat NDIRECT" by (simp add: word_less_nat_alt NDIRECT_word)
    then show ?thesis using True ok recached_refl [OF assms(1)]
      by (simp add: bmap_def get_addr_def get_inode_def kop_simps block_of_def on_disk_def)
  next
    case False
    let ?k = "bn - of_nat NDIRECT" and ?ind = "i_addrs (icache s i) ! NDIRECT"
    have nl: "\<not> bn < of_nat NDIRECT" using False by (simp add: word_less_nat_alt NDIRECT_word)
    then have k: "unat ?k = unat bn - NDIRECT" by (simp add: unat_sub NDIRECT_word)
    moreover have "unat bn < MAXFILE" using assms(3) file_blocks_le [OF assms(2)] by simp
    ultimately have kl: "?k < of_nat NINDIRECT" using False by (simp add: word_less_nat_alt NDIRECT_word MAXFILE_def)
    have ind: "on_disk s ?ind" using assms(2,3) False by (simp add: file_ok_def)
    then obtain b s1 t where r: "bread ROOTDEV ?ind s = Done b s1" "get_data b s1 = Done (blk s ?ind) s1" "brelse b s1 = Done () t"
      "recached s t" using read_block [OF assms(1), of ?ind] by (auto simp: on_disk_def)
    have "get32 (4 * unat ?k) (blk s ?ind) = block_of s i (unat bn)" using False k by (simp add: block_of_def)
    then show ?thesis using nl kl ok r ind
      by (simp add: bmap_def get_addr_def get_inode_def kop_simps Let_def on_disk_def)
  qed
qed

section \<open>Reading\<close>

lemma concat_blocks:
  fixes f :: "nat \<Rightarrow> 'a list"
  assumes "\<And>j. length (f j) = k" "b < n" "o' + m \<le> k"
  shows "take m (drop (b * k + o') (concat (map f [0..<n]))) = take m (drop o' (f b))"
proof -
  have "[0..<n] = [0..<b] @ b # [Suc b..<n]"
    using assms(2) by (metis less_imp_le_nat upt_add_eq_append upt_conv_Cons le_add_diff_inverse zero_le)
  then have e: "concat (map f [0..<n]) = concat (map f [0..<b]) @ f b @ concat (map f [Suc b..<n])" by simp
  have "length (concat (map f [0..<b])) = b * k" by (induction b) (simp_all add: assms(1))
  then show ?thesis using assms(1,3) unfolding e by simp
qed

lemma unat_chunk: "unat (chunk off n) = min (unat n) (BSIZE - unat off mod BSIZE)"
proof -
  have "unat (off mod 512) = unat off mod 512" by (simp add: unat_mod)
  moreover have "off mod 512 \<le> 512" by (simp add: word_mod_less_divisor order_less_imp_le)
  ultimately have "unat (512 - off mod 512) = 512 - unat off mod 512" by (simp add: unat_sub)
  then show ?thesis by (simp add: chunk_def BSIZE_def min_def word_le_nat_alt)
qed

lemma file_data_chunk:
  assumes "cache_idle s" "unat off < unat (i_size (icache s i))"
  shows "unat (off div of_nat BSIZE) < file_blocks s i"
    and "slice (unat (off mod of_nat BSIZE)) (unat (chunk off n)) (blk s (block_of s i (unat (off div of_nat BSIZE)))) =
      slice (unat off) (unat (chunk off n)) (file_data s i)"
proof -
  have u: "unat (off div of_nat BSIZE) = unat off div BSIZE" "unat (off mod of_nat BSIZE) = unat off mod BSIZE"
    by (simp_all add: BSIZE_def unat_div unat_mod)
  show l: "unat (off div of_nat BSIZE) < file_blocks s i" using assms(2) unfolding u by (simp add: file_blocks_def BSIZE_def)
  have m: "unat off mod BSIZE + unat (chunk off n) \<le> BSIZE" by (simp add: unat_chunk BSIZE_def)
  have "length (blk s a) = BSIZE" for a using assms(1) bc.blk_length by (auto simp: cache_idle_def)
  then have "slice (unat off div BSIZE * BSIZE + unat off mod BSIZE) (unat (chunk off n)) (file_data s i) =
      slice (unat off mod BSIZE) (unat (chunk off n)) (blk s (block_of s i (unat off div BSIZE)))"
    using concat_blocks [of "\<lambda>bn. blk s (block_of s i bn)" BSIZE "unat off div BSIZE" "file_blocks s i", OF _ l [unfolded u] m]
    unfolding slice_def file_data_def by blast
  then show "slice (unat (off mod of_nat BSIZE)) (unat (chunk off n)) (blk s (block_of s i (unat (off div of_nat BSIZE)))) =
      slice (unat off) (unat (chunk off n)) (file_data s i)" unfolding u by simp
qed

lemma slice_split: "m \<le> n \<Longrightarrow> slice off m x @ slice (off + m) (n - m) x = slice off n x"
  using take_add [of m "n - m" "drop off x"] by (simp add: slice_def add.commute)

lemma readi_loop_reads:
  fixes s :: "'z istate_scheme"
  assumes "cache_idle s" "file_ok s i" "unat off + unat n \<le> unat (i_size (icache s i))"
  shows "\<exists>t. readi_loop i off n s = Done (slice (unat off) (unat n) (file_data s i)) t \<and> recached s t"
  using assms
proof (induction "unat n" arbitrary: off n s rule: less_induct)
  case less
  show ?case
  proof (cases "n = 0")
    case True
    then show ?thesis using recached_refl [OF less.prems(1)] by (subst readi_loop.simps) (simp add: kop_simps slice_def)
  next
    case False
    let ?m = "chunk off n" and ?bn = "off div of_nat BSIZE"
    have "0 < unat n" using False by (metis gr_zeroI unat_eq_zero)
    then have sz: "unat off < unat (i_size (icache s i))" using less.prems(3) by linarith
    note c = file_data_chunk [OF less.prems(1) sz]
    obtain s1 where s1: "bmap i ?bn s = Done (block_of s i (unat ?bn)) s1" "recached s s1"
      using bmap_allocated [OF less.prems(1,2) c(1)] by blast
    have a: "block_of s i (unat ?bn) < disksize s1" "cache_idle s1"
      using less.prems(2) c(1) s1(2) recached_file(2) [OF s1(2)] by (simp_all add: file_ok_def on_disk_def recached_def)
    obtain b s2 s3 where s3: "bread ROOTDEV (block_of s i (unat ?bn)) s1 = Done b s2"
      "get_data b s2 = Done (blk s1 (block_of s i (unat ?bn))) s2" "brelse b s2 = Done () s3" "recached s1 s3"
      using read_block [OF a(2,1)] by blast
    have r: "recached s s3" using recached_trans [OF s1(2) s3(4)] .
    note f = recached_file [OF r]
    have m: "unat ?m \<le> unat n" "unat (n - ?m) = unat n - unat ?m" "unat (off + ?m) = unat off + unat ?m"
    proof -
      show l: "unat ?m \<le> unat n" by (simp add: unat_chunk)
      then show "unat (n - ?m) = unat n - unat ?m" by (simp add: unat_sub word_le_nat_alt)
      have "unat off + unat ?m < 2 ^ 32" using l less.prems(3) unsigned_less [where 'a = nat, of "i_size (icache s i)"] by simp
      then show "unat (off + ?m) = unat off + unat ?m" by (simp add: unat_word_ariths)
    qed
    have "unat (n - ?m) < unat n" using chunk_less [OF False] .
    moreover have "cache_idle s3" "file_ok s3 i" using r f less.prems(2) by (simp_all add: recached_def)
    moreover have "unat (off + ?m) + unat (n - ?m) \<le> unat (i_size (icache s3 i))" using m less.prems(3) f(1) by simp
    ultimately obtain t where t: "readi_loop i (off + ?m) (n - ?m) s3 =
        Done (slice (unat (off + ?m)) (unat (n - ?m)) (file_data s3 i)) t" "recached s3 t"
      using less.hyps by blast
    have "slice (unat off) (unat ?m) (file_data s i) @ slice (unat (off + ?m)) (unat (n - ?m)) (file_data s i) =
        slice (unat off) (unat n) (file_data s i)"
      using m by (simp add: slice_split)
    moreover have "blk s1 = blk s" "i_dev (icache s i) = ROOTDEV" using s1(2) less.prems(2) by (simp_all add: recached_def file_ok_def)
    ultimately show ?thesis using False s1(1) s3(1-3) t c(2) f(4) recached_trans [OF r t(2)]
      by (subst readi_loop.simps) (simp add: kop_simps Let_def get_inode_def)
  qed
qed

text \<open>\<open>readi\<close> on a file: the bytes from \<open>off\<close> on, as many as asked for and as the file has.\<close>

lemma readi_data_reads:
  fixes s :: "'z istate_scheme"
  assumes "cache_idle s" "file_ok s i" "off \<le> i_size (icache s i)" "off \<le> off + n"
  defines "k \<equiv> min (unat n) (unat (i_size (icache s i)) - unat off)"
  shows "\<exists>t. readi_data i off n s = Done (of_nat k, slice (unat off) k (file_data s i)) t \<and> recached s t"
proof -
  let ?z = "i_size (icache s i)"
  let ?n = "if off + n > ?z then ?z - off else n"
  have o: "unat (off + n) = unat off + unat n" using assms(4) by (simp add: unat_plus_simple)
  have k: "unat ?n = k" using assms(3) o by (auto simp: k_def unat_sub word_less_nat_alt word_le_nat_alt)
  have n: "?n = of_nat k" unfolding k [symmetric] by simp
  have "unat off + unat ?n \<le> unat ?z" using assms(3) unfolding k by (simp add: k_def word_le_nat_alt)
  from readi_loop_reads [OF assms(1,2) this]
  obtain t where t: "readi_loop i off ?n s = Done (slice (unat off) k (file_data s i)) t" "recached s t" unfolding k by blast
  have "\<not> (off > ?z \<or> off + n < off)" using assms(3,4) by (simp add: not_less)
  then have "readi_data i off n s = Done (?n, slice (unat off) k (file_data s i)) t"
    using t(1) unfolding readi_data_def get_inode_def Let_def by (simp only: kop_simps outcome.case if_False)
  then show ?thesis using t(2) unfolding n by blast
qed

lemma length_file_data:
  assumes "cache_idle s"
  shows "length (file_data s i) = file_blocks s i * BSIZE" "unat (i_size (icache s i)) \<le> length (file_data s i)"
proof -
  have "length (blk s a) = BSIZE" for a using assms bc.blk_length by (auto simp: cache_idle_def)
  then have "length (concat (map (\<lambda>bn. blk s (block_of s i bn)) [0..<n])) = n * BSIZE" for n by (induction n) simp_all
  then show l: "length (file_data s i) = file_blocks s i * BSIZE" by (simp add: file_data_def)
  show "unat (i_size (icache s i)) \<le> length (file_data s i)" unfolding l file_blocks_def BSIZE_def by simp
qed

end
