(* ===== verification/Syscall.thy ===== *)
theory Syscall
  imports Console Contents
begin

text \<open>
  Access to user memory and the arguments of a system call (syscall.c). The processor translates a
  user address with the page table that \<open>cr3\<close> points to; an access to a page that is not present traps
  in the kernel, where \<open>trap\<close> panics.
\<close>

unbundle bit_operations_syntax

section \<open>User memory\<close>

text \<open>The kernel address of a user byte; \<open>w\<close> asks for a writable page, as the bit \<open>CR0_WP\<close> does.\<close>

definition translate :: "memory \<Rightarrow> uint \<Rightarrow> bool \<Rightarrow> uint \<Rightarrow> uint option" where
  "translate m pgdir w va =
     (let pde = ld32 m (pgdir + 4 * PDX va) in
      if pde AND PTE_P = 0 then None
      else
        let pte = ld32 m (p2v (PTE_ADDR pde) + 4 * PTX va) in
        if pte AND PTE_P = 0 \<or> (w \<and> pte AND PTE_W = 0) then None
        else Some (p2v (PTE_ADDR pte) + (va AND 0xFFF)))"

definition uload :: "uint \<Rightarrow> ('z mstate_scheme, uchar) kop" where
  "uload va s = (case translate (mem s) (p2v (cr3 s)) False va of
       None \<Rightarrow> Panic ''trap'' | Some a \<Rightarrow> Done (mem s a) s)"

definition ustore :: "uint \<Rightarrow> uchar \<Rightarrow> ('z mstate_scheme, unit) kop" where
  "ustore va c s = (case translate (mem s) (p2v (cr3 s)) True va of
       None \<Rightarrow> Panic ''trap'' | Some a \<Rightarrow> Done () (s\<lparr>mem := (mem s)(a := c)\<rparr>))"

fun uload_bytes :: "uint \<Rightarrow> nat \<Rightarrow> ('z mstate_scheme, uchar list) kop" where
  "uload_bytes va 0 = kret []"
| "uload_bytes va (Suc n) = kbind (uload va) (\<lambda>c. kbind (uload_bytes (va + 1) n) (\<lambda>cs. kret (c # cs)))"

fun ustore_bytes :: "uint \<Rightarrow> uchar list \<Rightarrow> ('z mstate_scheme, unit) kop" where
  "ustore_bytes va [] = kret ()"
| "ustore_bytes va (c # cs) = kseq (ustore va c) (ustore_bytes (va + 1) cs)"

section \<open>Arguments\<close>

text \<open>The functions of syscall.c that return -1 on failure return \<open>None\<close> here.\<close>

definition fetchint :: "uint \<Rightarrow> ('z pstate_scheme, cint option) kop" where
  "fetchint addr =
     kbind get_curproc (\<lambda>p.
     if addr \<ge> p_sz p \<or> addr + 4 > p_sz p then kret None
     else kbind (uload_bytes addr 4) (\<lambda>x. kret (Some (bytes_u32 x))))"

text \<open>The loop of \<open>fetchstr\<close> over the \<open>k\<close> bytes between \<open>s\<close> and \<open>ep\<close>.\<close>

fun fetchstr_loop :: "uint \<Rightarrow> nat \<Rightarrow> ('z mstate_scheme, uchar list option) kop" where
  "fetchstr_loop s 0 = kret None"
| "fetchstr_loop s (Suc k) =
     kbind (uload s) (\<lambda>c.
     if c = 0 then kret (Some [])
     else kbind (fetchstr_loop (s + 1) k) (\<lambda>r. kret (map_option (\<lambda>cs. c # cs) r)))"

definition fetchstr :: "uint \<Rightarrow> ('z pstate_scheme, uchar list option) kop" where
  "fetchstr addr =
     kbind get_curproc (\<lambda>p.
     if addr \<ge> p_sz p then kret None
     else fetchstr_loop addr (unat (p_sz p - addr)))"

definition argint :: "nat \<Rightarrow> ('z pstate_scheme, cint option) kop" where
  "argint n = kbind get_curproc (\<lambda>p. fetchint (tf_esp (p_tf p) + 4 + 4 * of_nat n))"

definition argptr :: "nat \<Rightarrow> cint \<Rightarrow> ('z pstate_scheme, uint option) kop" where
  "argptr n sz =
     kbind (argint n) (\<lambda>r.
     case r of
       None \<Rightarrow> kret None
     | Some i \<Rightarrow>
         kbind get_curproc (\<lambda>p.
         if i \<ge> p_sz p \<or> i + sz > p_sz p then kret None else kret (Some i)))"

definition argstr :: "nat \<Rightarrow> ('z pstate_scheme, uchar list option) kop" where
  "argstr n = kbind (argint n) (\<lambda>r. case r of None \<Rightarrow> kret None | Some addr \<Rightarrow> fetchstr addr)"

section \<open>Arguments stay inside the process\<close>

lemma uload_Done_iff:
  "uload va s = Done c t \<longleftrightarrow> t = s \<and> (\<exists>a. translate (mem s) (p2v (cr3 s)) False va = Some a \<and> c = mem s a)"
  by (auto simp: uload_def split: option.splits)

text \<open>The bytes of user memory from an address on, through the page table.\<close>

definition ubytes :: "'z mstate_scheme \<Rightarrow> uint \<Rightarrow> uchar list \<Rightarrow> bool" where
  "ubytes s va cs \<longleftrightarrow> (\<forall>j<length cs. \<exists>a. translate (mem s) (p2v (cr3 s)) False (va + of_nat j) = Some a \<and> cs ! j = mem s a)"

lemma ubytes_Nil [simp]: "ubytes s va []"
  by (simp add: ubytes_def)

lemma ubytes_Cons:
  "ubytes s va (c # cs) \<longleftrightarrow> (\<exists>a. translate (mem s) (p2v (cr3 s)) False va = Some a \<and> c = mem s a) \<and> ubytes s (va + 1) cs"
  unfolding ubytes_def by (auto simp: less_Suc_eq_0_disj add.assoc)

lemma uload_bytes_Done:
  "uload_bytes va n s = Done cs t \<Longrightarrow> t = s \<and> length cs = n \<and> ubytes s va cs"
proof (induction n arbitrary: va cs)
  case (Suc n)
  then obtain c cs' where c: "uload va s = Done c s" "uload_bytes (va + 1) n s = Done cs' t" "cs = c # cs'"
    by (auto simp: kop_inv kret_eq uload_Done_iff)
  then show ?case using Suc.IH [OF c(2)] by (auto simp: ubytes_Cons uload_Done_iff)
qed (simp add: kop_simps)

lemma fetchstr_loop_Done:
  "fetchstr_loop va k s = Done (Some cs) t \<Longrightarrow> t = s \<and> length cs < k \<and> 0 \<notin> set cs \<and> ubytes s va (cs @ [0])"
proof (induction k arbitrary: va cs)
  case (Suc k)
  then obtain c where c: "uload va s = Done c s"
    by (auto simp: kop_inv uload_Done_iff)
  show ?case
  proof (cases "c = 0")
    case True
    then show ?thesis using Suc.prems c by (auto simp: kop_simps ubytes_Cons uload_Done_iff)
  next
    case False
    then obtain cs' where cs': "fetchstr_loop (va + 1) k s = Done (Some cs') t" "cs = c # cs'"
      using Suc.prems c by (auto simp: kret_eq kop_inv)
    then show ?thesis using Suc.IH [OF cs'(1)] c False by (auto simp: ubytes_Cons uload_Done_iff)
  qed
qed (simp add: kop_simps)

lemma in_range_4:
  assumes "\<not> (addr \<ge> sz \<or> addr + 4 > sz)" "sz \<le> KERNBASE"
  shows "uint addr + 4 \<le> uint sz"
proof -
  have "uint addr < 0x80000000" "addr < sz" using assms by (auto simp: KERNBASE_def word_less_def word_le_def)
  then have "uint (addr + 4) = uint addr + 4" by (simp add: uint_word_ariths)
  then show ?thesis using assms(1) by (simp add: word_less_def word_le_def)
qed

text \<open>
  C24. What the kernel fetches for a system call comes from the caller's memory. If the size of the process is
  at most \<open>KERNBASE\<close>, then whenever \<open>fetchint\<close> succeeds its four bytes lie below the size, whenever
  \<open>fetchstr\<close> succeeds the string has no inner NUL and lies with its terminating NUL below the size, and
  whenever \<open>argptr\<close> succeeds for a size that is not negative the whole block lies below the size. The bytes
  are read through the page table of the process and the state does not change.
\<close>

theorem arguments_inside_process:
  fixes s :: "'z pstate_scheme"
  assumes "curproc s = Some i" "p_sz (ptable s i) \<le> KERNBASE"
  shows "(\<forall>v t. fetchint addr s = Done (Some v) t \<longrightarrow>
      t = s \<and> uint addr + 4 \<le> uint (p_sz (ptable s i)) \<and> (\<exists>cs. length cs = 4 \<and> ubytes s addr cs \<and> v = bytes_u32 cs)) \<and>
    (\<forall>cs t. fetchstr addr s = Done (Some cs) t \<longrightarrow>
      t = s \<and> uint addr + int (length cs) + 1 \<le> uint (p_sz (ptable s i)) \<and> 0 \<notin> set cs \<and> ubytes s addr (cs @ [0])) \<and>
    (\<forall>p t. 0 \<le> sint n \<longrightarrow> argptr k n s = Done (Some p) t \<longrightarrow> t = s \<and> uint p + sint n \<le> uint (p_sz (ptable s i)))"
proof (intro conjI allI impI)
  let ?sz = "p_sz (ptable s i)"
  have fetch: "t = s \<and> (\<forall>v. r = Some v \<longrightarrow> \<not> (a \<ge> ?sz \<or> a + 4 > ?sz) \<and> (\<exists>cs. length cs = 4 \<and> ubytes s a cs \<and> v = bytes_u32 cs))"
    if "fetchint a s = Done r t" for a r t
    using that assms(1) uload_bytes_Done [of a 4 s]
    by (auto simp: fetchint_def kret_eq kop_inv get_curproc_eq split: if_splits)
  {
    fix v t assume f: "fetchint addr s = Done (Some v) t"
    show "t = s" "\<exists>cs. length cs = 4 \<and> ubytes s addr cs \<and> v = bytes_u32 cs" using fetch [OF f] by auto
    show "uint addr + 4 \<le> uint ?sz" using fetch [OF f] in_range_4 [OF _ assms(2)] by auto
  next
    fix cs t assume f: "fetchstr addr s = Done (Some cs) t"
    then have lt: "addr < ?sz" and l: "fetchstr_loop addr (unat (?sz - addr)) s = Done (Some cs) t"
      using assms(1) by (auto simp: fetchstr_def kret_eq kop_inv get_curproc_eq not_le split: if_splits)
    note l' = fetchstr_loop_Done [OF l]
    show "t = s" "0 \<notin> set cs" "ubytes s addr (cs @ [0])" using l' by auto
    have "unat (?sz - addr) = unat ?sz - unat addr" "unat addr < unat ?sz"
      using lt by (auto simp: unat_sub word_less_nat_alt less_imp_le)
    then have "int (unat addr) + int (length cs) + 1 \<le> int (unat ?sz)" using l' by linarith
    then show "uint addr + int (length cs) + 1 \<le> uint ?sz" unfolding uint_nat .
  next
    fix p t assume n: "0 \<le> sint n" and f: "argptr k n s = Done (Some p) t"
    then obtain r s1 where r: "argint k s = Done r s1"
        and rest: "(case r of None \<Rightarrow> kret None | Some i \<Rightarrow> kbind get_curproc (\<lambda>p. if i \<ge> p_sz p \<or> i + n > p_sz p then kret None else kret (Some i))) s1 = Done (Some p) t"
      unfolding argptr_def kbind_Done_iff by blast
    have "s1 = s" using fetch r assms(1) unfolding argint_def kbind_Done_iff by (auto simp: get_curproc_eq)
    then have t: "t = s" "\<not> (p \<ge> ?sz \<or> p + n > ?sz)"
      using rest assms(1) by (auto simp: kret_eq kop_inv get_curproc_eq split: if_splits option.splits)
    show "t = s" by (rule t(1))
    have un: "uint n = sint n" using n sint_nonneg_uint by simp
    have "sint n < 2 ^ 31" using sint_lt [of n] by simp
    moreover have "uint p < 2 ^ 31" using t(2) assms(2) by (auto simp: KERNBASE_def word_less_def word_le_def)
    ultimately have "uint (p + n) = uint p + sint n" using un n uint_ge_0 [of p] by (simp add: uint_word_ariths mod_pos_pos_trivial)
    then show "uint p + sint n \<le> uint ?sz" using t by (simp add: word_less_def word_le_def)
  }
qed


text \<open>A process of one page, mapped at address 0, that holds the number 7 at address 8.\<close>

definition one_page :: memory where
  "one_page = (\<lambda>a. if a = 0x80400000 then 7 else if a = 0x80400001 then 0x10 else if a = 0x80400002 then 0x40
     else if a = 0x80401000 then 7 else if a = 0x80401001 then 0x20 else if a = 0x80401002 then 0x40
     else if a = 0x80402008 then 7 else 0)"

definition one_page_state :: "'z pstate_scheme \<Rightarrow> 'z pstate_scheme" where
  "one_page_state s = s\<lparr>mem := one_page, cr3 := 0x400000, curproc := Some 0,
     ptable := (\<lambda>_. zero_proc\<lparr>p_sz := 4096, p_pgdir := 0x80400000\<rparr>)\<rparr>"

lemma one_page_translate: "va \<in> {8, 9, 10, 11} \<Longrightarrow> translate one_page 0x80400000 w va = Some (0x80402000 + va)"
proof -
  assume va: "va \<in> {8, 9, 10, 11}"
  have d: "PDX va = 0" "PTX va = 0" "va AND 0xFFF = va" using va by (auto simp: PDX_def PTX_def)
  have l: "ld32 one_page 0x80400000 = 0x401007" "ld32 one_page 0x80401000 = 0x402007"
    by (simp_all add: ld32_def one_page_def bytes_u32_def)
  have a: "PTE_ADDR 0x401007 = 0x401000" "PTE_ADDR 0x402007 = 0x402000" by (simp_all add: PTE_ADDR_def)
  show ?thesis by (simp add: translate_def d l a p2v_def KERNBASE_def PTE_P_def PTE_W_def)
qed

lemma one_page_fetchint: "fetchint 8 (one_page_state s) = Done (Some 7) (one_page_state s)"
proof -
  have h: "curproc (one_page_state s) = Some 0" by (simp add: one_page_state_def)
  have u: "uload va (one_page_state s) = Done (one_page (0x80402000 + va)) (one_page_state s)" if "va \<in> {8, 9, 10, 11}" for va
    using one_page_translate [OF that] by (simp add: uload_def one_page_state_def p2v_def KERNBASE_def)
  have v: "one_page 0x80402008 = 7" "one_page 0x80402009 = 0" "one_page 0x8040200A = 0" "one_page 0x8040200B = 0"
    by (simp_all add: one_page_def)
  have "uload_bytes 8 (Suc (Suc (Suc (Suc 0)))) (one_page_state s) = Done [7, 0, 0, 0] (one_page_state s)"
    by (simp add: u v kop_simps)
  moreover have "p_sz (ptable (one_page_state s) 0) = 4096" by (simp add: one_page_state_def)
  moreover have "(4 :: nat) = Suc (Suc (Suc (Suc 0)))" by simp
  ultimately have "uload_bytes 8 4 (one_page_state s) = Done [7, 0, 0, 0] (one_page_state s)" "p_sz (ptable (one_page_state s) 0) = 4096" by metis+
  then show ?thesis by (simp add: fetchint_def get_curproc_eq [OF h] kop_simps bytes_u32_def)
qed

theorem arguments_inside_process_witness:
  "\<forall>s :: pstate. fetchint 8 (one_page_state s) = Done (Some 7) (one_page_state s) \<and> uint (8 :: uint) + 4 \<le> uint (p_sz (ptable (one_page_state s) 0))"
proof
  fix s :: pstate
  have h: "curproc (one_page_state s) = Some 0" "p_sz (ptable (one_page_state s) 0) \<le> KERNBASE"
    by (simp_all add: one_page_state_def KERNBASE_def)
  note f = one_page_fetchint [of s]
  from f show "fetchint 8 (one_page_state s) = Done (Some 7) (one_page_state s) \<and> uint (8 :: uint) + 4 \<le> uint (p_sz (ptable (one_page_state s) 0))"
    using arguments_inside_process [OF h, of 8] by blast
qed


text \<open>
  C35. A negative size defeats the check. \<open>argptr\<close> adds the size to the pointer as an unsigned number, so with
  size -1 it accepts every pointer into the process except 0, and \<open>sys_read\<close> passes the same -1 on as the
  number of bytes to read, which \<open>readi\<close> takes as unsigned: at offset 0 it cuts it down to the size of the
  file and delivers all the bytes of the file, however little of the process lies behind the pointer.
\<close>

theorem argptr_negative_size:
  fixes s :: "'z istate_scheme"
  assumes "curproc s = Some i" "argint 1 s = Done (Some p) s" "0 < p" "p < p_sz (ptable s i)"
    and "cache_idle s" "file_ok s ip"
  shows "argptr 1 (- 1) s = Done (Some p) s \<and>
    (\<exists>t. readi_data ip 0 (- 1) s = Done (i_size (icache s ip), take (unat (i_size (icache s ip))) (file_data s ip)) t \<and> recached s t) \<and>
    length (take (unat (i_size (icache s ip))) (file_data s ip)) = unat (i_size (icache s ip))"
proof (intro conjI)
  let ?z = "i_size (icache s ip)"
  have "unat (p - 1) = unat p - 1" using assms(3) by (subst unat_sub) (auto simp: word_le_nat_alt word_less_nat_alt)
  then have "p - 1 < p" using assms(3) by (simp add: word_less_nat_alt)
  then have "\<not> (p_sz (ptable s i) \<le> p \<or> p_sz (ptable s i) < p + - 1)" using assms(4) by auto
  then show "argptr 1 (- 1) s = Done (Some p) s"
    using assms(2) by (simp add: argptr_def kop_simps get_curproc_eq [OF assms(1)])
  have "unat ?z \<le> unat (- 1 :: uint)" by (simp only: word_le_nat_alt [symmetric] word_n1_ge)
  then have "min (unat (- 1 :: uint)) (unat ?z - unat (0 :: uint)) = unat ?z" by (simp only: unsigned_0 diff_zero min.absorb2)
  with readi_data_reads [OF assms(5,6), of 0 "- 1"]
  show "\<exists>t. readi_data ip 0 (- 1) s = Done (?z, take (unat ?z) (file_data s ip)) t \<and> recached s t"
    by (simp add: slice_def)
  show "length (take (unat ?z) (file_data s ip)) = unat ?z" using length_file_data(2) [OF assms(5)] by simp
qed

text \<open>A file of 6000 bytes read into a process of one page.\<close>

theorem argptr_negative_size_witness:
  "\<forall>s :: istate. \<exists>(t :: istate) u x. curproc t = Some 0 \<and> p_sz (ptable t 0) = 4096 \<and> argptr 1 (- 1) t = Done (Some 7) t \<and>
     readi_data 0 0 (- 1) t = Done (6000, x) u \<and> length x = 6000"
proof
  fix s :: istate
  let ?s = "s\<lparr>memdisk := (\<lambda>_. replicate BSIZE 1), disksize := 64, bufs := (\<lambda>_. static_buf),
     icache := (\<lambda>_. (icache s 0)\<lparr>i_dev := ROOTDEV, i_size := 6000, i_addrs := replicate (NDIRECT + 1) 40\<rparr>)\<rparr>"
  have "fresh_cache ?s" by (simp add: fresh_cache_def static_buf_def)
  from binit_spec [OF this] obtain v where v: "bio_inv v" "bframe ?s v" "dirtyset v = {}" "busyset v = {}" by blast
  let ?t = "one_page_state v"
  have "bstate.more v = bstate.more ?s" "disksize v = 64" using v(2) by (simp_all add: bframe_def)
  then have ic: "icache ?t 0 = (icache s 0)\<lparr>i_dev := ROOTDEV, i_size := 6000, i_addrs := replicate (NDIRECT + 1) 40\<rparr>" "disksize ?t = 64"
    by (cases v; cases s; simp add: one_page_state_def)+
  have "bio_inv ?t = bio_inv v" "dirtyset ?t = dirtyset v" "busyset ?t = busyset v"
    by (simp_all add: one_page_state_def bio_inv_def dirtyset_def busyset_def caches_def)
  then have idle: "cache_idle ?t" using v by (simp add: cache_idle_def param_defs)
  have n: "file_blocks ?t 0 = 12" by (simp add: file_blocks_def ic BSIZE_def)
  have "file_ok ?t 0" unfolding file_ok_def n
    by (auto simp: ic on_disk_def block_of_def MAXFILE_def NDIRECT_def NINDIRECT_def BSIZE_def)
  moreover have c: "curproc ?t = Some 0" "p_sz (ptable ?t 0) = 4096" "tf_esp (p_tf (ptable ?t 0)) = 0"
    by (simp_all add: one_page_state_def zero_proc_def)
  moreover have "argint 1 ?t = Done (Some 7) ?t"
    using one_page_fetchint [of v] c by (simp add: argint_def kop_simps get_curproc_eq)
  moreover have "0 < (7 :: uint)" "7 < p_sz (ptable ?t 0)" using c by simp_all
  ultimately have "argptr 1 (- 1) ?t = Done (Some 7) ?t \<and>
      (\<exists>u x. readi_data 0 0 (- 1) ?t = Done (6000, x) u \<and> length x = 6000)"
    using argptr_negative_size [OF c(1), of 7 0] idle ic(1) by auto
  then show "\<exists>(t :: istate) u x. curproc t = Some 0 \<and> p_sz (ptable t 0) = 4096 \<and> argptr 1 (- 1) t = Done (Some 7) t \<and>
     readi_data 0 0 (- 1) t = Done (6000, x) u \<and> length x = 6000" using c by blast
qed

end
