(* ===== verification/Exec.thy ===== *)
theory Exec
  imports Syscall
begin

text \<open>
  Program loading: \<open>exec\<close> (exec.c), \<open>loaduvm\<close> (vm.c) and the ELF structures (elf.h). The argument
  vector is the list of the argument strings. A \<open>goto bad\<close> is a call of \<open>exec_bad\<close>.
\<close>

unbundle bit_operations_syntax

section \<open>ELF headers\<close>

definition ELF_MAGIC :: uint where "ELF_MAGIC = 0x464C457F"
definition ELF_PROG_LOAD :: uint where "ELF_PROG_LOAD = 1"
definition MAXARG :: nat where "MAXARG = 32"

record elfhdr =
  e_magic :: uint
  e_entry :: uint
  e_phoff :: uint
  e_phnum :: ushort

definition ELFHDR :: nat where "ELFHDR = 52"

definition decode_elf :: "uchar list \<Rightarrow> elfhdr" where
  "decode_elf x = \<lparr>e_magic = get32 0 x, e_entry = get32 24 x, e_phoff = get32 28 x, e_phnum = get16 44 x\<rparr>"

record proghdr =
  ph_type :: uint
  ph_off :: uint
  ph_vaddr :: uint
  ph_filesz :: uint
  ph_memsz :: uint

definition PROGHDR :: nat where "PROGHDR = 32"

definition decode_ph :: "uchar list \<Rightarrow> proghdr" where
  "decode_ph x = \<lparr>ph_type = get32 0 x, ph_off = get32 4 x, ph_vaddr = get32 8 x, ph_filesz = get32 16 x, ph_memsz = get32 20 x\<rparr>"

section \<open>Operations\<close>

text \<open>The loop of \<open>loaduvm\<close>; the number of pages bounds it.\<close>

fun loaduvm_loop :: "('z istate_scheme) devsw \<Rightarrow> nat \<Rightarrow> uint \<Rightarrow> uint \<Rightarrow> nat \<Rightarrow> uint \<Rightarrow> uint \<Rightarrow> uint \<Rightarrow> ('z istate_scheme, cint) kop" where
  "loaduvm_loop dsw 0 pgdir addr ip offset sz i = (if i < sz then (\<lambda>s. Diverge) else kret 0)"
| "loaduvm_loop dsw (Suc fuel) pgdir addr ip offset sz i =
     (if i < sz then
        kbind (walkpgdir pgdir (addr + i) False) (\<lambda>pte.
        if pte = 0 then kpanic ''loaduvm: address should exist''
        else
          kbind (kload pte) (\<lambda>e.
          let pa = PTE_ADDR e; n = (if sz - i < PGSIZE then sz - i else PGSIZE) in
          kbind (readi dsw ip (offset + i) n) (\<lambda>(r, x).
          kseq (kwrite (p2v pa) x)
          (if r \<noteq> n then kret (- 1)
           else loaduvm_loop dsw fuel pgdir addr ip offset sz (i + PGSIZE)))))
      else kret 0)"

definition loaduvm :: "('z istate_scheme) devsw \<Rightarrow> uint \<Rightarrow> uint \<Rightarrow> nat \<Rightarrow> uint \<Rightarrow> uint \<Rightarrow> ('z istate_scheme, cint) kop" where
  "loaduvm dsw pgdir addr ip offset sz =
     (if addr mod PGSIZE \<noteq> 0 then kpanic ''loaduvm: addr must be page aligned''
      else loaduvm_loop dsw (unat sz div 4096 + 1) pgdir addr ip offset sz 0)"

definition exec_bad :: "uint \<Rightarrow> nat option \<Rightarrow> ('z fstate_scheme, cint) kop" where
  "exec_bad pgdir ip =
     kseq (kwhen (pgdir \<noteq> 0) (freevm pgdir))
     (kseq (case ip of None \<Rightarrow> kret () | Some i \<Rightarrow> kseq (iunlockput i) end_op)
     (kret (- 1)))"

text \<open>The loop over the program headers: the size of the image, or \<open>None\<close> for \<open>goto bad\<close>.\<close>

fun exec_load :: "('z fstate_scheme) devsw \<Rightarrow> nat \<Rightarrow> uint \<Rightarrow> nat \<Rightarrow> uint \<Rightarrow> uint \<Rightarrow> ('z fstate_scheme, uint option) kop" where
  "exec_load dsw ip pgdir 0 off sz = kret (Some sz)"
| "exec_load dsw ip pgdir (Suc k) off sz =
     kbind (readi dsw ip off (of_nat PROGHDR)) (\<lambda>(r, x).
     if r \<noteq> of_nat PROGHDR then kret None
     else
       let ph = decode_ph x in
       if ph_type ph \<noteq> ELF_PROG_LOAD then exec_load dsw ip pgdir k (off + of_nat PROGHDR) sz
       else if ph_memsz ph < ph_filesz ph then kret None
       else
         kbind (allocuvm pgdir sz (ph_vaddr ph + ph_memsz ph)) (\<lambda>sz.
         if sz = 0 then kret None
         else
           kbind (loaduvm dsw pgdir (ph_vaddr ph) ip (ph_off ph) (ph_filesz ph)) (\<lambda>r.
           if sint r < 0 then kret None
           else exec_load dsw ip pgdir k (off + of_nat PROGHDR) sz)))"

text \<open>The loop that pushes the argument strings: the stack pointer and the addresses of the strings.\<close>

fun exec_args :: "uint \<Rightarrow> nat \<Rightarrow> uint \<Rightarrow> uchar list list \<Rightarrow> ('z mstate_scheme, (uint \<times> uint list) option) kop" where
  "exec_args pgdir argc sp [] = kret (Some (sp, []))"
| "exec_args pgdir argc sp (a # as) =
     (if argc \<ge> MAXARG then kret None
      else
        let sp = (sp - (of_nat (length a) + 1)) AND NOT 3 in
        kbind (copyout pgdir sp (a @ [0])) (\<lambda>r.
        if sint r < 0 then kret None
        else
          kbind (exec_args pgdir (argc + 1) sp as) (\<lambda>r.
          kret (map_option (\<lambda>(sp', us). (sp', sp # us)) r))))"

definition exec_ustack :: "uint \<Rightarrow> uint list \<Rightarrow> uint list" where
  "exec_ustack sp us =
     (let argc = of_nat (length us) in [0xFFFFFFFF, argc, sp - (argc + 1) * 4] @ us @ [0])"

text \<open>The last component of the path, cut by \<open>safestrcpy\<close> to the size of \<open>proc->name\<close>.\<close>

fun exec_last :: "uchar list \<Rightarrow> uchar list \<Rightarrow> uchar list" where
  "exec_last lastp [] = lastp"
| "exec_last lastp (c # s) = exec_last (if c = slash then s else lastp) s"

definition exec_commit :: "uchar list \<Rightarrow> uint \<Rightarrow> uint \<Rightarrow> uint \<Rightarrow> uint \<Rightarrow> ('z fstate_scheme, cint) kop" where
  "exec_commit path pgdir sz entry sp =
     kbind myproc (\<lambda>i.
     kseq (set_proc i (\<lambda>p. p\<lparr>p_name := take 15 (exec_last path path)\<rparr>))
     (kbind (get_proc i) (\<lambda>p.
     kseq (set_proc i (\<lambda>p. p\<lparr>p_pgdir := pgdir, p_sz := sz, p_tf := (p_tf p)\<lparr>tf_eip := entry, tf_esp := sp\<rparr>\<rparr>))
     (kseq (switchuvm i)
     (kseq (freevm (p_pgdir p)) (kret 0))))))"

text \<open>The second half of \<open>exec\<close>, after the image is loaded and the inode released.\<close>

definition exec_stack :: "uchar list \<Rightarrow> uchar list list \<Rightarrow> uint \<Rightarrow> uint \<Rightarrow> uint \<Rightarrow> ('z fstate_scheme, cint) kop" where
  "exec_stack path argv pgdir entry sz0 =
     (let sz1 = PGROUNDUP sz0 in
      kbind (allocuvm pgdir sz1 (sz1 + 2 * PGSIZE)) (\<lambda>sz.
      if sz = 0 then exec_bad pgdir None
      else
        kseq (clearpteu pgdir (sz - 2 * PGSIZE))
        (kbind (exec_args pgdir 0 sz argv) (\<lambda>r.
        case r of
          None \<Rightarrow> exec_bad pgdir None
        | Some (sp, us) \<Rightarrow>
            let ustack = exec_ustack sp us; sp = sp - (3 + of_nat (length us) + 1) * 4 in
            kbind (copyout pgdir sp (concat (map u32_bytes ustack))) (\<lambda>r.
            if sint r < 0 then exec_bad pgdir None
            else exec_commit path pgdir sz entry sp)))))"

text \<open>
  The test of the size of the header compares the result of \<open>readi\<close> as an unsigned number, so a
  failure (-1) passes it and the code then reads the uninitialised structure.
\<close>

definition exec :: "('z fstate_scheme) devsw \<Rightarrow> uchar list \<Rightarrow> uchar list list \<Rightarrow> ('z fstate_scheme, cint) kop" where
  "exec dsw path argv =
     kseq begin_op
     (kbind (namei path) (\<lambda>r.
     case r of
       None \<Rightarrow> kseq end_op (kret (- 1))
     | Some ip \<Rightarrow>
         kseq (ilock ip)
         (kbind (readi dsw ip 0 (of_nat ELFHDR)) (\<lambda>(r, x).
         if r < of_nat ELFHDR then exec_bad 0 (Some ip)
         else if length x < ELFHDR then kfault
         else
           let elf = decode_elf x in
           if e_magic elf \<noteq> ELF_MAGIC then exec_bad 0 (Some ip)
           else
             kbind setupkvm (\<lambda>pgdir.
             if pgdir = 0 then exec_bad 0 (Some ip)
             else
               kbind (exec_load dsw ip pgdir (unat (e_phnum elf)) (e_phoff elf) 0) (\<lambda>r.
               case r of
                 None \<Rightarrow> exec_bad pgdir (Some ip)
               | Some sz \<Rightarrow>
                   kseq (iunlockput ip)
                   (kseq end_op
                   (exec_stack path argv pgdir (e_entry elf) sz))))))))"

end
