(* ===== verification/Sysfile.thy ===== *)
theory Sysfile
  imports Exec
begin

text \<open>
  The file system calls (sysfile.c). A user buffer is fetched before and stored after the operation
  that transfers it; \<open>argptr\<close> has checked its range.
\<close>

unbundle bit_operations_syntax

section \<open>Descriptors\<close>

definition argfd :: "nat \<Rightarrow> ('z pstate_scheme, (nat \<times> nat) option) kop" where
  "argfd n =
     kbind (argint n) (\<lambda>r.
     case r of
       None \<Rightarrow> kret None
     | Some fd \<Rightarrow>
         kbind get_curproc (\<lambda>p.
         if sint fd < 0 \<or> sint fd \<ge> int NOFILE then kret None
         else
           (case p_ofile p (nat (sint fd)) of
              None \<Rightarrow> kret None
            | Some f \<Rightarrow> kret (Some (nat (sint fd), f)))))"

definition fdalloc :: "nat \<Rightarrow> ('z pstate_scheme, nat option) kop" where
  "fdalloc f =
     kbind myproc (\<lambda>i.
     kbind (get_proc i) (\<lambda>p.
     case first_slot NOFILE (\<lambda>fd. p_ofile p fd = None) of
       None \<Rightarrow> kret None
     | Some fd \<Rightarrow>
         kseq (set_proc i (\<lambda>p. p\<lparr>p_ofile := (p_ofile p)(fd := Some f)\<rparr>))
         (kret (Some fd))))"

definition clear_fd :: "nat \<Rightarrow> ('z pstate_scheme, unit) kop" where
  "clear_fd fd = kbind myproc (\<lambda>i. set_proc i (\<lambda>p. p\<lparr>p_ofile := (p_ofile p)(fd := None)\<rparr>))"

section \<open>System calls on descriptors\<close>

definition sys_dup :: "('z cstate_scheme, cint) kop" where
  "sys_dup =
     kbind (argfd 0) (\<lambda>r.
     case r of
       None \<Rightarrow> kret (- 1)
     | Some (_, f) \<Rightarrow>
         kbind (fdalloc f) (\<lambda>r.
         case r of
           None \<Rightarrow> kret (- 1)
         | Some fd \<Rightarrow> kbind (filedup f) (\<lambda>_. kret (of_nat fd))))"

text \<open>The checks that \<open>sys_read\<close> and \<open>sys_write\<close> begin with: the file, the buffer and its size.\<close>

definition arg_rw :: "('z pstate_scheme, (nat \<times> uint \<times> cint) option) kop" where
  "arg_rw =
     kbind (argfd 0) (\<lambda>r.
     case r of
       None \<Rightarrow> kret None
     | Some (_, f) \<Rightarrow>
         kbind (argint 2) (\<lambda>r.
         case r of
           None \<Rightarrow> kret None
         | Some n \<Rightarrow>
             kbind (argptr 1 n) (\<lambda>r.
             case r of None \<Rightarrow> kret None | Some p \<Rightarrow> kret (Some (f, p, n)))))"

definition sys_read :: "('z cstate_scheme, cint) kop" where
  "sys_read =
     kbind arg_rw (\<lambda>r.
     case r of
       None \<Rightarrow> kret (- 1)
     | Some (f, p, n) \<Rightarrow>
         kbind (fileread console_devsw f n) (\<lambda>(r, x).
         kseq (ustore_bytes p x) (kret r)))"

definition sys_write :: "('z cstate_scheme, cint) kop" where
  "sys_write =
     kbind arg_rw (\<lambda>r.
     case r of
       None \<Rightarrow> kret (- 1)
     | Some (f, p, n) \<Rightarrow>
         kbind (uload_bytes p (nat (sint n))) (\<lambda>x.
         filewrite console_devsw f x n))"

definition sys_close :: "('z cstate_scheme, cint) kop" where
  "sys_close =
     kbind (argfd 0) (\<lambda>r.
     case r of
       None \<Rightarrow> kret (- 1)
     | Some (fd, f) \<Rightarrow> kseq (clear_fd fd) (kseq (fileclose f) (kret 0)))"

text \<open>The members of \<open>struct stat\<close> at their offsets.\<close>

definition ustore_stat :: "uint \<Rightarrow> stat \<Rightarrow> ('z mstate_scheme, unit) kop" where
  "ustore_stat p st =
     kseq (ustore_bytes (p + 4) (u32_bytes (st_dev st)))
     (kseq (ustore_bytes (p + 8) (u32_bytes (st_ino st)))
     (kseq (ustore_bytes p (u16_bytes (st_type st)))
     (kseq (ustore_bytes (p + 12) (u16_bytes (st_nlink st)))
     (ustore_bytes (p + 16) (u32_bytes (st_size st))))))"

definition sys_fstat :: "('z cstate_scheme, cint) kop" where
  "sys_fstat =
     kbind (argfd 0) (\<lambda>r.
     case r of
       None \<Rightarrow> kret (- 1)
     | Some (_, f) \<Rightarrow>
         kbind (argptr 1 20) (\<lambda>r.
         case r of
           None \<Rightarrow> kret (- 1)
         | Some p \<Rightarrow>
             kbind (filestat f) (\<lambda>(r, st).
             kseq (case st of None \<Rightarrow> kret () | Some st \<Rightarrow> ustore_stat p st) (kret r))))"

section \<open>Links\<close>

text \<open>The code at the label \<open>bad\<close> of \<open>sys_link\<close>.\<close>

definition link_bad :: "nat \<Rightarrow> ('z istate_scheme, cint) kop" where
  "link_bad ip =
     kseq (ilock ip)
     (kseq (set_inode ip (\<lambda>i. i\<lparr>i_nlink := i_nlink i - 1\<rparr>))
     (kseq (iupdate ip)
     (kseq (iunlockput ip)
     (kseq end_op (kret (- 1))))))"

definition sys_link :: "('z cstate_scheme, cint) kop" where
  "sys_link =
     kbind (argstr 0) (\<lambda>r.
     case r of None \<Rightarrow> kret (- 1) | Some old \<Rightarrow>
     kbind (argstr 1) (\<lambda>r.
     case r of None \<Rightarrow> kret (- 1) | Some new \<Rightarrow>
     kseq begin_op
     (kbind (namei old) (\<lambda>r.
     case r of None \<Rightarrow> kseq end_op (kret (- 1)) | Some ip \<Rightarrow>
     kseq (ilock ip)
     (kbind (get_inode ip) (\<lambda>i.
     if i_type i = T_DIR then kseq (iunlockput ip) (kseq end_op (kret (- 1)))
     else
       kseq (set_inode ip (\<lambda>i. i\<lparr>i_nlink := i_nlink i + 1\<rparr>))
       (kseq (iupdate ip)
       (kseq (iunlock ip)
       (kbind (nameiparent new) (\<lambda>r.
       case r of None \<Rightarrow> link_bad ip | Some (dp, name) \<Rightarrow>
       kseq (ilock dp)
       (kbind (get_inode dp) (\<lambda>d.
       kbind (get_inode ip) (\<lambda>i.
       kbind (if i_dev d \<noteq> i_dev i then kret (- 1) else dirlink dp name (i_inum i)) (\<lambda>r.
       if sint r < 0 then kseq (iunlockput dp) (link_bad ip)
       else
         kseq (iunlockput dp)
         (kseq (iput ip)
         (kseq end_op (kret 0)))))))))))))))))"

text \<open>The loop of \<open>isdirempty\<close>; the size of the directory bounds it.\<close>

fun isdirempty_loop :: "nat \<Rightarrow> nat \<Rightarrow> uint \<Rightarrow> ('z istate_scheme, bool) kop" where
  "isdirempty_loop 0 dp off = (\<lambda>s. if off < i_size (icache s dp) then Diverge else Done True s)"
| "isdirempty_loop (Suc fuel) dp off =
     kbind (get_inode dp) (\<lambda>d.
     if off < i_size d then
       kbind (readi_data dp off (of_nat DIRENT)) (\<lambda>(r, x).
       if r \<noteq> of_nat DIRENT then kpanic ''isdirempty: readi''
       else if de_inum (decode_de x) \<noteq> 0 then kret False
       else isdirempty_loop fuel dp (off + of_nat DIRENT))
     else kret True)"

definition isdirempty :: "nat \<Rightarrow> ('z istate_scheme, bool) kop" where
  "isdirempty dp = kbind (get_inode dp) (\<lambda>d.
     isdirempty_loop (unat (i_size d) div DIRENT + 1) dp (2 * of_nat DIRENT))"

definition unlink_bad :: "nat \<Rightarrow> ('z istate_scheme, cint) kop" where
  "unlink_bad dp = kseq (iunlockput dp) (kseq end_op (kret (- 1)))"

definition dot :: "uchar list" where "dot = [0x2E]"
definition dotdot :: "uchar list" where "dotdot = [0x2E, 0x2E]"

text \<open>The part of \<open>sys_unlink\<close> after the inode \<open>ip\<close> of the entry at \<open>off\<close> is locked.\<close>

definition unlink_entry :: "nat \<Rightarrow> nat \<Rightarrow> uint \<Rightarrow> ('z istate_scheme, cint) kop" where
  "unlink_entry dp ip off =
     kbind (get_inode ip) (\<lambda>i.
     if sint (i_nlink i) < 1 then kpanic ''unlink: nlink < 1''
     else
       kbind (if i_type i = T_DIR then isdirempty ip else kret True) (\<lambda>e.
       if \<not> e then kseq (iunlockput ip) (unlink_bad dp)
       else
         kbind (writei_data dp (replicate DIRENT 0) off) (\<lambda>r.
         if r \<noteq> of_nat DIRENT then kpanic ''unlink: writei''
         else
           kseq (kwhen (i_type i = T_DIR)
             (kseq (set_inode dp (\<lambda>d. d\<lparr>i_nlink := i_nlink d - 1\<rparr>)) (iupdate dp)))
           (kseq (iunlockput dp)
           (kseq (set_inode ip (\<lambda>i. i\<lparr>i_nlink := i_nlink i - 1\<rparr>))
           (kseq (iupdate ip)
           (kseq (iunlockput ip)
           (kseq end_op (kret 0)))))))))"

definition sys_unlink :: "('z cstate_scheme, cint) kop" where
  "sys_unlink =
     kbind (argstr 0) (\<lambda>r.
     case r of None \<Rightarrow> kret (- 1) | Some path \<Rightarrow>
     kseq begin_op
     (kbind (nameiparent path) (\<lambda>r.
     case r of None \<Rightarrow> kseq end_op (kret (- 1)) | Some (dp, name) \<Rightarrow>
     kseq (ilock dp)
     (if namecmp name dot = 0 \<or> namecmp name dotdot = 0 then unlink_bad dp
      else
        kbind (dirlookup dp name) (\<lambda>r.
        case r of None \<Rightarrow> unlink_bad dp | Some (ip, off) \<Rightarrow>
        kseq (ilock ip) (unlink_entry dp ip off))))))"

section \<open>Creating and opening\<close>

text \<open>The part of \<open>create\<close> for a new inode \<open>ip\<close> in the locked directory \<open>dp\<close>.\<close>

definition create_new :: "nat \<Rightarrow> nat \<Rightarrow> uchar list \<Rightarrow> cshort \<Rightarrow> cshort \<Rightarrow> cshort \<Rightarrow> ('z istate_scheme, unit) kop" where
  "create_new dp ip name type major minor =
     kseq (ilock ip)
     (kseq (set_inode ip (\<lambda>i. i\<lparr>i_major := major, i_minor := minor, i_nlink := 1\<rparr>))
     (kseq (iupdate ip)
     (kbind (get_inode ip) (\<lambda>i.
     kseq (kwhen (type = T_DIR)
       (kseq (set_inode dp (\<lambda>d. d\<lparr>i_nlink := i_nlink d + 1\<rparr>))
       (kseq (iupdate dp)
       (kbind (get_inode dp) (\<lambda>d.
       kbind (dirlink ip dot (i_inum i)) (\<lambda>r.
       if sint r < 0 then kpanic ''create dots''
       else
         kbind (dirlink ip dotdot (i_inum d)) (\<lambda>r.
         if sint r < 0 then kpanic ''create dots'' else kret ())))))))
     (kbind (dirlink dp name (i_inum i)) (\<lambda>r.
     if sint r < 0 then kpanic ''create: dirlink'' else iunlockput dp))))))"

definition create :: "uchar list \<Rightarrow> cshort \<Rightarrow> cshort \<Rightarrow> cshort \<Rightarrow> ('z istate_scheme, nat option) kop" where
  "create path type major minor =
     kbind (nameiparent path) (\<lambda>r.
     case r of None \<Rightarrow> kret None | Some (dp, name) \<Rightarrow>
     kseq (ilock dp)
     (kbind (dirlookup dp name) (\<lambda>r.
     case r of
       Some (ip, _) \<Rightarrow>
         kseq (iunlockput dp)
         (kseq (ilock ip)
         (kbind (get_inode ip) (\<lambda>i.
         if type = T_FILE \<and> i_type i = T_FILE then kret (Some ip)
         else kseq (iunlockput ip) (kret None))))
     | None \<Rightarrow>
         kbind (get_inode dp) (\<lambda>d.
         kbind (ialloc (i_dev d) type) (\<lambda>ip.
         kseq (create_new dp ip name type major minor) (kret (Some ip)))))))"

definition O_RDONLY :: cint where "O_RDONLY = 0"
definition O_WRONLY :: cint where "O_WRONLY = 1"
definition O_RDWR :: cint where "O_RDWR = 2"
definition O_CREATE :: cint where "O_CREATE = 0x200"

text \<open>The first half of \<open>sys_open\<close>: the inode, locked, or \<open>None\<close> when it returns -1.\<close>

definition open_inode :: "uchar list \<Rightarrow> cint \<Rightarrow> ('z istate_scheme, nat option) kop" where
  "open_inode path omode =
     (if omode AND O_CREATE \<noteq> 0 then
        kbind (create path T_FILE 0 0) (\<lambda>r.
        case r of None \<Rightarrow> kseq end_op (kret None) | Some ip \<Rightarrow> kret (Some ip))
      else
        kbind (namei path) (\<lambda>r.
        case r of None \<Rightarrow> kseq end_op (kret None) | Some ip \<Rightarrow>
        kseq (ilock ip)
        (kbind (get_inode ip) (\<lambda>i.
        if i_type i = T_DIR \<and> omode \<noteq> O_RDONLY then kseq (iunlockput ip) (kseq end_op (kret None))
        else kret (Some ip)))))"

text \<open>The second half: a file structure and a descriptor.\<close>

definition open_file :: "nat \<Rightarrow> cint \<Rightarrow> ('z fstate_scheme, cint) kop" where
  "open_file ip omode =
     kbind filealloc (\<lambda>f.
     kbind (case f of None \<Rightarrow> kret None | Some f \<Rightarrow> fdalloc f) (\<lambda>fd.
     case (f, fd) of
       (Some f, Some fd) \<Rightarrow>
         kseq (iunlock ip)
         (kseq end_op
         (kseq (set_file f (\<lambda>x. x\<lparr>f_type := FD_INODE, f_ip := ip, f_off := 0,
             f_readable := (omode AND O_WRONLY = 0),
             f_writable := (omode AND O_WRONLY \<noteq> 0 \<or> omode AND O_RDWR \<noteq> 0)\<rparr>))
         (kret (of_nat fd))))
     | _ \<Rightarrow>
         kseq (case f of None \<Rightarrow> kret () | Some f \<Rightarrow> fileclose f)
         (kseq (iunlockput ip)
         (kseq end_op (kret (- 1))))))"

definition sys_open :: "('z cstate_scheme, cint) kop" where
  "sys_open =
     kbind (argstr 0) (\<lambda>r.
     case r of None \<Rightarrow> kret (- 1) | Some path \<Rightarrow>
     kbind (argint 1) (\<lambda>r.
     case r of None \<Rightarrow> kret (- 1) | Some omode \<Rightarrow>
     kseq begin_op
     (kbind (open_inode path omode) (\<lambda>r.
     case r of None \<Rightarrow> kret (- 1) | Some ip \<Rightarrow> open_file ip omode))))"

definition sys_mkdir :: "('z cstate_scheme, cint) kop" where
  "sys_mkdir =
     kseq begin_op
     (kbind (argstr 0) (\<lambda>r.
     kbind (case r of None \<Rightarrow> kret None | Some path \<Rightarrow> create path T_DIR 0 0) (\<lambda>r.
     case r of
       None \<Rightarrow> kseq end_op (kret (- 1))
     | Some ip \<Rightarrow> kseq (iunlockput ip) (kseq end_op (kret 0)))))"

definition sys_mknod :: "('z cstate_scheme, cint) kop" where
  "sys_mknod =
     kseq begin_op
     (kbind (argstr 0) (\<lambda>r.
     kbind (case r of None \<Rightarrow> kret None | Some path \<Rightarrow>
       kbind (argint 1) (\<lambda>r. case r of None \<Rightarrow> kret None | Some major \<Rightarrow>
       kbind (argint 2) (\<lambda>r. case r of None \<Rightarrow> kret None | Some minor \<Rightarrow>
       create path T_DEV (ucast major) (ucast minor)))) (\<lambda>r.
     case r of
       None \<Rightarrow> kseq end_op (kret (- 1))
     | Some ip \<Rightarrow> kseq (iunlockput ip) (kseq end_op (kret 0)))))"

definition sys_chdir :: "('z cstate_scheme, cint) kop" where
  "sys_chdir =
     kseq begin_op
     (kbind (argstr 0) (\<lambda>r.
     kbind (case r of None \<Rightarrow> kret None | Some path \<Rightarrow> namei path) (\<lambda>r.
     case r of
       None \<Rightarrow> kseq end_op (kret (- 1))
     | Some ip \<Rightarrow>
         kseq (ilock ip)
         (kbind (get_inode ip) (\<lambda>i.
         if i_type i \<noteq> T_DIR then kseq (iunlockput ip) (kseq end_op (kret (- 1)))
         else
           kseq (iunlock ip)
           (kbind get_curproc (\<lambda>p.
           kseq (case p_cwd p of None \<Rightarrow> kfault | Some c \<Rightarrow> iput c)
           (kseq end_op
           (kbind myproc (\<lambda>me.
           kseq (set_proc me (\<lambda>p. p\<lparr>p_cwd := Some ip\<rparr>)) (kret 0)))))))))))"

text \<open>The loop of \<open>sys_exec\<close> that collects the argument strings.\<close>

fun exec_argv :: "nat \<Rightarrow> uint \<Rightarrow> ('z pstate_scheme, uchar list list option) kop" where
  "exec_argv 0 uargv = kret None"
| "exec_argv (Suc k) uargv =
     kbind (fetchint uargv) (\<lambda>r.
     case r of None \<Rightarrow> kret None | Some uarg \<Rightarrow>
     if uarg = 0 then kret (Some [])
     else
       kbind (fetchstr uarg) (\<lambda>r.
       case r of None \<Rightarrow> kret None | Some a \<Rightarrow>
       kbind (exec_argv k (uargv + 4)) (\<lambda>r. kret (map_option (\<lambda>as. a # as) r))))"

definition sys_exec :: "('z cstate_scheme, cint) kop" where
  "sys_exec =
     kbind (argstr 0) (\<lambda>r.
     case r of None \<Rightarrow> kret (- 1) | Some path \<Rightarrow>
     kbind (argint 1) (\<lambda>r.
     case r of None \<Rightarrow> kret (- 1) | Some uargv \<Rightarrow>
     kbind (exec_argv MAXARG uargv) (\<lambda>r.
     case r of None \<Rightarrow> kret (- 1) | Some argv \<Rightarrow> exec console_devsw path argv)))"

definition sys_pipe :: "('z cstate_scheme, cint) kop" where
  "sys_pipe =
     kbind (argptr 0 8) (\<lambda>r.
     case r of None \<Rightarrow> kret (- 1) | Some fd \<Rightarrow>
     kbind pipealloc (\<lambda>r.
     case r of None \<Rightarrow> kret (- 1) | Some (rf, wfl) \<Rightarrow>
     kbind (fdalloc rf) (\<lambda>fd0.
     kbind (case fd0 of None \<Rightarrow> kret None | Some _ \<Rightarrow> fdalloc wfl) (\<lambda>fd1.
     case (fd0, fd1) of
       (Some a, Some b) \<Rightarrow>
         kseq (ustore_bytes fd (u32_bytes (of_nat a)))
         (kseq (ustore_bytes (fd + 4) (u32_bytes (of_nat b))) (kret 0))
     | _ \<Rightarrow>
         kseq (case fd0 of None \<Rightarrow> kret () | Some a \<Rightarrow> clear_fd a)
         (kseq (fileclose rf)
         (kseq (fileclose wfl) (kret (- 1))))))))"

end
