(* ===== verification/Trap.thy ===== *)
theory Trap
  imports Sysfile
begin

text \<open>
  The process system calls (sysproc.c), the system call dispatcher (syscall.c) and the trap handler
  (trap.c). \<open>sys_trace\<close> has a C parameter that no caller passes: the dispatcher calls every entry of
  its table with no argument, so the value is whatever lies on the kernel stack; it is the argument
  \<open>junk\<close> of the definitions below.
\<close>

unbundle bit_operations_syntax

section \<open>Process system calls\<close>

definition sys_kill :: "('z cstate_scheme, cint) kop" where
  "sys_kill = kbind (argint 0) (\<lambda>r. case r of None \<Rightarrow> kret (- 1) | Some pid \<Rightarrow> kill pid)"

definition sys_getpid :: "('z cstate_scheme, cint) kop" where
  "sys_getpid = kbind get_curproc (\<lambda>p. kret (p_pid p))"

definition sys_sbrk :: "('z cstate_scheme, cint) kop" where
  "sys_sbrk =
     kbind (argint 0) (\<lambda>r.
     case r of None \<Rightarrow> kret (- 1) | Some n \<Rightarrow>
     kbind get_curproc (\<lambda>p.
     kbind (growproc n) (\<lambda>r.
     if sint r < 0 then kret (- 1) else kret (p_sz p))))"

text \<open>
  \<open>sys_sleep\<close> from its entry or after a wakeup: \<open>ticks0\<close> is the tick count at the call. The comparison
  is unsigned.
\<close>

definition sys_sleep_loop :: "uint \<Rightarrow> cint \<Rightarrow> ('z cstate_scheme, cint) kop" where
  "sys_sleep_loop ticks0 n =
     kbind (kget ticks) (\<lambda>t.
     if t - ticks0 < n then
       kbind get_curproc (\<lambda>p.
       if p_killed p then kret (- 1) else sleep ChTicks)
     else kret 0)"

definition sys_sleep :: "('z cstate_scheme, cint) kop" where
  "sys_sleep =
     kbind (argint 0) (\<lambda>r.
     case r of None \<Rightarrow> kret (- 1) | Some n \<Rightarrow>
     kbind (kget ticks) (\<lambda>ticks0. sys_sleep_loop ticks0 n))"

definition sys_uptime :: "('z cstate_scheme, cint) kop" where
  "sys_uptime = kget ticks"

definition sys_trace :: "cint \<Rightarrow> ('z cstate_scheme, cint) kop" where
  "sys_trace x =
     kseq (cprintf (map of_char [CHR 0x0A] @ map of_char ''calling trace'' @ [0x0A]) [])
     (kbind myproc (\<lambda>i.
     kbind (get_proc i) (\<lambda>p.
     kseq (cprintf (map of_char ''caller pid is %d'') [ANum (p_pid p)])
     (if x \<noteq> 0 then
        kseq (set_proc i (\<lambda>p. p\<lparr>p_traceFlag := True\<rparr>)) (kret (p_totalSysCall p))
      else
        kseq (set_proc i (\<lambda>p. p\<lparr>p_traceFlag := False, p_totalSysCall := 0\<rparr>)) (kret (p_totalSysCall p))))))"

section \<open>The dispatcher\<close>

text \<open>The table \<open>syscalls\<close> with the numbers of syscall.h.\<close>

definition syscalls :: "cint \<Rightarrow> (('z cstate_scheme, cint) kop) list" where
  "syscalls junk =
     [fork, exit, wait, sys_pipe, sys_read, sys_kill, sys_exec, sys_fstat, sys_chdir, sys_dup,
      sys_getpid, sys_sbrk, sys_sleep, sys_uptime, sys_open, sys_write, sys_mknod, sys_unlink,
      sys_link, sys_mkdir, sys_close, sys_trace junk]"

definition set_eax :: "cint \<Rightarrow> ('z pstate_scheme, unit) kop" where
  "set_eax r = kbind myproc (\<lambda>i. set_proc i (\<lambda>p. p\<lparr>p_tf := (p_tf p)\<lparr>tf_eax := r\<rparr>\<rparr>))"

text \<open>The counting that the dispatcher does for a traced process.\<close>

definition count_call :: "cint \<Rightarrow> ('z cstate_scheme, unit) kop" where
  "count_call num =
     kbind myproc (\<lambda>i.
     kbind (get_proc i) (\<lambda>p.
     kwhen (p_traceFlag p)
       (kseq (set_proc i (\<lambda>p. p\<lparr>p_totalSysCall := p_totalSysCall p + 1\<rparr>))
       (cprintf (0x0A # map of_char ''pid %d invoked call %d'' @ [0x0A]) [ANum (p_pid p), ANum num]))))"

definition syscall :: "cint \<Rightarrow> ('z cstate_scheme, unit) kop" where
  "syscall junk =
     kbind get_curproc (\<lambda>p.
     let num = tf_eax (p_tf p) in
     if sint num > 0 \<and> sint num < 1 + int (length (syscalls junk :: ('z cstate_scheme, cint) kop list)) then
       kseq (count_call num)
       (kbind (syscalls junk ! (nat (sint num) - 1)) set_eax)
     else
       kseq (cprintf (map of_char ''%d %s: unknown sys call %d'' @ [0x0A])
         [ANum (p_pid p), AStr (Some (p_name p)), ANum num])
       (set_eax (- 1)))"

section \<open>Traps\<close>

definition T_SYSCALL :: nat where "T_SYSCALL = 64"
definition T_IRQ0 :: nat where "T_IRQ0 = 32"
definition IRQ_TIMER :: nat where "IRQ_TIMER = 0"
definition IRQ_KBD :: nat where "IRQ_KBD = 1"
definition IRQ_COM1 :: nat where "IRQ_COM1 = 4"
definition IRQ_IDE :: nat where "IRQ_IDE = 14"
definition IRQ_SPURIOUS :: nat where "IRQ_SPURIOUS = 31"

text \<open>
  What the interrupt finds: the number of the trap and its error code, the processor, the saved code
  segment and instruction pointer, the faulting address, the characters waiting in the keyboard
  controller and the serial port, and the call chains for the process listing.
\<close>

record trapinfo =
  ti_trapno :: nat
  ti_err :: uint
  ti_cpu :: nat
  ti_cs :: ushort
  ti_eip :: uint
  ti_cr2 :: uint
  ti_scan :: "uchar list"
  ti_serial :: "uchar list"
  ti_pcs :: "nat \<Rightarrow> uint list"

definition exit_if_killed :: "('z cstate_scheme, unit) kop" where
  "exit_if_killed = kbind get_curproc (\<lambda>p. if p_killed p then exit else kret ())"

definition trap_syscall :: "cint \<Rightarrow> ('z cstate_scheme, unit) kop" where
  "trap_syscall junk = kseq exit_if_killed (kseq (syscall junk) exit_if_killed)"

text \<open>The switch of \<open>trap\<close>. The disk is the memory disk, whose \<open>ideintr\<close> does nothing.\<close>

definition trap_switch :: "trapinfo \<Rightarrow> ('z cstate_scheme, unit) kop" where
  "trap_switch t =
     (if ti_trapno t = T_IRQ0 + IRQ_TIMER then
        (if ti_cpu t = 0 then kseq (kmodify (\<lambda>s. s\<lparr>ticks := ticks s + 1\<rparr>)) (wakeup ChTicks) else kret ())
      else if ti_trapno t = T_IRQ0 + IRQ_IDE then kret ()
      else if ti_trapno t = T_IRQ0 + IRQ_IDE + 1 then kret ()
      else if ti_trapno t = T_IRQ0 + IRQ_KBD then kbdintr (ti_pcs t) (ti_scan t)
      else if ti_trapno t = T_IRQ0 + IRQ_COM1 then consoleintr (ti_pcs t) (map ucast (ti_serial t))
      else if ti_trapno t = T_IRQ0 + 7 \<or> ti_trapno t = T_IRQ0 + IRQ_SPURIOUS then
        cprintf (map of_char ''cpu%d: spurious interrupt at %x:%x'' @ [0x0A])
          [ANum (of_nat (ti_cpu t)), ANum (ucast (ti_cs t)), ANum (ti_eip t)]
      else
        kbind (kget curproc) (\<lambda>c.
        case c of
          None \<Rightarrow> kpanic ''trap''
        | Some i \<Rightarrow>
            if ti_cs t AND 3 = 0 then kpanic ''trap''
            else
              kbind (get_proc i) (\<lambda>p.
              kseq (cprintf (map of_char ''pid %d %s: trap %d err %d on cpu %d eip 0x%x addr 0x%x--kill proc'' @ [0x0A])
                [ANum (p_pid p), AStr (Some (p_name p)), ANum (of_nat (ti_trapno t)), ANum (ti_err t),
                 ANum (of_nat (ti_cpu t)), ANum (ti_eip t), ANum (ti_cr2 t)])
              (set_proc i (\<lambda>p. p\<lparr>p_killed := True\<rparr>)))))"

text \<open>The check that \<open>trap\<close> makes before and after the yield.\<close>

definition exit_if_killed_user :: "trapinfo \<Rightarrow> ('z cstate_scheme, unit) kop" where
  "exit_if_killed_user t =
     kbind (kget curproc) (\<lambda>c.
     case c of
       None \<Rightarrow> kret ()
     | Some i \<Rightarrow>
         kbind (get_proc i) (\<lambda>p.
         if p_killed p \<and> ti_cs t AND 3 = DPL_USER then exit else kret ()))"

text \<open>
  \<open>trap\<close> up to the point where it yields or returns. After a yield the process resumes with
  \<open>exit_if_killed_user\<close>.
\<close>

definition trap :: "trapinfo \<Rightarrow> cint \<Rightarrow> ('z cstate_scheme, unit) kop" where
  "trap t junk =
     (if ti_trapno t = T_SYSCALL then trap_syscall junk
      else
        kseq (trap_switch t)
        (kseq (exit_if_killed_user t)
        (kseq (kbind (kget curproc) (\<lambda>c.
          case c of
            None \<Rightarrow> kret ()
          | Some i \<Rightarrow>
              kbind (get_proc i) (\<lambda>p.
              if p_state p = RUNNING \<and> ti_trapno t = T_IRQ0 + IRQ_TIMER then yield else kret ())))
        (exit_if_killed_user t))))"

end
