(* ===== verification/Keeps.thy ===== *)
theory Keeps
  imports Dir
begin

text \<open>
  Invariants of operations. \<open>kinv I f\<close> says that \<open>f\<close> started in a state with \<open>I\<close> leaves \<open>I\<close> when it returns
  and when it gives up the processor. The rules of \<open>kinv_intro\<close> follow the combinators, so that the
  invariant of a composite operation is a matter of applying them. What the buffer cache and the log
  leave alone is stated once, and the invariant of the inode cache is carried through all of fs.c.
\<close>

section \<open>Rules\<close>

text \<open>\<open>kleft I o\<close>: if the outcome \<open>o\<close> has a state, the state has \<open>I\<close>.\<close>

fun kleft :: "('s \<Rightarrow> bool) \<Rightarrow> ('a, 's) outcome \<Rightarrow> bool" where
  "kleft I (Done r t) = I t"
| "kleft I (Sleep c t) = I t"
| "kleft I (Panic m) = True"
| "kleft I Diverge = True"
| "kleft I Fault = True"

definition kinv :: "('s \<Rightarrow> bool) \<Rightarrow> ('s, 'a) kop \<Rightarrow> bool" where
  "kinv I f \<longleftrightarrow> (\<forall>s. I s \<longrightarrow> kleft I (f s))"

named_theorems kinv_intro \<open>rules for the invariants of operations\<close>

lemma kinvI: "(\<And>s. I s \<Longrightarrow> kleft I (f s)) \<Longrightarrow> kinv I f"
  by (simp add: kinv_def)

lemma kinvD: "kinv I f \<Longrightarrow> I s \<Longrightarrow> kleft I (f s)"
  by (simp add: kinv_def)

lemma kinv_Done: "kinv I f \<Longrightarrow> I s \<Longrightarrow> f s = Done r t \<Longrightarrow> I t"
  by (drule (1) kinvD) simp

lemma kinv_Sleep: "kinv I f \<Longrightarrow> I s \<Longrightarrow> f s = Sleep c t \<Longrightarrow> I t"
  by (drule (1) kinvD) simp

lemma kinv_basic [kinv_intro]:
  "kinv I (kret x)" "kinv I (kpanic m)" "kinv I kfault" "kinv I (kget g)" "kinv I (\<lambda>s. Diverge)"
  by (simp_all add: kinv_def kret_eq kpanic_eq kfault_eq kget_eq)

lemma kinv_modify [kinv_intro]: "(\<And>s. I s \<Longrightarrow> I (g s)) \<Longrightarrow> kinv I (kmodify g)"
  by (simp add: kinv_def kmodify_eq)

lemma kinv_bind [kinv_intro]:
  assumes "kinv I f" "\<And>x. kinv I (g x)"
  shows "kinv I (kbind f g)"
proof (rule kinvI)
  fix s assume "I s"
  with assms(1) have "kleft I (f s)" by (rule kinvD)
  then show "kleft I (kbind f g s)"
    using kinvD [OF assms(2)] by (cases "f s") (simp_all add: kbind_eq)
qed

lemma kinv_seq [kinv_intro]: "kinv I f \<Longrightarrow> kinv I g \<Longrightarrow> kinv I (kseq f g)"
  unfolding kseq_def by (rule kinv_bind)

lemma kinv_when [kinv_intro]: "(c \<Longrightarrow> kinv I f) \<Longrightarrow> kinv I (kwhen c f)"
  unfolding kwhen_def by (simp add: kinv_basic)

lemma kinv_for [kinv_intro]: "(\<And>i. kinv I (body i)) \<Longrightarrow> kinv I (kfor body is)"
  by (induction "is") (simp_all add: kinv_intro)

lemma kinv_if [kinv_intro]: "(c \<Longrightarrow> kinv I f) \<Longrightarrow> (\<not> c \<Longrightarrow> kinv I g) \<Longrightarrow> kinv I (if c then f else g)"
  by simp

lemma kinv_option [kinv_intro]:
  "(x = None \<Longrightarrow> kinv I f) \<Longrightarrow> (\<And>y. x = Some y \<Longrightarrow> kinv I (g y)) \<Longrightarrow> kinv I (case x of None \<Rightarrow> f | Some y \<Rightarrow> g y)"
  by (simp split: option.split)

lemma kinv_prod [kinv_intro]: "(\<And>a b. x = (a, b) \<Longrightarrow> kinv I (f a b)) \<Longrightarrow> kinv I (case x of (a, b) \<Rightarrow> f a b)"
  by (simp split: prod.split)

lemma kinv_let [kinv_intro]: "(\<And>y. y = x \<Longrightarrow> kinv I (f y)) \<Longrightarrow> kinv I (let y = x in f y)"
  by simp

lemma kleft_if: "(c \<Longrightarrow> kleft I a) \<Longrightarrow> (\<not> c \<Longrightarrow> kleft I b) \<Longrightarrow> kleft I (if c then a else b)"
  by simp

text \<open>Reading the state and going on: the continuation may use what was read.\<close>

lemma kinv_get_bind: "(\<And>s. I s \<Longrightarrow> kleft I (g (h s) s)) \<Longrightarrow> kinv I (kbind (kget h) g)"
  by (simp add: kinv_def kbind_eq kget_eq)

lemma kleft_seq_modify: "kleft I (f (g s)) \<Longrightarrow> kleft I (kseq (kmodify g) f s)"
  by (simp add: kseq_eq kmodify_eq)

text \<open>An invariant that depends only on what \<open>f\<close> keeps.\<close>

definition kkeeps :: "('s \<Rightarrow> 'v) \<Rightarrow> ('s, 'a) kop \<Rightarrow> bool" where
  "kkeeps g f \<longleftrightarrow> (\<forall>v. kinv (\<lambda>s. g s = v) f)"

lemma kkeepsI: "(\<And>v. kinv (\<lambda>s. g s = v) f) \<Longrightarrow> kkeeps g f"
  by (simp add: kkeeps_def)

lemma kkeepsD: "kkeeps g f \<Longrightarrow> kinv (\<lambda>s. g s = v) f"
  by (simp add: kkeeps_def)

lemma kinv_finer:
  assumes "kkeeps g f" "\<And>s t. g t = g s \<Longrightarrow> I s \<Longrightarrow> I t"
  shows "kinv I f"
proof (rule kinvI)
  fix s assume "I s"
  then have I: "I t" if "g t = g s" for t using assms(2) [OF that] by simp
  have "kleft (\<lambda>t. g t = g s) (f s)" using assms(1) by (simp add: kkeeps_def kinv_def)
  then show "kleft I (f s)" by (cases "f s") (simp_all add: I)
qed

lemma kkeeps_coarser:
  assumes "kkeeps g f" "\<And>s t. g t = g s \<Longrightarrow> h t = h s"
  shows "kkeeps h f"
proof (rule kkeepsI, rule kinv_finer [OF assms(1)])
  show "h t = v" if "g t = g s" "h s = v" for s t v using assms(2) [OF that(1)] that(2) by (rule trans)
qed

section \<open>What the buffer cache and the log keep\<close>

text \<open>
  The operations of bio.c change buffers and disk blocks only, and wake sleepers; those of log.c change the log too.
  Everything above them, and the part of the process table that is not the scheduling state, is kept.
\<close>

definition pframe :: "proc \<Rightarrow> proc" where
  "pframe p = p\<lparr>p_state := UNUSED, p_chan := None\<rparr>"

type_synonym procs_view = "(nat \<Rightarrow> proc) \<times> nat option \<times> nat option \<times> cint"

definition procs_view :: "'z pstate_scheme \<Rightarrow> procs_view" where
  "procs_view s = ((\<lambda>i. pframe (ptable s i)), curproc s, initproc s, nextpid s)"

definition above_bio :: "'z bstate_scheme \<Rightarrow> procs_view \<times> 'z" where
  "above_bio s = (procs_view s, bstate.more s)"

definition above_log :: "'z lstate_scheme \<Rightarrow> procs_view \<times> 'z" where
  "above_log s = (procs_view s, lstate.more s)"

named_theorems keeps_intro \<open>operations that keep what is above the buffer cache or the log\<close>

lemma procs_view_wakeup1 [simp]: "procs_view (wakeup1 c s) = procs_view s"
  by (auto simp: procs_view_def wakeup1_def pframe_def)

lemma procs_view_sched [simp]:
  "(\<And>p. pframe (g p) = pframe p) \<Longrightarrow> procs_view (upd_proc i g s) = procs_view s"
  by (auto simp: procs_view_def)

lemma pframe_simps [simp]:
  "pframe (p\<lparr>p_chan := c, p_state := x\<rparr>) = pframe p" "pframe (p\<lparr>p_chan := c\<rparr>) = pframe p"
  "pframe (p\<lparr>p_state := x\<rparr>) = pframe p"
  by (simp_all add: pframe_def)

lemma above_bio_simps [simp]:
  "above_bio (wakeup1 c s) = above_bio s" "above_bio (upd_buf b g s) = above_bio s"
  "above_bio (s\<lparr>bufs := x\<rparr>) = above_bio s" "above_bio (s\<lparr>memdisk := y, wtrace := z\<rparr>) = above_bio s"
  by (simp_all add: above_bio_def procs_view_def upd_buf_def wakeup1_def fun_eq_iff)

lemma kleft_sleep: "(\<And>i. I (upd_proc i (\<lambda>p. p\<lparr>p_chan := Some c, p_state := SLEEPING\<rparr>) s)) \<Longrightarrow> kleft I (sleep c s)"
  by (simp add: sleep_def split: option.split)

lemma above_bio_upd_proc [simp]:
  "(\<And>p. pframe (g p) = pframe p) \<Longrightarrow> above_bio (upd_proc i g s) = above_bio s"
  by (simp add: above_bio_def) (simp add: upd_proc_def)

lemma above_bio_sleep: "above_bio s = v \<Longrightarrow> kleft (\<lambda>t. above_bio t = v) (sleep c s)"
  by (rule kleft_sleep) simp

lemma bget_keeps [keeps_intro]: "kkeeps above_bio (bget dev sector)"
  by (rule kkeepsI, rule kinvI) (simp add: bget_def Let_def above_bio_sleep split: scan.split)

lemma iderw_keeps [keeps_intro]: "kkeeps above_bio (iderw b)"
  by (rule kkeepsI, rule kinvI) (simp add: iderw_def Let_def)

lemma bread_keeps [keeps_intro]: "kkeeps above_bio (bread dev sector)"
  unfolding bread_def by (rule kkeepsI) (intro kinv_intro keeps_intro [THEN kkeepsD])

lemma bwrite_keeps [keeps_intro]: "kkeeps above_bio (bwrite b)"
  by (rule kkeepsI, rule kinvI) (simp add: bwrite_def kinvD [OF kkeepsD [OF iderw_keeps]])

lemma brelse_keeps [keeps_intro]: "kkeeps above_bio (brelse b)"
  by (rule kkeepsI, rule kinvI) (simp add: brelse_def wakeup_eq)

lemma data_keeps [keeps_intro]:
  "kkeeps above_bio (set_data b g)" "kkeeps above_bio (get_data b)" "kkeeps above_bio (set_dirty b)"
  unfolding set_data_def get_data_def set_dirty_def
  by (rule kkeepsI, intro kinv_intro, simp, rule kkeepsI, rule kinv_basic, rule kkeepsI, intro kinv_intro, simp)

lemma readsb_keeps [keeps_intro]: "kkeeps above_bio (readsb dev)"
  unfolding readsb_def by (rule kkeepsI) (intro kinv_intro keeps_intro [THEN kkeepsD])

lemma above_log_coarser: "above_bio t = above_bio s \<Longrightarrow> above_log t = above_log s"
  by (cases s, cases t) (simp add: above_bio_def above_log_def)

lemma above_log_upd [simp]:
  "above_log (s\<lparr>lh_n := x\<rparr>) = above_log s" "above_log (s\<lparr>lh_sector := y\<rparr>) = above_log s"
  "above_log (s\<lparr>log_outstanding := z\<rparr>) = above_log s" "above_log (s\<lparr>log_committing := c\<rparr>) = above_log s"
  "above_log (s\<lparr>log_start := d, log_size := e, log_dev := f\<rparr>) = above_log s"
  "above_log (s\<lparr>lh_n := x, lh_sector := y\<rparr>) = above_log s"
  "above_log (wakeup1 ch s) = above_log s"
  by (simp_all add: above_log_def procs_view_def wakeup1_def fun_eq_iff)

lemma bio_keeps_log: "kkeeps above_bio f \<Longrightarrow> kkeeps above_log f"
  by (erule kkeeps_coarser) (rule above_log_coarser)

lemmas bio_log = keeps_intro [THEN bio_keeps_log, THEN kkeepsD]

named_theorems log_intro \<open>operations that keep what is above the log\<close>

lemma above_log_sleep: "above_log s = v \<Longrightarrow> kleft (\<lambda>t. above_log t = v) (sleep c s)"
  by (rule kleft_sleep) (simp add: above_log_def, simp add: upd_proc_def)

lemma above_log_wakeup [log_intro]: "kkeeps above_log (wakeup c)"
  unfolding wakeup_def by (rule kkeepsI) (intro kinv_intro, simp)

lemma install_one_keeps [log_intro]: "kkeeps above_log (install_one tail)"
  by (rule kkeepsI, rule kinvI, subst install_one_def, rule kleft_if, rule kinvD)
    (intro kinv_intro bio_log, assumption, simp)

lemma install_trans_keeps [log_intro]: "kkeeps above_log install_trans"
  unfolding install_trans_def by (rule kkeepsI) (intro kinv_intro log_intro [THEN kkeepsD])

lemma read_head_keeps [log_intro]: "kkeeps above_log read_head"
  by (rule kkeepsI, rule kinvI, subst read_head_def, rule kinvD, unfold read_head_one_def)
    (intro kinv_intro bio_log, simp_all)

lemma write_head_keeps [log_intro]: "kkeeps above_log write_head"
  by (rule kkeepsI, rule kinvI, subst write_head_def, rule kleft_if, rule kinvD)
    (intro kinv_intro bio_log, assumption, simp)

lemma write_log_one_keeps [log_intro]: "kkeeps above_log (write_log_one tail)"
  by (rule kkeepsI, rule kinvI, subst write_log_one_def, rule kleft_if, rule kinvD)
    (intro kinv_intro bio_log, assumption, simp)

lemma write_log_keeps [log_intro]: "kkeeps above_log write_log"
  unfolding write_log_def by (rule kkeepsI) (intro kinv_intro log_intro [THEN kkeepsD])

lemma commit_keeps [log_intro]: "kkeeps above_log commit"
  by (rule kkeepsI, rule kinvI, subst commit_def, rule kleft_if, rule kinvD)
    (intro kinv_intro log_intro [THEN kkeepsD], simp, assumption, simp)

lemma recover_keeps [log_intro]: "kkeeps above_log recover_from_log"
  unfolding recover_from_log_def by (rule kkeepsI) (intro kinv_intro log_intro [THEN kkeepsD], simp)

lemma initlog_keeps [log_intro]: "kkeeps above_log initlog"
  unfolding initlog_def by (rule kkeepsI) (intro kinv_intro bio_log log_intro [THEN kkeepsD], simp)

lemma begin_op_keeps [log_intro]: "kkeeps above_log begin_op"
  by (rule kkeepsI, rule kinvI) (simp add: begin_op_def above_log_sleep)

lemma end_op_keeps [log_intro]: "kkeeps above_log end_op"
proof (rule kkeepsI, rule kinvI)
  fix v s assume s: "above_log s = v"
  have "kinv (\<lambda>s. above_log s = v) (kseq (kmodify (log_committing_update (\<lambda>_. True)))
      (kseq commit (kseq (kmodify (log_committing_update (\<lambda>_. False))) (wakeup ChLog))))"
    by (intro kinv_intro log_intro [THEN kkeepsD]) simp_all
  from kinvD [OF this] s show "kleft (\<lambda>s. above_log s = v) (end_op s)"
    by (simp add: end_op_def Let_def wakeup_eq)
qed

lemma log_write_keeps [log_intro]: "kkeeps above_log (log_write b)"
proof (rule kkeepsI, rule kinvI)
  fix v s assume s: "above_log s = v"
  have "kinv (\<lambda>s. above_log s = v) (set_dirty b)" by (intro bio_log)
  from kinvD [OF this] s show "kleft (\<lambda>s. above_log s = v) (log_write b s)"
    by (simp add: log_write_def Let_def kseq_eq kmodify_eq)
qed

lemma bzero_keeps [log_intro]: "kkeeps above_log (bzero dev b)"
  unfolding bzero_def by (rule kkeepsI) (intro kinv_intro bio_log log_intro [THEN kkeepsD])

lemma balloc_loop_keeps [log_intro]: "kkeeps above_log (balloc_loop fuel dev sb b)"
  by (induction fuel dev sb b rule: balloc_loop.induct; rule kkeepsI; simp only: balloc_loop.simps)
    (intro kinv_intro bio_log log_intro [THEN kkeepsD] | (rule kkeepsD, simp))+

lemma balloc_keeps [log_intro]: "kkeeps above_log (balloc dev)"
  unfolding balloc_def by (rule kkeepsI) (intro kinv_intro bio_log log_intro [THEN kkeepsD])

lemma bfree_keeps [log_intro]: "kkeeps above_log (bfree dev b)"
  unfolding bfree_def by (rule kkeepsI) (intro kinv_intro bio_log log_intro [THEN kkeepsD])

section \<open>What the operations on a locked inode keep\<close>

text \<open>
  The identity and the reference count of the entries of the inode cache, and all that is above the cache, change
  in \<open>iget\<close>, \<open>idup\<close> and \<open>iput\<close> only.
\<close>

definition inode_view :: "'z istate_scheme \<Rightarrow> (nat \<Rightarrow> uint \<times> uint \<times> int) \<times> procs_view \<times> 'z" where
  "inode_view s = ((\<lambda>i. (i_dev (icache s i), i_inum (icache s i), i_ref (icache s i))), procs_view s, istate.more s)"

lemma inode_view_coarser: "above_log t = above_log s \<Longrightarrow> inode_view t = inode_view s"
  by (cases s, cases t) (simp add: above_log_def inode_view_def)

lemma log_keeps_inodes: "kkeeps above_log f \<Longrightarrow> kkeeps inode_view f"
  by (erule kkeeps_coarser) (rule inode_view_coarser)

lemmas log_inode = log_intro [THEN log_keeps_inodes, THEN kkeepsD]
  keeps_intro [THEN bio_keeps_log, THEN log_keeps_inodes, THEN kkeepsD]

named_theorems inode_intro \<open>operations that keep the identities and the reference counts of the inodes\<close>

lemma inode_view_upd:
  "(\<And>ip. i_dev (g ip) = i_dev ip) \<Longrightarrow> (\<And>ip. i_inum (g ip) = i_inum ip) \<Longrightarrow> (\<And>ip. i_ref (g ip) = i_ref ip) \<Longrightarrow>
   inode_view (upd_inode i g s) = inode_view s"
  by (simp add: inode_view_def upd_inode_def procs_view_def fun_eq_iff)

lemma set_inode_keeps [kinv_intro]:
  "(\<And>ip. i_dev (g ip) = i_dev ip) \<Longrightarrow> (\<And>ip. i_inum (g ip) = i_inum ip) \<Longrightarrow> (\<And>ip. i_ref (g ip) = i_ref ip) \<Longrightarrow>
   kinv (\<lambda>s. inode_view s = v) (set_inode i g)"
  unfolding set_inode_def by (rule kinv_modify) (simp add: inode_view_upd)

lemma get_inode_keeps [kinv_intro]: "kinv I (get_inode i)"
  unfolding get_inode_def by (rule kinv_basic)

lemma iupdate_keeps [inode_intro]: "kkeeps inode_view (iupdate i)"
  unfolding iupdate_def by (rule kkeepsI) (intro kinv_intro log_inode)

lemma inode_view_sleep: "inode_view s = v \<Longrightarrow> kleft (\<lambda>t. inode_view t = v) (sleep c s)"
  by (rule kleft_sleep) (simp add: inode_view_def, simp add: upd_proc_def)

lemma ilock_keeps [inode_intro]: "kkeeps inode_view (ilock i)"
  by (rule kkeepsI, rule kinvI, subst ilock_def, rule kleft_if, simp, rule kleft_if, simp add: inode_view_sleep, rule kinvD)
    (intro kinv_intro log_inode; simp add: load_inode_def)+

lemma iunlock_keeps [inode_intro]: "kkeeps inode_view (iunlock i)"
  by (rule kkeepsI, rule kinvI, subst iunlock_def, rule kleft_if, simp, rule kinvD)
    (intro kinv_intro log_inode; simp)+

lemma itrunc_keeps [inode_intro]: "kkeeps inode_view (itrunc i)"
  unfolding itrunc_def itrunc_direct_def get_addr_def set_addr_def
  by (rule kkeepsI) (intro kinv_intro log_inode inode_intro [THEN kkeepsD]; simp)

lemma bmap_keeps [inode_intro]: "kkeeps inode_view (bmap i bn)"
  unfolding bmap_def get_addr_def set_addr_def by (rule kkeepsI) (intro kinv_intro log_inode; simp)

declare readi_loop.simps [simp del] writei_loop.simps [simp del] namex_loop.simps [simp del]

lemma readi_loop_keeps [inode_intro]: "kkeeps inode_view (readi_loop i off n)"
  by (induction i off n rule: readi_loop.induct, rule kkeepsI, subst readi_loop.simps)
    (intro kinv_intro log_inode inode_intro [THEN kkeepsD] | (rule kkeepsD, simp))+

lemma writei_loop_keeps [inode_intro]: "kkeeps inode_view (writei_loop i src off n)"
  by (induction i src off n rule: writei_loop.induct, rule kkeepsI, subst writei_loop.simps)
    (intro kinv_intro log_inode inode_intro [THEN kkeepsD] | (rule kkeepsD, simp))+


lemma readi_data_keeps [inode_intro]: "kkeeps inode_view (readi_data i off n)"
  unfolding readi_data_def by (rule kkeepsI) (intro kinv_intro inode_intro [THEN kkeepsD])

lemma writei_data_keeps [inode_intro]: "kkeeps inode_view (writei_data i src off)"
  unfolding writei_data_def by (rule kkeepsI) (intro kinv_intro inode_intro [THEN kkeepsD]; simp)

lemma dirlookup_loop_keeps [inode_intro]: "kkeeps inode_view (dirlookup_loop fuel dp name off)"
proof (induction fuel arbitrary: off)
  case 0
  show ?case by (rule kkeepsI, rule kinvI) simp
next
  case (Suc fuel)
  then show ?case unfolding dirlookup_loop.simps
    by (intro kkeepsI kinv_intro inode_intro [THEN kkeepsD] Suc [THEN kkeepsD])
qed

lemma dirlink_loop_keeps [inode_intro]: "kkeeps inode_view (dirlink_loop fuel dp off)"
proof (induction fuel arbitrary: off)
  case 0
  show ?case by (rule kkeepsI, rule kinvI) simp
next
  case (Suc fuel)
  then show ?case unfolding dirlink_loop.simps
    by (intro kkeepsI kinv_intro inode_intro [THEN kkeepsD] Suc [THEN kkeepsD])
qed

section \<open>The inode cache\<close>

text \<open>
  The invariant the comment above \<open>iget\<close> asks for: no two entries in use are for the same inode. \<open>ilock\<close> gives
  exclusive access to the inode, and not only to the entry, because of it.
\<close>

definition in_use :: "'z istate_scheme \<Rightarrow> nat \<Rightarrow> bool" where
  "in_use s i \<longleftrightarrow> i < NINODE \<and> i_ref (icache s i) > 0"

definition icache_unique :: "'z istate_scheme \<Rightarrow> bool" where
  "icache_unique s \<longleftrightarrow> (\<forall>i j. in_use s i \<and> in_use s j \<and> i_dev (icache s i) = i_dev (icache s j) \<and>
     i_inum (icache s i) = i_inum (icache s j) \<longrightarrow> i = j)"

lemma icache_unique_view:
  assumes "inode_view t = inode_view s" "icache_unique s"
  shows "icache_unique t"
proof -
  have "i_dev (icache t i) = i_dev (icache s i) \<and> i_inum (icache t i) = i_inum (icache s i) \<and>
      i_ref (icache t i) = i_ref (icache s i)" for i
    using assms(1) by (simp add: inode_view_def fun_eq_iff)
  then show ?thesis using assms(2) by (simp add: icache_unique_def in_use_def)
qed

lemma inode_keeps_unique: "kkeeps inode_view f \<Longrightarrow> kinv icache_unique f"
  by (erule kinv_finer) (rule icache_unique_view)

lemmas unique_inode = inode_intro [THEN inode_keeps_unique]
  log_intro [THEN log_keeps_inodes, THEN inode_keeps_unique]
  keeps_intro [THEN bio_keeps_log, THEN log_keeps_inodes, THEN inode_keeps_unique]

named_theorems unique_intro \<open>operations that keep the entries of the inode cache unique\<close>

lemma icache_uniqueD:
  "icache_unique s \<Longrightarrow> in_use s i \<Longrightarrow> in_use s j \<Longrightarrow> i_dev (icache s i) = i_dev (icache s j) \<Longrightarrow>
   i_inum (icache s i) = i_inum (icache s j) \<Longrightarrow> i = j"
  unfolding icache_unique_def by simp

lemma upd_inode_unique:
  assumes u: "icache_unique s"
    and new: "\<And>j. i < NINODE \<Longrightarrow> j \<noteq> i \<Longrightarrow> in_use s j \<Longrightarrow> i_dev (icache s j) = i_dev (g (icache s i)) \<Longrightarrow>
      i_inum (icache s j) = i_inum (g (icache s i)) \<Longrightarrow> i_ref (g (icache s i)) \<le> 0"
  shows "icache_unique (upd_inode i g s)"
  unfolding icache_unique_def
proof (intro allI impI, elim conjE)
  fix j k
  let ?c = "icache (upd_inode i g s)"
  assume j: "in_use (upd_inode i g s) j" and k: "in_use (upd_inode i g s) k"
    and d: "i_dev (?c j) = i_dev (?c k)" and n: "i_inum (?c j) = i_inum (?c k)"
  have other: "in_use s l \<and> ?c l = icache s l" if "l \<noteq> i" "in_use (upd_inode i g s) l" for l
    using that by (simp add: in_use_def upd_inode_def)
  have self: "i < NINODE" "i_ref (g (icache s i)) > 0" "?c i = g (icache s i)" if "in_use (upd_inode i g s) i"
    using that by (simp_all add: in_use_def upd_inode_def)
  consider "j = i" "k = i" | "j = i" "k \<noteq> i" | "j \<noteq> i" "k = i" | "j \<noteq> i" "k \<noteq> i" by blast
  then show "j = k"
  proof cases
    case 2 then show ?thesis using j k d n other [of k] self new [of k] by simp
  next
    case 3 then show ?thesis using j k d n other [of j] self new [of j] by simp
  next
    case 4 then show ?thesis using j k d n other [of j] other [of k] u by (simp add: icache_uniqueD)
  qed simp
qed

lemma add_ref_unique:
  assumes "icache_unique s" "in_use s i"
  shows "icache_unique (upd_inode i (\<lambda>ip. ip\<lparr>i_ref := i_ref ip + 1\<rparr>) s)"
  using assms by (intro upd_inode_unique) (auto dest: icache_uniqueD)

lemma iget_unique [unique_intro]: "kinv icache_unique (iget dev inum)"
proof (rule kinvI)
  fix s :: "'z istate_scheme" assume u: "icache_unique s"
  let ?P = "\<lambda>i. i_ref (icache s i) > 0 \<and> i_dev (icache s i) = dev \<and> i_inum (icache s i) = inum"
  show "kleft icache_unique (iget dev inum s)"
  proof (cases "first_slot NINODE ?P")
    case (Some i)
    then have "in_use s i" by (simp add: first_slot_Some in_use_def)
    with Some u show ?thesis by (simp add: iget_def add_ref_unique)
  next
    case None
    let ?g = "\<lambda>ip. ip\<lparr>i_dev := dev, i_inum := inum, i_ref := 1, i_busy := False, i_valid := False\<rparr>"
    have "icache_unique (upd_inode i ?g s)" for i
      using u None by (intro upd_inode_unique) (auto simp: first_slot_None in_use_def)
    with None show ?thesis by (simp add: iget_def split: option.split)
  qed
qed

lemma drop_ref_unique [unique_intro]: "kinv icache_unique (set_inode i (\<lambda>ip. ip\<lparr>i_ref := i_ref ip - 1\<rparr>))"
  unfolding set_inode_def
  by (rule kinv_modify, rule upd_inode_unique) (rule ccontr, auto simp: in_use_def dest: icache_uniqueD [of _ _ i])

lemma set_inode_unique [unique_intro]:
  "kinv icache_unique (set_inode i (\<lambda>ip. ip\<lparr>i_busy := b\<rparr>))" "kinv icache_unique (set_inode i (\<lambda>ip. ip\<lparr>i_type := t\<rparr>))"
  "kinv icache_unique (set_inode i (\<lambda>ip. ip\<lparr>i_busy := b, i_valid := v\<rparr>))"
  by (rule inode_keeps_unique, rule kkeepsI, rule set_inode_keeps; simp)+

lemma iput_unique [unique_intro]: "kinv icache_unique (iput i)"
  by (rule kinvI, subst iput_def, rule kinvD) (intro kinv_intro unique_intro unique_inode, assumption)

lemma iunlockput_unique [unique_intro]: "kinv icache_unique (iunlockput i)"
  unfolding iunlockput_def by (intro kinv_intro unique_intro unique_inode)

lemma ialloc_scan_unique [unique_intro]: "kinv icache_unique (ialloc_scan dev ty is)"
  by (induction "is") (simp only: ialloc_scan.simps, intro kinv_intro unique_intro unique_inode, assumption?)+

lemma ialloc_unique [unique_intro]: "kinv icache_unique (ialloc dev ty)"
  unfolding ialloc_def by (intro kinv_intro unique_intro unique_inode)

lemma dirlookup_unique [unique_intro]: "kinv icache_unique (dirlookup dp name)"
  unfolding dirlookup_def by (intro kinv_intro unique_intro unique_inode)

lemma dirlink_unique [unique_intro]: "kinv icache_unique (dirlink dp name inum)"
  unfolding dirlink_def by (intro kinv_intro unique_intro unique_inode)

lemma namex_loop_unique [unique_intro]: "kinv icache_unique (namex_loop parent ip path)"
proof (induction "length path" arbitrary: ip path rule: less_induct)
  case less
  show ?case
    by (subst namex_loop.simps) (intro kinv_intro unique_intro unique_inode less; simp add: skipelem_shorter)
qed

lemma idup_unique:
  assumes "icache_unique s" "in_use s i"
  shows "kleft icache_unique (idup i s)"
  using assms by (simp add: idup_def set_inode_def kop_simps add_ref_unique)

text \<open>\<open>namex\<close> takes a new reference to the current directory: the process must have one already.\<close>

definition cwd_in_use :: "'z istate_scheme \<Rightarrow> bool" where
  "cwd_in_use s \<longleftrightarrow> (\<forall>p i. curproc s = Some p \<and> p_cwd (ptable s p) = Some i \<longrightarrow> in_use s i)"

lemma namex_unique:
  assumes u: "icache_unique s" and c: "cwd_in_use s"
  shows "kleft icache_unique (namex path parent s)"
proof (cases "path \<noteq> [] \<and> hd path = slash")
  case True
  then have "kinv icache_unique (namex path parent :: ('a istate_scheme, (nat \<times> uchar list) option) kop)"
    unfolding namex_def by (simp only: if_True simp_thms, intro kinv_intro unique_intro)
  then show ?thesis using u by (rule kinvD)
next
  case False
  show ?thesis
  proof (cases "case curproc s of None \<Rightarrow> None | Some p \<Rightarrow> p_cwd (ptable s p)")
    case None
    then show ?thesis unfolding namex_def if_not_P [OF False] by (simp add: kbind_eq kget_eq kfault_eq)
  next
    case (Some i)
    then have "in_use s i" using c by (auto simp: cwd_in_use_def split: option.splits)
    with u have "kleft icache_unique (idup i s)" by (rule idup_unique)
    then show ?thesis using Some kinvD [OF namex_loop_unique] unfolding namex_def if_not_P [OF False]
      by (simp add: kbind_eq kget_eq idup_def kseq_eq set_inode_def kmodify_eq kret_eq)
  qed
qed

text \<open>What \<open>iget\<close> returns: an entry in use for the inode asked for, with one more reference.\<close>

lemma iget_returns:
  assumes "iget dev inum s = Done i t"
  shows "in_use t i" "i_dev (icache t i) = dev" "i_inum (icache t i) = inum"
    "i_ref (icache t i) = (if in_use s i then i_ref (icache s i) + 1 else 1)"
  using assms by (auto simp: iget_def in_use_def upd_inode_def first_slot_Some first_slot_None split: option.splits)

section \<open>The property\<close>

text \<open>A machine whose process 0 has inode 1 of the disk as its current directory, with one reference.\<close>

definition demo_inodes :: "nat \<Rightarrow> inode" where
  "demo_inodes i = \<lparr>i_dev = 1, i_inum = 1, i_ref = (if i = 0 then 1 else 0), i_busy = False, i_valid = False,
     i_type = 0, i_major = 0, i_minor = 0, i_nlink = 0, i_size = 0, i_addrs = replicate (NDIRECT + 1) 0\<rparr>"

definition demo_fs :: istate where
  "demo_fs = lstate.extend ((loaded demo_disk 1024)\<lparr>curproc := Some 0, ptable := (\<lambda>_. zero_proc\<lparr>p_cwd := Some 0\<rparr>)\<rparr>)
     (istate.fields demo_inodes)"

lemma demo_fs_simps:
  "icache demo_fs = demo_inodes" "curproc demo_fs = Some 0" "p_cwd (ptable demo_fs p) = Some 0"
  by (simp_all add: demo_fs_def lstate.defs istate.defs)

lemma demo_fs_ok: "icache_unique demo_fs" "in_use demo_fs 0" "cwd_in_use demo_fs"
  by (simp_all add: icache_unique_def in_use_def cwd_in_use_def demo_fs_simps demo_inodes_def NINODE_def)

text \<open>
  C11. The inode cache has at most one entry in use for an inode, so that the lock of the entry is a lock of the inode.
  In a state where that holds, it holds when \<open>iget\<close>, \<open>ialloc\<close>, \<open>ilock\<close>, \<open>iunlock\<close>, \<open>iupdate\<close>, \<open>iput\<close>, \<open>iunlockput\<close>, \<open>bmap\<close>, reading
  and writing contents, \<open>dirlookup\<close> or \<open>dirlink\<close> return or sleep; also when \<open>idup\<close> is called, as it must be, on an entry
  in use, and when \<open>namex\<close> walks a path of a process whose current directory is in use. \<open>iget\<close> returns an entry in
  use for the inode it was asked for.
\<close>

theorem inode_cache_unique:
  assumes "icache_unique s" "in_use s i" "cwd_in_use s"
  shows "kleft icache_unique (iget dev inum s) \<and> kleft icache_unique (ialloc dev ty s) \<and>
    kleft icache_unique (idup i s) \<and> kleft icache_unique (namex path parent s) \<and>
    kleft icache_unique (ilock j s) \<and> kleft icache_unique (iunlock j s) \<and> kleft icache_unique (iupdate j s) \<and>
    kleft icache_unique (iput j s) \<and> kleft icache_unique (iunlockput j s) \<and> kleft icache_unique (bmap j bn s) \<and>
    kleft icache_unique (readi_data j off n s) \<and> kleft icache_unique (writei_data j src off s) \<and>
    kleft icache_unique (dirlookup j name s) \<and> kleft icache_unique (dirlink j name inum s) \<and>
    (\<forall>k t. iget dev inum s = Done k t \<longrightarrow> in_use t k \<and> i_dev (icache t k) = dev \<and> i_inum (icache t k) = inum)"
  using assms unique_inode [THEN kinvD, OF assms(1)] unique_intro [THEN kinvD, OF assms(1)]
  by (simp add: idup_unique namex_unique iget_returns)

theorem inode_cache_unique_witness:
  "icache_unique demo_fs \<and> in_use demo_fs 0 \<and> cwd_in_use demo_fs \<and>
   kleft icache_unique (iget 1 2 demo_fs) \<and> kleft icache_unique (namex [0x61] False demo_fs)"
  using inode_cache_unique [OF demo_fs_ok, where dev = 1 and inum = 2 and path = "[0x61]" and parent = False]
  by (simp add: demo_fs_ok)

end
