(* ===== verification/Fs_Types.thy ===== *)
theory Fs_Types
  imports Keeps
begin

text \<open>
  Array bounds in the file system. A list of the model stands for an array whose length is fixed by its
  declaration: \<open>BSIZE\<close> bytes of a buffer and of a disk block, \<open>LOGSIZE\<close> sector numbers of the log header,
  \<open>NDIRECT + 1\<close> addresses of an inode. An access to the log header or to the addresses of an inode outside these bounds is a \<open>Fault\<close> of the
  model, and a store (\<open>blit\<close>, \<open>put16\<close>, \<open>put32\<close>) that passes the end of a block changes the length of its list. \<open>ksafe I f\<close> says that
  \<open>f\<close> keeps \<open>I\<close> and does not end in \<open>Fault\<close>; every operation of bio.c, log.c and fs.c that runs after \<open>initlog\<close> is safe for
  the declared lengths together with the bound on the number of logged sectors.
\<close>

section \<open>Operations without faults\<close>

fun kgood :: "('s \<Rightarrow> bool) \<Rightarrow> ('a, 's) outcome \<Rightarrow> bool" where
  "kgood I (Done r t) = I t"
| "kgood I (Sleep c t) = I t"
| "kgood I (Panic m) = True"
| "kgood I Diverge = True"
| "kgood I Fault = False"

definition ksafe :: "('s \<Rightarrow> bool) \<Rightarrow> ('s, 'a) kop \<Rightarrow> bool" where
  "ksafe I f \<longleftrightarrow> (\<forall>s. I s \<longrightarrow> kgood I (f s))"

named_theorems ksafe_intro \<open>rules for operations without faults\<close>

lemma ksafeI: "(\<And>s. I s \<Longrightarrow> kgood I (f s)) \<Longrightarrow> ksafe I f"
  by (simp add: ksafe_def)

lemma ksafeD: "ksafe I f \<Longrightarrow> I s \<Longrightarrow> kgood I (f s)"
  by (simp add: ksafe_def)

lemma ksafe_basic [ksafe_intro]: "ksafe I (kret x)" "ksafe I (kpanic m)" "ksafe I (kget g)" "ksafe I (\<lambda>s. Diverge)"
  by (simp_all add: ksafe_def kret_eq kpanic_eq kget_eq)

lemma ksafe_modify [ksafe_intro]: "(\<And>s. I s \<Longrightarrow> I (g s)) \<Longrightarrow> ksafe I (kmodify g)"
  by (simp add: ksafe_def kmodify_eq)

lemma ksafe_bind [ksafe_intro]:
  assumes "ksafe I f" "\<And>x. ksafe I (g x)"
  shows "ksafe I (kbind f g)"
proof (rule ksafeI)
  fix s assume "I s"
  with assms(1) have "kgood I (f s)" by (rule ksafeD)
  then show "kgood I (kbind f g s)"
    using ksafeD [OF assms(2)] by (cases "f s") (simp_all add: kbind_eq)
qed

lemma ksafe_seq [ksafe_intro]: "ksafe I f \<Longrightarrow> ksafe I g \<Longrightarrow> ksafe I (kseq f g)"
  unfolding kseq_def by (rule ksafe_bind)

lemma ksafe_when [ksafe_intro]: "(c \<Longrightarrow> ksafe I f) \<Longrightarrow> ksafe I (kwhen c f)"
  unfolding kwhen_def by (simp add: ksafe_basic)

lemma ksafe_for [ksafe_intro]: "(\<And>i. i \<in> set is \<Longrightarrow> ksafe I (body i)) \<Longrightarrow> ksafe I (kfor body is)"
  by (induction "is") (simp_all add: ksafe_intro)

lemma ksafe_if [ksafe_intro]: "(c \<Longrightarrow> ksafe I f) \<Longrightarrow> (\<not> c \<Longrightarrow> ksafe I g) \<Longrightarrow> ksafe I (if c then f else g)"
  by simp

lemma ksafe_option [ksafe_intro]:
  "(x = None \<Longrightarrow> ksafe I f) \<Longrightarrow> (\<And>y. x = Some y \<Longrightarrow> ksafe I (g y)) \<Longrightarrow> ksafe I (case x of None \<Rightarrow> f | Some y \<Rightarrow> g y)"
  by (simp split: option.split)

lemma ksafe_prod [ksafe_intro]: "(\<And>a b. x = (a, b) \<Longrightarrow> ksafe I (f a b)) \<Longrightarrow> ksafe I (case x of (a, b) \<Rightarrow> f a b)"
  by (simp split: prod.split)

lemma ksafe_let [ksafe_intro]: "(\<And>y. y = x \<Longrightarrow> ksafe I (f y)) \<Longrightarrow> ksafe I (let y = x in f y)"
  by simp

lemma ksafe_get_bind: "(\<And>s. I s \<Longrightarrow> ksafe I (g (h s))) \<Longrightarrow> ksafe I (kbind (kget h) g)"
  by (simp add: ksafe_def kbind_eq kget_eq)

lemma kgood_if: "(c \<Longrightarrow> kgood I a) \<Longrightarrow> (\<not> c \<Longrightarrow> kgood I b) \<Longrightarrow> kgood I (if c then a else b)"
  by simp

section \<open>The bounds\<close>

text \<open>The declared lengths, the number of sectors in the log header, and a current process with a working directory.\<close>

definition fs_typed :: "'z istate_scheme \<Rightarrow> bool" where
  "fs_typed s \<longleftrightarrow> (\<forall>b. length (b_data (bufs s b)) = BSIZE) \<and> (\<forall>n. length (memdisk s n) = BSIZE) \<and>
     length (lh_sector s) = LOGSIZE \<and> (\<forall>i. length (i_addrs (icache s i)) = NDIRECT + 1) \<and>
     0 \<le> lh_n s \<and> lh_n s \<le> int LOGSIZE \<and> (\<exists>i. curproc s = Some i \<and> p_cwd (ptable s i) \<noteq> None)"

named_theorems typed_intro \<open>operations that keep the bounds\<close>

lemma p_cwd_wakeup1: "p_cwd (ptable (wakeup1 c s) i) = p_cwd (ptable s i)"
  by (simp add: wakeup1_def)

lemma fs_typed_simps [simp]:
  "fs_typed (wakeup1 c s) = fs_typed s"
  "(\<And>p. p_cwd (g p) = p_cwd p) \<Longrightarrow> fs_typed (upd_proc i g s) = fs_typed s"
  "fs_typed (s\<lparr>log_outstanding := z\<rparr>) = fs_typed s"
  "fs_typed (s\<lparr>log_committing := c'\<rparr>) = fs_typed s"
proof -
  show "fs_typed (wakeup1 c s) = fs_typed s"
    unfolding fs_typed_def p_cwd_wakeup1 by (simp add: wakeup1_def)
  show "fs_typed (upd_proc i g s) = fs_typed s" if "\<And>p. p_cwd (g p) = p_cwd p"
  proof -
    have "p_cwd (ptable (upd_proc i g s) j) = p_cwd (ptable s j)" for j using that by (simp add: upd_proc_def)
    then show ?thesis by (simp add: fs_typed_def) (simp add: upd_proc_def)
  qed
qed (simp_all add: fs_typed_def)

lemma fs_typed_lh_n: "fs_typed s \<Longrightarrow> fs_typed (s\<lparr>lh_n := 0\<rparr>)"
  by (simp add: fs_typed_def)

lemma fs_typed_log: "fs_typed s \<Longrightarrow> 0 \<le> lh_n s" "fs_typed s \<Longrightarrow> lh_n s \<le> int LOGSIZE"
  by (simp_all add: fs_typed_def)

lemma fs_typed_upd_buf:
  "fs_typed s \<Longrightarrow> length (b_data (g (bufs s b))) = BSIZE \<Longrightarrow> fs_typed (upd_buf b g s)"
  by (simp add: fs_typed_def upd_buf_def)

lemma fs_typed_buf: "fs_typed s \<Longrightarrow> length (b_data (bufs s b)) = BSIZE"
  by (simp add: fs_typed_def)

lemma kgood_sleep: "(\<And>i. I (upd_proc i (\<lambda>p. p\<lparr>p_chan := Some c, p_state := SLEEPING\<rparr>) s)) \<Longrightarrow> kgood I (sleep c s)"
  by (simp add: sleep_def split: option.split)

lemma sleep_typed: "fs_typed s \<Longrightarrow> kgood fs_typed (sleep c s)"
  by (rule kgood_sleep) simp

lemma bget_typed [typed_intro]: "ksafe fs_typed (bget dev sector)"
  by (rule ksafeI)
    (simp add: bget_def Let_def sleep_typed fs_typed_upd_buf fs_typed_buf split: scan.split)

lemma iderw_typed [typed_intro]: "ksafe fs_typed (iderw b)"
  by (rule ksafeI) (simp add: iderw_def Let_def fs_typed_def upd_buf_def)

lemma bread_typed [typed_intro]: "ksafe fs_typed (bread dev sector)"
  unfolding bread_def by (intro ksafe_intro typed_intro)

lemma bwrite_typed [typed_intro]: "ksafe fs_typed (bwrite b)"
  by (rule ksafeI) (simp add: bwrite_def fs_typed_upd_buf fs_typed_buf ksafeD [OF iderw_typed])

lemma links_data: "b_data (set_next i v bs j) = b_data (bs j)" "b_data (set_prev i v bs j) = b_data (bs j)"
  by (simp_all add: set_next_def set_prev_def)

lemma brelse_links_data: "b_data (brelse_links b bs i) = b_data (bs i)"
  by (simp only: brelse_links_def Let_def links_data)

lemma brelse_typed [typed_intro]: "ksafe fs_typed (brelse b)"
  by (rule ksafeI) (simp add: brelse_def wakeup_eq, simp add: fs_typed_def upd_buf_def brelse_links_data)

lemma wakeup_typed [typed_intro]: "ksafe fs_typed (wakeup c)"
  unfolding wakeup_def by (rule ksafe_modify) simp

lemma set_dirty_typed [typed_intro]: "ksafe fs_typed (set_dirty b)"
  unfolding set_dirty_def by (rule ksafe_modify) (simp add: fs_typed_upd_buf fs_typed_buf)

lemma set_data_typed: "(\<And>x. length x = BSIZE \<Longrightarrow> length (g x) = BSIZE) \<Longrightarrow> ksafe fs_typed (set_data b g)"
  unfolding set_data_def by (rule ksafe_modify) (simp add: fs_typed_upd_buf fs_typed_buf)

lemma get_data_typed: "(\<And>x. length x = BSIZE \<Longrightarrow> ksafe fs_typed (g x)) \<Longrightarrow> ksafe fs_typed (kbind (get_data b) g)"
  unfolding get_data_def by (rule ksafe_get_bind) (simp add: fs_typed_buf ksafeD)

lemma get_data_plain [typed_intro]: "ksafe fs_typed (get_data b)"
  unfolding get_data_def by (rule ksafe_basic)

lemmas typed_data = get_data_typed set_data_typed

section \<open>The log\<close>

lemma readsb_typed [typed_intro]: "ksafe fs_typed (readsb dev)"
  unfolding readsb_def by (intro ksafe_intro typed_intro)

lemma blit0_typed: "length x = BSIZE \<Longrightarrow> length y = BSIZE \<Longrightarrow> length (blit 0 x y) = BSIZE"
  by (simp add: length_blit)

lemma install_one_typed: "tail < LOGSIZE \<Longrightarrow> ksafe fs_typed (install_one tail)"
  by (rule ksafeI, subst install_one_def, simp only: if_True, rule ksafeD)
    ((rule typed_data ksafe_intro typed_intro | assumption | simp add: blit0_typed)+)

lemma write_log_one_typed: "tail < LOGSIZE \<Longrightarrow> ksafe fs_typed (write_log_one tail)"
  by (rule ksafeI, subst write_log_one_def, simp only: if_True, rule ksafeD)
    ((rule typed_data ksafe_intro typed_intro | assumption | simp add: blit0_typed)+)

lemma length_head_fold:
  "4 + 4 * n \<le> length x \<Longrightarrow> length (fold (\<lambda>i x. put32 (4 + 4 * i) (secs ! i) x) [0..<n] x) = length x"
  by (induction n) (simp_all add: length_put)

lemma head_bytes_typed:
  assumes "n \<le> int LOGSIZE" "length x = BSIZE"
  shows "length (head_bytes n secs x) = BSIZE"
  using assms length_head_fold [of "nat n" "put32 0 (word_of_int n) x" secs]
  by (simp add: head_bytes_def length_put BSIZE_def LOGSIZE_def MAXOPBLOCKS_def)

lemma write_head_typed [typed_intro]: "ksafe fs_typed write_head"
  by (rule ksafeI, subst write_head_def, simp only: fs_typed_log if_True, rule ksafeD)
    ((rule typed_data ksafe_intro typed_intro | assumption | simp add: head_bytes_typed fs_typed_log)+)

text \<open>The loops over the header stay inside it.\<close>

lemma log_loop_typed:
  "(\<And>tail. tail < LOGSIZE \<Longrightarrow> ksafe fs_typed (body tail)) \<Longrightarrow> ksafe fs_typed (kbind (kget lh_n) (\<lambda>n. kfor body [0..<nat n]))"
  by (rule ksafe_get_bind, rule ksafe_for) (auto dest: fs_typed_log(2))

lemma install_trans_typed [typed_intro]: "ksafe fs_typed install_trans"
  unfolding install_trans_def by (intro log_loop_typed install_one_typed)

lemma write_log_typed [typed_intro]: "ksafe fs_typed write_log"
  unfolding write_log_def by (intro log_loop_typed write_log_one_typed)

lemma commit_typed [typed_intro]: "ksafe fs_typed commit"
  by (rule ksafeI, subst commit_def, rule kgood_if, rule ksafeD)
    (intro ksafe_intro typed_intro fs_typed_lh_n, assumption+, simp)

lemma begin_op_typed [typed_intro]: "ksafe fs_typed begin_op"
  by (rule ksafeI) (simp add: begin_op_def sleep_typed)

lemma end_op_typed [typed_intro]: "ksafe fs_typed end_op"
proof (rule ksafeI)
  fix s :: "'a istate_scheme" assume s: "fs_typed s"
  have "ksafe (fs_typed :: 'a istate_scheme \<Rightarrow> bool) (kseq (kmodify (log_committing_update (\<lambda>_. True)))
      (kseq commit (kseq (kmodify (log_committing_update (\<lambda>_. False))) (wakeup ChLog))))"
    by (intro ksafe_intro typed_intro) simp_all
  from ksafeD [OF this] s show "kgood fs_typed (end_op s)"
    by (simp add: end_op_def Let_def wakeup_eq)
qed

lemma log_write_typed [typed_intro]: "ksafe fs_typed (log_write b)"
proof (rule ksafeI)
  fix s :: "'a istate_scheme" assume s: "fs_typed s"
  show "kgood fs_typed (log_write b s)"
  proof (cases "lh_n s \<ge> int LOGSIZE \<or> lh_n s \<ge> log_size s - 1 \<or> log_outstanding s < 1")
    case True
    then show ?thesis by (auto simp: log_write_def)
  next
    case False
    let ?i = "log_index s (b_sector (bufs s b))"
    let ?t = "s\<lparr>lh_sector := (lh_sector s)[?i := b_sector (bufs s b)], lh_n := (if int ?i = lh_n s then lh_n s + 1 else lh_n s)\<rparr>"
    have "?i < LOGSIZE" using log_index_le [of s "b_sector (bufs s b)"] fs_typed_log(1) [OF s] False by linarith
    moreover have "fs_typed ?t" using s False by (simp add: fs_typed_def)
    ultimately show ?thesis using False
      by (simp add: log_write_def Let_def kseq_eq kmodify_eq ksafeD [OF set_dirty_typed])
  qed
qed

section \<open>Blocks and inodes\<close>

lemma bzero_typed [typed_intro]: "ksafe fs_typed (bzero dev b)"
  unfolding bzero_def by (rule typed_data ksafe_intro typed_intro | simp)+

lemma bmap_byte_typed:
  assumes "bi < unat BPB" "length x = BSIZE"
  shows "length (bmap_set bi x) = BSIZE" "length (bmap_clear bi x) = BSIZE"
proof -
  have "bi div 8 + 1 \<le> BSIZE" using assms(1) by (simp add: BPB_def BSIZE_def)
  then show "length (bmap_set bi x) = BSIZE" "length (bmap_clear bi x) = BSIZE"
    using assms(2) by (simp_all add: bmap_set_def bmap_clear_def length_blit)
qed

lemma mod_BPB: "unat (b mod BPB) < unat BPB"
proof -
  have "b mod BPB < BPB" by (rule word_mod_less_divisor) (simp add: BPB_def BSIZE_def)
  then show ?thesis by (simp only: word_less_nat_alt)
qed

lemma balloc_loop_typed [typed_intro]: "ksafe fs_typed (balloc_loop fuel dev sb b)"
proof (induction fuel arbitrary: b)
  case 0
  show ?case unfolding balloc_loop.simps by (intro ksafe_intro)
next
  case (Suc fuel)
  show ?case unfolding balloc_loop.simps
    by (rule Suc typed_data ksafe_intro typed_intro | simp add: bmap_byte_typed first_slot_Some)+
qed

lemma balloc_typed [typed_intro]: "ksafe fs_typed (balloc dev)"
  unfolding balloc_def by (intro ksafe_intro typed_intro)

lemma bfree_typed [typed_intro]: "ksafe fs_typed (bfree dev b)"
  unfolding bfree_def by (rule typed_data ksafe_intro typed_intro | simp add: bmap_byte_typed mod_BPB)+

lemma set_inode_typed:
  "(\<And>ip. length (i_addrs ip) = NDIRECT + 1 \<Longrightarrow> length (i_addrs (g ip)) = NDIRECT + 1) \<Longrightarrow> ksafe fs_typed (set_inode i g)"
  unfolding set_inode_def by (rule ksafe_modify) (simp add: fs_typed_def upd_inode_def)

lemma get_inode_typed [typed_intro]: "ksafe fs_typed (get_inode i)"
  unfolding get_inode_def by (rule ksafe_basic)

lemma get_addr_typed: "k < NDIRECT + 1 \<Longrightarrow> ksafe fs_typed (get_addr i k)"
  unfolding get_addr_def by (simp, intro ksafe_intro typed_intro)

lemma set_addr_typed: "k < NDIRECT + 1 \<Longrightarrow> ksafe fs_typed (set_addr i k a)"
  unfolding set_addr_def by (simp, rule set_inode_typed) simp

lemma iget_typed [typed_intro]: "ksafe fs_typed (iget dev inum)"
  by (rule ksafeI) (simp add: iget_def fs_typed_def upd_inode_def split: option.split)

lemma dinode_off_bound: "dinode_off inum \<le> 448"
proof -
  have "inum mod IPB < 8" by (simp add: IPB_def BSIZE_def word_mod_less_divisor)
  then have "unat (inum mod IPB) < 8" by (simp add: word_less_nat_alt)
  then show ?thesis by (simp add: dinode_off_def)
qed

lemma length_dinode_fold:
  "off + 12 + 4 * n \<le> length x \<Longrightarrow>
   length (fold (\<lambda>i x. put32 (off + 12 + 4 * i) (as ! i) x) [0..<n] x) = length x"
  by (induction n) (simp_all add: length_put)

lemma put_dinode_typed:
  assumes "length x = BSIZE" "off \<le> 448"
  shows "length (put_dinode off d x) = BSIZE"
  using assms unfolding put_dinode_def
  by (subst length_dinode_fold) (simp_all add: length_put BSIZE_def NDIRECT_def)

lemma ialloc_scan_typed [typed_intro]: "ksafe fs_typed (ialloc_scan dev ty is)"
proof (induction "is")
  case Nil
  show ?case unfolding ialloc_scan.simps by (intro ksafe_intro)
next
  case (Cons inum rest)
  have "length (put16 (dinode_off inum) ty (blit (dinode_off inum) (replicate 64 0) x)) = BSIZE" if "length x = BSIZE" for x
    using that dinode_off_bound [of inum] by (simp add: length_put length_blit BSIZE_def)
  then show ?case unfolding ialloc_scan.simps
    by - (rule Cons typed_data ksafe_intro typed_intro | simp)+
qed

lemma ialloc_typed [typed_intro]: "ksafe fs_typed (ialloc dev ty)"
  unfolding ialloc_def by (intro ksafe_intro typed_intro)

lemma iupdate_typed [typed_intro]: "ksafe fs_typed (iupdate i)"
  unfolding iupdate_def by (rule typed_data ksafe_intro typed_intro | simp add: put_dinode_typed dinode_off_bound)+

lemma load_inode_typed: "length (i_addrs (load_inode (get_dinode off x) ip)) = NDIRECT + 1"
  by (simp add: load_inode_def get_dinode_def)

lemma ilock_typed [typed_intro]: "ksafe fs_typed (ilock i)"
  by (rule ksafeI, subst ilock_def, rule kgood_if, simp, rule kgood_if, simp add: sleep_typed, rule ksafeD)
    (rule typed_data set_inode_typed ksafe_intro typed_intro | assumption | simp add: load_inode_typed)+

lemma iunlock_typed [typed_intro]: "ksafe fs_typed (iunlock i)"
  by (rule ksafeI, subst iunlock_def, rule kgood_if, simp, rule ksafeD)
    (rule typed_data set_inode_typed ksafe_intro typed_intro | assumption | simp)+

lemma itrunc_typed [typed_intro]: "ksafe fs_typed (itrunc i)"
  unfolding itrunc_def itrunc_direct_def
  by (rule typed_data set_inode_typed get_addr_typed set_addr_typed ksafe_intro typed_intro | simp)+

lemma iput_typed [typed_intro]: "ksafe fs_typed (iput i)"
  by (rule ksafeI, subst iput_def, rule ksafeD) (rule typed_data set_inode_typed ksafe_intro typed_intro | assumption | simp)+

section \<open>Contents and directories\<close>

lemma bmap_typed [typed_intro]: "ksafe fs_typed (bmap i bn)"
  unfolding bmap_def
  by (rule typed_data get_addr_typed set_addr_typed ksafe_intro typed_intro
      | simp add: length_put BSIZE_def NINDIRECT_def NDIRECT_def word_less_nat_alt)+

lemma readi_loop_typed [typed_intro]: "ksafe fs_typed (readi_loop i off n)"
  by (induction i off n rule: readi_loop.induct, subst readi_loop.simps) (rule typed_data ksafe_intro typed_intro | simp)+

lemma write_chunk_typed:
  assumes "length x = BSIZE"
  shows "length (blit (unat (off mod of_nat BSIZE)) (take (unat (chunk off n)) src) x) = BSIZE"
proof -
  have m: "off mod 512 < 512" by (simp add: word_mod_less_divisor)
  have "unat (chunk off n) \<le> unat (512 - off mod 512)"
    by (simp add: chunk_def BSIZE_def word_le_nat_alt [symmetric])
  also have "\<dots> = 512 - unat (off mod 512)" using m by (simp add: unat_sub order_less_imp_le)
  finally have "unat (off mod 512) + unat (chunk off n) \<le> 512" using m by (simp add: word_less_nat_alt)
  then show ?thesis using assms by (subst length_blit) (simp_all add: BSIZE_def)
qed

lemma writei_loop_typed [typed_intro]: "ksafe fs_typed (writei_loop i src off n)"
  by (induction i src off n rule: writei_loop.induct, subst writei_loop.simps)
    (rule typed_data ksafe_intro typed_intro | simp add: write_chunk_typed)+

lemma readi_data_typed [typed_intro]: "ksafe fs_typed (readi_data i off n)"
  unfolding readi_data_def by (intro ksafe_intro typed_intro)

lemma writei_data_typed [typed_intro]: "ksafe fs_typed (writei_data i src off)"
  unfolding writei_data_def by (rule typed_data set_inode_typed ksafe_intro typed_intro | simp)+

lemma dirlookup_loop_typed [typed_intro]: "ksafe fs_typed (dirlookup_loop fuel dp name off)"
proof (induction fuel arbitrary: off)
  case 0
  show ?case by (rule ksafeI) simp
next
  case (Suc fuel)
  show ?case unfolding dirlookup_loop.simps by (intro ksafe_intro typed_intro Suc)
qed

lemma dirlink_loop_typed [typed_intro]: "ksafe fs_typed (dirlink_loop fuel dp off)"
proof (induction fuel arbitrary: off)
  case 0
  show ?case by (rule ksafeI) simp
next
  case (Suc fuel)
  show ?case unfolding dirlink_loop.simps by (intro ksafe_intro typed_intro Suc)
qed

lemma dirlookup_typed [typed_intro]: "ksafe fs_typed (dirlookup dp name)"
  unfolding dirlookup_def by (intro ksafe_intro typed_intro)

lemma dirlink_typed [typed_intro]: "ksafe fs_typed (dirlink dp name inum)"
  unfolding dirlink_def by (intro ksafe_intro typed_intro)

lemma idup_typed [typed_intro]: "ksafe fs_typed (idup i)"
  unfolding idup_def by (rule typed_data set_inode_typed ksafe_intro typed_intro | simp)+

lemma namex_loop_typed [typed_intro]: "ksafe fs_typed (namex_loop parent ip path)"
proof (induction "length path" arbitrary: ip path rule: less_induct)
  case less
  show ?case unfolding iunlockput_def
    by (subst namex_loop.simps, unfold iunlockput_def) (intro ksafe_intro typed_intro less; simp add: skipelem_shorter)
qed

text \<open>\<open>proc->cwd\<close> is there when \<open>namex\<close> takes a reference to it.\<close>

lemma namex_typed [typed_intro]: "ksafe fs_typed (namex path parent)"
  unfolding namex_def by (intro ksafe_get_bind ksafe_intro typed_intro) (auto simp: fs_typed_def)

section \<open>The property\<close>

text \<open>
  C17. No access to an array of the file system is out of its bounds. If every buffer and disk block has \<open>BSIZE\<close> bytes,
  the log header \<open>LOGSIZE\<close> sector numbers of which at most \<open>LOGSIZE\<close> are in use, every inode \<open>NDIRECT + 1\<close> addresses and the current process a
  working directory, then \<open>bread\<close>, \<open>bwrite\<close>, \<open>brelse\<close>, the operations of the log, block and inode allocation, the inode operations, \<open>bmap\<close>,
  reading and writing contents, the directory operations and the path walk do not fault: the tests of \<open>log_write\<close> and \<open>bmap\<close>
  and the loops of \<open>commit\<close> and \<open>itrunc\<close> keep every index into the log header and into the addresses of an inode inside
  the array. And whenever they return or give up the processor the same bounds hold again: no store through \<open>put_dinode\<close>, the bitmap,
  the indirect block, the header block or a partial block passes the end of its block. (\<open>initlog\<close> takes the number of
  sectors from the disk and is not among them.)
\<close>

theorem fs_arrays_in_bounds:
  "ksafe fs_typed (bread dev n) \<and> ksafe fs_typed (bwrite b) \<and> ksafe fs_typed (brelse b) \<and>
   ksafe fs_typed begin_op \<and> ksafe fs_typed (log_write b) \<and> ksafe fs_typed end_op \<and>
   ksafe fs_typed (balloc dev) \<and> ksafe fs_typed (bfree dev n) \<and>
   ksafe fs_typed (iget dev inum) \<and> ksafe fs_typed (idup i) \<and> ksafe fs_typed (ialloc dev ty) \<and>
   ksafe fs_typed (iupdate i) \<and> ksafe fs_typed (ilock i) \<and> ksafe fs_typed (iunlock i) \<and> ksafe fs_typed (itrunc i) \<and>
   ksafe fs_typed (iput i) \<and> ksafe fs_typed (bmap i bn) \<and>
   ksafe fs_typed (readi_data i off n) \<and> ksafe fs_typed (writei_data i src off) \<and>
   ksafe fs_typed (dirlookup i name) \<and> ksafe fs_typed (dirlink i name inum) \<and> ksafe fs_typed (namex path parent)"
  by (intro conjI typed_intro)

text \<open>A log with one free entry left, and an operation that takes it.\<close>

theorem fs_arrays_in_bounds_witness:
  "\<forall>s :: istate. let t = s\<lparr>bufs := (\<lambda>_. (bufs s 0)\<lparr>b_data := replicate BSIZE 0\<rparr>), memdisk := (\<lambda>_. replicate BSIZE 0),
       lh_sector := replicate LOGSIZE 0, lh_n := int LOGSIZE - 1, log_size := 100, log_outstanding := 1,
       icache := (\<lambda>_. (icache s 0)\<lparr>i_addrs := replicate (NDIRECT + 1) 0\<rparr>),
       curproc := Some 0, ptable := (\<lambda>_. zero_proc\<lparr>p_cwd := Some 0\<rparr>)\<rparr> in
     fs_typed t \<and> kgood fs_typed (log_write 0 t) \<and> kgood fs_typed (bmap 0 11 t)"
proof
  fix s :: istate
  let ?t = "s\<lparr>bufs := (\<lambda>_. (bufs s 0)\<lparr>b_data := replicate BSIZE 0\<rparr>), memdisk := (\<lambda>_. replicate BSIZE 0),
       lh_sector := replicate LOGSIZE 0, lh_n := int LOGSIZE - 1, log_size := 100, log_outstanding := 1,
       icache := (\<lambda>_. (icache s 0)\<lparr>i_addrs := replicate (NDIRECT + 1) 0\<rparr>),
       curproc := Some 0, ptable := (\<lambda>_. zero_proc\<lparr>p_cwd := Some 0\<rparr>)\<rparr>"
  have t: "fs_typed ?t" by (simp add: fs_typed_def param_defs)
  have "ksafe fs_typed (log_write 0 :: (istate, unit) kop)" "ksafe fs_typed (bmap 0 11 :: (istate, uint) kop)"
    using fs_arrays_in_bounds by blast+
  from this [THEN ksafeD, OF t] t show "let t = ?t in fs_typed t \<and> kgood fs_typed (log_write 0 t) \<and> kgood fs_typed (bmap 0 11 t)"
    by (simp only: Let_def simp_thms)
qed

end
