(* ===== verification/Refs.thy ===== *)
theory Refs
  imports Sysfile Keeps
begin

text \<open>
  The reference counts of the file table (file.c, sysfile.c, proc.c): the count of a file is the number of descriptors, over all
  processes, that point to it. An operation may be ahead or behind by a reference it holds in a local variable; the
  specifications below count these, and the system calls end with none.
\<close>

section \<open>Specifications of operations\<close>

text \<open>From a state with \<open>P\<close>, a return with result \<open>r\<close> is in a state with \<open>Q r\<close>, a sleep in one with \<open>S\<close>.\<close>

definition kspec :: "('s \<Rightarrow> bool) \<Rightarrow> ('s, 'a) kop \<Rightarrow> ('a \<Rightarrow> 's \<Rightarrow> bool) \<Rightarrow> ('s \<Rightarrow> bool) \<Rightarrow> bool" where
  "kspec P f Q S \<longleftrightarrow> (\<forall>s. P s \<longrightarrow> (\<forall>r t. f s = Done r t \<longrightarrow> Q r t) \<and> (\<forall>c t. f s = Sleep c t \<longrightarrow> S t))"

lemma kspecI:
  "(\<And>s r t. P s \<Longrightarrow> f s = Done r t \<Longrightarrow> Q r t) \<Longrightarrow> (\<And>s c t. P s \<Longrightarrow> f s = Sleep c t \<Longrightarrow> S t) \<Longrightarrow> kspec P f Q S"
  by (simp add: kspec_def)

lemma kspec_left: "kspec P f (\<lambda>r. Q) Q \<Longrightarrow> P s \<Longrightarrow> kleft Q (f s)"
  by (cases "f s") (simp_all add: kspec_def)

lemma kspec_bind:
  assumes "kspec P f Q S" "\<And>r. kspec (Q r) (g r) R S"
  shows "kspec P (kbind f g) R S"
proof (rule kspecI)
  fix s x t assume s: "P s" and "kbind f g s = Done x t"
  then obtain r u where "f s = Done r u" "g r u = Done x t" by (auto simp: kbind_Done_iff)
  then show "R x t" using assms s unfolding kspec_def by blast
next
  fix s c t assume s: "P s" and k: "kbind f g s = Sleep c t"
  show "S t"
  proof (cases "f s")
    case (Done r u)
    then have "g r u = Sleep c t" "Q r u" using k s assms(1) by (simp_all add: kbind_eq kspec_def)
    then show ?thesis using assms(2) unfolding kspec_def by blast
  qed (use k s assms(1) in \<open>simp_all add: kbind_eq kspec_def\<close>)
qed

lemma kspec_seq: "kspec P f (\<lambda>_. Q) S \<Longrightarrow> kspec Q g R S \<Longrightarrow> kspec P (kseq f g) R S"
  unfolding kseq_def by (rule kspec_bind)

lemma kspec_basic:
  "kspec (Q x) (kret x) Q S" "kspec P (kpanic m) Q S" "kspec P kfault Q S"
  by (simp_all add: kspec_def kret_eq kpanic_eq kfault_eq)

lemma kspec_ret: "kspec P (kret x) (\<lambda>_. P) S"
  by (simp add: kspec_def kret_eq)

lemma kspec_weaken:
  "kspec P f Q S \<Longrightarrow> (\<And>s. P' s \<Longrightarrow> P s) \<Longrightarrow> (\<And>r s. Q r s \<Longrightarrow> Q' r s) \<Longrightarrow> (\<And>s. S s \<Longrightarrow> S' s) \<Longrightarrow> kspec P' f Q' S'"
  unfolding kspec_def by blast

lemma kspec_false: "(\<And>s. \<not> P s) \<Longrightarrow> kspec P f Q S"
  by (simp add: kspec_def)

lemma kspec_option:
  "(x = None \<Longrightarrow> kspec P f Q S) \<Longrightarrow> (\<And>y. x = Some y \<Longrightarrow> kspec P (g y) Q S) \<Longrightarrow> kspec P (case x of None \<Rightarrow> f | Some y \<Rightarrow> g y) Q S"
  by (simp split: option.split)

lemma kspec_if: "(c \<Longrightarrow> kspec P f Q S) \<Longrightarrow> (\<not> c \<Longrightarrow> kspec P g Q S) \<Longrightarrow> kspec P (if c then f else g) Q S"
  by simp

section \<open>What most operations leave alone\<close>

text \<open>The descriptors of every process, the current process, and the reference counts.\<close>

definition descr_view :: "'z fstate_scheme \<Rightarrow> (nat \<Rightarrow> nat \<Rightarrow> nat option) \<times> nat option \<times> (nat \<Rightarrow> int)" where
  "descr_view s = ((\<lambda>p. p_ofile (ptable s p)), curproc s, (\<lambda>f. f_ref (ftable s f)))"

definition above_inode :: "'z istate_scheme \<Rightarrow> procs_view \<times> 'z" where
  "above_inode s = (procs_view s, istate.more s)"

lemma descr_view_above:
  assumes "above_inode t = above_inode s"
  shows "descr_view t = descr_view s"
proof -
  have "p_ofile (pframe p) = p_ofile p" for p by (simp add: pframe_def)
  moreover have "(\<lambda>p. pframe (ptable t p)) = (\<lambda>p. pframe (ptable s p))" "curproc t = curproc s" "istate.more t = istate.more s"
    using assms by (simp_all add: above_inode_def procs_view_def)
  ultimately show ?thesis
    by (cases s, cases t) (simp add: descr_view_def fun_eq_iff, metis)
qed

named_theorems above_intro \<open>operations that keep what is above the inode cache\<close>

lemma above_inode_coarser: "inode_view t = inode_view s \<Longrightarrow> above_inode t = above_inode s"
  by (simp add: inode_view_def above_inode_def)

lemma inode_keeps_above: "kkeeps inode_view f \<Longrightarrow> kkeeps above_inode f"
  by (erule kkeeps_coarser) (rule above_inode_coarser)

lemmas lower_above = inode_intro [THEN inode_keeps_above, THEN kkeepsD]
  log_intro [THEN log_keeps_inodes, THEN inode_keeps_above, THEN kkeepsD]
  keeps_intro [THEN bio_keeps_log, THEN log_keeps_inodes, THEN inode_keeps_above, THEN kkeepsD]

lemma upd_inode_above [simp]: "above_inode (upd_inode i g s) = above_inode s"
  by (simp add: above_inode_def upd_inode_def procs_view_def)

lemma set_inode_above [above_intro]: "kkeeps above_inode (set_inode i g)"
  unfolding set_inode_def by (rule kkeepsI, rule kinv_modify) simp

lemma iget_above [above_intro]: "kkeeps above_inode (iget dev inum)"
  by (rule kkeepsI, rule kinvI) (simp add: iget_def split: option.split)

lemma idup_above [above_intro]: "kkeeps above_inode (idup i)"
  unfolding idup_def by (rule kkeepsI) (intro kinv_intro above_intro [THEN kkeepsD])

lemma iput_above [above_intro]: "kkeeps above_inode (iput i)"
  by (rule kkeepsI, rule kinvI, subst iput_def, rule kinvD)
    (intro kinv_intro lower_above above_intro [THEN kkeepsD], assumption)

lemma iunlockput_above [above_intro]: "kkeeps above_inode (iunlockput i)"
  unfolding iunlockput_def by (rule kkeepsI) (intro kinv_intro lower_above above_intro [THEN kkeepsD])

lemma ialloc_scan_above [above_intro]: "kkeeps above_inode (ialloc_scan dev ty is)"
proof (induction "is")
  case Nil
  show ?case unfolding ialloc_scan.simps by (rule kkeepsI) (intro kinv_intro)
next
  case (Cons inum rest)
  show ?case unfolding ialloc_scan.simps
    by (rule kkeepsI) (intro kinv_intro lower_above Cons [THEN kkeepsD] above_intro [THEN kkeepsD])
qed

lemma ialloc_above [above_intro]: "kkeeps above_inode (ialloc dev ty)"
  unfolding ialloc_def by (rule kkeepsI) (intro kinv_intro lower_above above_intro [THEN kkeepsD])

lemma dirlookup_above [above_intro]: "kkeeps above_inode (dirlookup dp name)"
  unfolding dirlookup_def by (rule kkeepsI) (intro kinv_intro lower_above above_intro [THEN kkeepsD])

lemma dirlink_above [above_intro]: "kkeeps above_inode (dirlink dp name inum)"
  unfolding dirlink_def by (rule kkeepsI) (intro kinv_intro lower_above above_intro [THEN kkeepsD])

lemma namex_loop_above [above_intro]: "kkeeps above_inode (namex_loop parent ip path)"
proof (induction "length path" arbitrary: ip path rule: less_induct)
  case less
  show ?case
    by (rule kkeepsI, subst namex_loop.simps)
      (intro kinv_intro lower_above above_intro [THEN kkeepsD] less [THEN kkeepsD]; simp add: skipelem_shorter)
qed

lemma namex_above [above_intro]: "kkeeps above_inode (namex path parent)"
  unfolding namex_def by (rule kkeepsI) (intro kinv_intro above_intro [THEN kkeepsD])

lemma names_above [above_intro]: "kkeeps above_inode (namei path)" "kkeeps above_inode (nameiparent path)"
  unfolding namei_def nameiparent_def
  by (rule kkeepsI, intro kinv_intro above_intro [THEN kkeepsD], rule above_intro)

lemma create_above [above_intro]: "kkeeps above_inode (create path ty major minor)"
  unfolding create_def create_new_def by (rule kkeepsI) (intro kinv_intro lower_above above_intro [THEN kkeepsD])

lemma open_inode_above [above_intro]: "kkeeps above_inode (open_inode path omode)"
  unfolding open_inode_def by (rule kkeepsI) (intro kinv_intro lower_above above_intro [THEN kkeepsD])

text \<open>Memory operations, and the argument functions, which change nothing.\<close>

lemma mem_keeps: "kkeeps mstate.more kalloc" "kkeeps mstate.more (kfree v)" "kkeeps mstate.more (ustore va c)"
  by (rule kkeepsI, rule kinvI, simp add: kalloc_def kfree_def ustore_def Let_def split: option.split)+

lemma ustore_bytes_keeps: "kkeeps mstate.more (ustore_bytes va cs)"
  by (rule kkeepsI, induction cs arbitrary: va) (simp_all add: kinv_intro mem_keeps [THEN kkeepsD])

lemma uload_same: "kinv I (uload va)"
  by (rule kinvI) (simp add: uload_def split: option.split)

lemma uload_bytes_same: "kinv I (uload_bytes va n)"
  by (induction n arbitrary: va) (simp_all add: kinv_intro uload_same)

lemma fetchstr_loop_same: "kinv I (fetchstr_loop a n)"
  by (induction a n rule: fetchstr_loop.induct) (simp_all add: kinv_intro uload_same)

lemma get_curproc_same: "kinv I get_curproc" "kinv J myproc" "kinv K (get_proc i)" "kinv L (get_file f)"
  by (rule kinvI, simp add: get_curproc_def myproc_def get_proc_def get_file_def kget_eq split: option.split)+

lemmas same = uload_bytes_same fetchstr_loop_same get_curproc_same

lemma argint_same: "kinv I (argint n)"
  unfolding argint_def fetchint_def by (intro kinv_intro same)

lemma argptr_same: "kinv I (argptr n sz)"
  unfolding argptr_def by (intro kinv_intro same argint_same)

lemma argstr_same: "kinv I (argstr n)"
  unfolding argstr_def fetchstr_def by (intro kinv_intro same argint_same)

lemma argfd_same: "kinv I (argfd n)"
  unfolding argfd_def by (intro kinv_intro same argint_same)

lemma descr_view_mem: "mstate.more t = mstate.more s \<Longrightarrow> descr_view t = descr_view s"
  by (cases s, cases t) (simp add: descr_view_def)

section \<open>Counting references\<close>

definition fd_refs :: "'z pstate_scheme \<Rightarrow> nat \<Rightarrow> (nat \<times> nat) set" where
  "fd_refs s f = {(p, fd). p < NPROC \<and> fd < NOFILE \<and> p_ofile (ptable s p) fd = Some f}"

text \<open>The counts are the numbers of descriptors and, for \<open>f\<close>, \<open>e f\<close> more.\<close>

definition refs_by :: "(nat \<Rightarrow> int) \<Rightarrow> 'z fstate_scheme \<Rightarrow> bool" where
  "refs_by e s \<longleftrightarrow> (\<forall>f < NFILE. f_ref (ftable s f) = int (card (fd_refs s f)) + e f)"

definition refs_exact :: "'z fstate_scheme \<Rightarrow> bool" where
  "refs_exact s \<longleftrightarrow> refs_by (\<lambda>_. 0) s"

text \<open>Every descriptor has its reference; an operation that sleeps may hold more.\<close>

definition refs_enough :: "'z fstate_scheme \<Rightarrow> bool" where
  "refs_enough s \<longleftrightarrow> (\<forall>f < NFILE. int (card (fd_refs s f)) \<le> f_ref (ftable s f))"

definition held_by :: "nat \<Rightarrow> (nat \<Rightarrow> int) \<Rightarrow> 'z fstate_scheme \<Rightarrow> bool" where
  "held_by i e s \<longleftrightarrow> refs_by e s \<and> curproc s = Some i \<and> i < NPROC"

definition off_by :: "nat \<Rightarrow> int \<Rightarrow> (nat \<Rightarrow> int) \<Rightarrow> nat \<Rightarrow> int" where
  "off_by f k e = e(f := e f + k)"

lemma off_by_twice [simp]: "off_by f k (off_by f l e) = off_by f (l + k) e" "off_by f 0 e = e"
  by (simp_all add: off_by_def add.assoc)

lemma off_by_commute: "f \<noteq> g \<Longrightarrow> off_by f k (off_by g l e) = off_by g l (off_by f k e)"
  by (simp add: off_by_def fun_upd_twist)

lemma fd_refs_finite [simp]: "finite (fd_refs s f)"
  by (rule finite_subset [of _ "{..<NPROC} \<times> {..<NOFILE}"]) (auto simp: fd_refs_def)

lemma refs_by_enough: "refs_by e s \<Longrightarrow> (\<And>f. 0 \<le> e f) \<Longrightarrow> refs_enough s"
  by (simp add: refs_by_def refs_enough_def)

lemma held_view:
  assumes "descr_view t = descr_view s" "held_by i e s"
  shows "held_by i e t"
proof -
  have v: "p_ofile (ptable t p) = p_ofile (ptable s p)" "curproc t = curproc s" "f_ref (ftable t f) = f_ref (ftable s f)" for p f
    using assms(1) by (simp_all add: descr_view_def fun_eq_iff)
  then have "fd_refs t f = fd_refs s f" for f by (simp add: fd_refs_def)
  then show ?thesis using assms(2) v by (simp add: held_by_def refs_by_def)
qed

lemma kspec_frame:
  assumes "kkeeps descr_view op" "\<And>f. 0 \<le> e f"
  shows "kspec (held_by i e) op (\<lambda>_. held_by i e) refs_enough"
proof -
  have k: "kinv (held_by i e) op" using assms(1) by (rule kinv_finer) (rule held_view)
  have r: "refs_enough t" if "held_by i e t" for t
    using that assms(2) by (intro refs_by_enough [of e]) (simp_all add: held_by_def)
  show ?thesis by (rule kspecI, erule (1) kinv_Done [OF k], rule r, erule (1) kinv_Sleep [OF k])
qed

text \<open>One descriptor more, one less.\<close>

lemma fd_refs_set:
  assumes "p_ofile (ptable s i) fd = None" "i < NPROC" "fd < NOFILE"
  shows "card (fd_refs (upd_proc i (\<lambda>p. p\<lparr>p_ofile := (p_ofile p)(fd := Some f)\<rparr>) s) g) =
    card (fd_refs s g) + (if g = f then 1 else 0)"
proof (cases "g = f")
  case True
  have "fd_refs (upd_proc i (\<lambda>p. p\<lparr>p_ofile := (p_ofile p)(fd := Some f)\<rparr>) s) f = insert (i, fd) (fd_refs s f)"
    using assms by (auto simp: fd_refs_def split: if_splits)
  moreover have "(i, fd) \<notin> fd_refs s f" using assms(1) by (simp add: fd_refs_def)
  ultimately show ?thesis using True by simp
next
  case False
  have "fd_refs (upd_proc i (\<lambda>p. p\<lparr>p_ofile := (p_ofile p)(fd := Some f)\<rparr>) s) g = fd_refs s g"
    using assms False by (auto simp: fd_refs_def split: if_splits)
  then show ?thesis using False by simp
qed

lemma fd_refs_clear:
  assumes "p_ofile (ptable s i) fd = Some f" "i < NPROC" "fd < NOFILE"
  shows "int (card (fd_refs (upd_proc i (\<lambda>p. p\<lparr>p_ofile := (p_ofile p)(fd := None)\<rparr>) s) g)) =
    int (card (fd_refs s g)) - (if g = f then 1 else 0)"
proof (cases "g = f")
  case True
  have "fd_refs (upd_proc i (\<lambda>p. p\<lparr>p_ofile := (p_ofile p)(fd := None)\<rparr>) s) f = fd_refs s f - {(i, fd)}"
    using assms by (auto simp: fd_refs_def split: if_splits)
  moreover have "(i, fd) \<in> fd_refs s f" using assms by (simp add: fd_refs_def)
  moreover from this have "0 < card (fd_refs s f)" by (auto simp: card_gt_0_iff)
  ultimately show ?thesis using True by (simp add: card_Diff_singleton of_nat_diff)
next
  case False
  have "fd_refs (upd_proc i (\<lambda>p. p\<lparr>p_ofile := (p_ofile p)(fd := None)\<rparr>) s) g = fd_refs s g"
    using assms False by (auto simp: fd_refs_def split: if_splits)
  then show ?thesis using False by simp
qed

lemma held_upd_proc:
  assumes "held_by i e s" "\<And>g. int (card (fd_refs (upd_proc j h s) g)) = int (card (fd_refs s g)) - (if g = f then k else 0)"
  shows "held_by i (off_by f k e) (upd_proc j h s)"
  using assms by (auto simp: held_by_def refs_by_def off_by_def) (simp_all add: upd_proc_def)

lemma held_ref:
  assumes "held_by i e s" "f_ref (g (ftable s f)) = f_ref (ftable s f) + k"
  shows "held_by i (off_by f k e) (s\<lparr>ftable := (ftable s)(f := g (ftable s f))\<rparr>)"
  using assms by (auto simp: held_by_def refs_by_def off_by_def fd_refs_def)

section \<open>The operations on descriptors and files\<close>

lemma filealloc_spec:
  "kspec (held_by i e) filealloc (\<lambda>r. case r of None \<Rightarrow> held_by i e | Some f \<Rightarrow> held_by i (off_by f 1 e)) S"
proof (rule kspecI)
  fix s r t assume h: "held_by i e s" and "filealloc s = Done r t"
  then show "(case r of None \<Rightarrow> held_by i e | Some f \<Rightarrow> held_by i (off_by f 1 e)) t"
    using held_ref [OF h, of "\<lambda>x. x\<lparr>f_ref := 1\<rparr>"] by (auto simp: filealloc_def first_slot_Some split: option.splits)
qed (auto simp: filealloc_def split: option.splits)

lemma filedup_spec: "kspec (held_by i e) (filedup f) (\<lambda>g s. g = f \<and> held_by i (off_by f 1 e) s) S"
proof (rule kspecI)
  fix s r t assume h: "held_by i e s" and "filedup f s = Done r t"
  then show "r = f \<and> held_by i (off_by f 1 e) t"
    using held_ref [OF h, of "\<lambda>x. x\<lparr>f_ref := f_ref x + 1\<rparr>"]
    by (auto simp: filedup_def get_file_def set_file_def kop_simps split: if_splits)
qed (auto simp: filedup_def get_file_def set_file_def kop_simps split: if_splits)

lemma fdalloc_spec:
  "kspec (held_by i e) (fdalloc f)
     (\<lambda>r. case r of None \<Rightarrow> held_by i e
        | Some fd \<Rightarrow> \<lambda>s. held_by i (off_by f (- 1) e) s \<and> fd < NOFILE \<and> p_ofile (ptable s i) fd = Some f) S"
proof (rule kspecI)
  fix s r t assume h: "held_by i e s" and d: "fdalloc f s = Done r t"
  have c: "curproc s = Some i" "i < NPROC" using h by (simp_all add: held_by_def)
  show "(case r of None \<Rightarrow> held_by i e
        | Some fd \<Rightarrow> \<lambda>s. held_by i (off_by f (- 1) e) s \<and> fd < NOFILE \<and> p_ofile (ptable s i) fd = Some f) t"
  proof (cases "first_slot NOFILE (\<lambda>fd. p_ofile (ptable s i) fd = None)")
    case None
    then show ?thesis using d h c by (auto simp: fdalloc_def myproc_def get_proc_def kop_simps)
  next
    case (Some fd)
    let ?g = "\<lambda>p. p\<lparr>p_ofile := (p_ofile p)(fd := Some f)\<rparr>"
    have "r = Some fd" "t = upd_proc i ?g s" using d Some c
      by (auto simp: fdalloc_def myproc_def get_proc_def set_proc_def kop_simps)
    moreover have "fd < NOFILE" "p_ofile (ptable s i) fd = None" using Some by (simp_all add: first_slot_Some)
    moreover from this have "held_by i (off_by f (- 1) e) (upd_proc i ?g s)"
      using c fd_refs_set [of s i fd f] by (intro held_upd_proc [OF h]) simp
    ultimately show ?thesis by simp
  qed
qed (auto simp: fdalloc_def myproc_def get_proc_def set_proc_def kop_simps held_by_def split: option.splits)

lemma clear_fd_spec:
  "kspec (\<lambda>s. held_by i e s \<and> fd < NOFILE \<and> p_ofile (ptable s i) fd = Some f) (clear_fd fd) (\<lambda>_. held_by i (off_by f 1 e)) S"
proof (rule kspecI)
  fix s r t assume h: "held_by i e s \<and> fd < NOFILE \<and> p_ofile (ptable s i) fd = Some f" and d: "clear_fd fd s = Done r t"
  let ?g = "\<lambda>p. p\<lparr>p_ofile := (p_ofile p)(fd := None)\<rparr>"
  have c: "curproc s = Some i" "i < NPROC" using h by (simp_all add: held_by_def)
  then have "t = upd_proc i ?g s" using d by (simp add: clear_fd_def myproc_def set_proc_def kop_simps)
  moreover have "held_by i (off_by f 1 e) (upd_proc i ?g s)"
    using h c fd_refs_clear [of s i fd f] by (intro held_upd_proc) simp_all
  ultimately show "held_by i (off_by f 1 e) t" by simp
qed (simp add: clear_fd_def myproc_def set_proc_def kop_simps held_by_def)

lemma above_keeps_descr: "kkeeps above_inode f \<Longrightarrow> kkeeps descr_view f"
  by (erule kkeeps_coarser) (rule descr_view_above)

lemma mem_keeps_descr: "kkeeps mstate.more f \<Longrightarrow> kkeeps descr_view f"
  by (erule kkeeps_coarser) (rule descr_view_mem)

lemmas descr_intro = above_intro [THEN above_keeps_descr, THEN kkeepsD] mem_keeps [THEN mem_keeps_descr, THEN kkeepsD]
  ustore_bytes_keeps [THEN mem_keeps_descr, THEN kkeepsD]
  inode_intro [THEN inode_keeps_above, THEN above_keeps_descr, THEN kkeepsD]
  log_intro [THEN log_keeps_inodes, THEN inode_keeps_above, THEN above_keeps_descr, THEN kkeepsD]
  argint_same argptr_same argstr_same argfd_same

lemma set_pipe_descr: "kinv (\<lambda>s. descr_view s = v) (set_pipe p g)" "kinv (\<lambda>s. descr_view s = v) (get_pipe p)"
  unfolding set_pipe_def get_pipe_def by (rule kinv_modify, simp add: descr_view_def, rule kinv_basic)

lemma set_file_descr: "(\<And>x. f_ref (g x) = f_ref x) \<Longrightarrow> kinv (\<lambda>s. descr_view s = v) (set_file f g)"
  unfolding set_file_def by (rule kinv_modify) (auto simp: descr_view_def fun_eq_iff)

lemma pipeclose_descr: "kkeeps descr_view (pipeclose p w)"
  unfolding pipeclose_def by (rule kkeepsI) (intro kinv_intro set_pipe_descr descr_intro)

text \<open>What \<open>fileclose\<close> does after the last reference is gone.\<close>

definition close_last :: "kfile \<Rightarrow> ('z fstate_scheme, unit) kop" where
  "close_last ff =
     (if f_type ff = FD_PIPE then pipeclose (f_pipe ff) (f_writable ff)
      else if f_type ff = FD_INODE then kseq begin_op (kseq (iput (f_ip ff)) end_op)
      else kret ())"

lemma close_last_descr: "kkeeps descr_view (close_last ff)"
  unfolding close_last_def by (rule kkeepsI) (intro kinv_intro descr_intro pipeclose_descr [THEN kkeepsD])

lemma fileclose_held:
  assumes S: "kspec (held_by i (off_by f (- 1) e)) (close_last (ftable s f)) (\<lambda>_. held_by i (off_by f (- 1) e)) S" and h: "held_by i e s"
  shows "(\<forall>r t. fileclose f s = Done r t \<longrightarrow> held_by i (off_by f (- 1) e) t) \<and> (\<forall>c t. fileclose f s = Sleep c t \<longrightarrow> S t)"
proof -
  define s1 where "s1 = s\<lparr>ftable := (ftable s)(f := (ftable s f)\<lparr>f_ref := f_ref (ftable s f) - 1\<rparr>)\<rparr>"
  define s2 where "s2 = s1\<lparr>ftable := (ftable s1)(f := (ftable s1 f)\<lparr>f_ref := 0, f_type := FD_NONE\<rparr>)\<rparr>"
  have h1: "held_by i (off_by f (- 1) e) s1"
    unfolding s1_def using held_ref [OF h, of "\<lambda>x. x\<lparr>f_ref := f_ref x - 1\<rparr>"] by simp
  have eq: "fileclose f s = (if f_ref (ftable s f) < 1 then Panic ''fileclose''
      else if f_ref (ftable s f) - 1 > 0 then Done () s1 else close_last (ftable s f) s2)"
    unfolding fileclose_def close_last_def get_file_def set_file_def s1_def s2_def by (simp add: kop_simps)
  show ?thesis
  proof (cases "f_ref (ftable s f) = 1")
    case True
    then have "f_ref (ftable s1 f) = 0" by (simp add: s1_def)
    then have "held_by i (off_by f 0 (off_by f (- 1) e)) s2"
      unfolding s2_def by (intro held_ref [OF h1, of "\<lambda>x. x\<lparr>f_ref := 0, f_type := FD_NONE\<rparr>"]) simp
    then have "held_by i (off_by f (- 1) e) s2" by simp
    with S show ?thesis using True unfolding eq kspec_def by auto
  next
    case False
    then show ?thesis using h1 unfolding eq by auto
  qed
qed

lemma fileclose_spec:
  assumes e: "\<And>g. 0 \<le> off_by f (- 1) e g"
  shows "kspec (held_by i e) (fileclose f) (\<lambda>_. held_by i (off_by f (- 1) e)) refs_enough"
  unfolding kspec_def using fileclose_held [OF kspec_frame [OF close_last_descr e]] by blast

text \<open>Whatever the counts were, a \<open>fileclose\<close> that returns has taken one reference.\<close>

lemma kspec_frame_any:
  assumes "kkeeps descr_view op"
  shows "kspec (held_by i e) op (\<lambda>_. held_by i e) (\<lambda>_. True)"
proof -
  have k: "kinv (held_by i e) op" using assms by (rule kinv_finer) (rule held_view)
  show ?thesis by (rule kspecI, erule (1) kinv_Done [OF k], rule TrueI)
qed

lemma fileclose_any: "kspec (held_by i e) (fileclose f) (\<lambda>_. held_by i (off_by f (- 1) e)) (\<lambda>_. True)"
  unfolding kspec_def using fileclose_held [OF kspec_frame_any [OF close_last_descr]] by blast

section \<open>The system calls\<close>

abbreviation none :: "nat \<Rightarrow> int" where "none \<equiv> \<lambda>_. 0"

lemma kspec_frame_bind:
  "kkeeps descr_view op \<Longrightarrow> (\<And>f. 0 \<le> e f) \<Longrightarrow> (\<And>x. kspec (held_by i e) (g x) Q refs_enough) \<Longrightarrow>
   kspec (held_by i e) (kbind op g) Q refs_enough"
  by (rule kspec_bind [OF kspec_frame])

lemma kspec_frame_seq:
  "kkeeps descr_view op \<Longrightarrow> (\<And>f. 0 \<le> e f) \<Longrightarrow> kspec (held_by i e) g Q refs_enough \<Longrightarrow>
   kspec (held_by i e) (kseq op g) Q refs_enough"
  by (rule kspec_seq [OF kspec_frame])

lemma argfd_spec:
  assumes "\<And>f. 0 \<le> e f"
  shows "kspec (held_by i e) (argfd n)
     (\<lambda>r s. held_by i e s \<and> (case r of None \<Rightarrow> True | Some (fd, f) \<Rightarrow> fd < NOFILE \<and> p_ofile (ptable s i) fd = Some f)) refs_enough"
proof (rule kspecI)
  fix s r t assume h: "held_by i e s" and d: "argfd n s = Done r t"
  then obtain x u where a: "argint n s = Done x u" and r: "(case x of None \<Rightarrow> kret None
      | Some fd \<Rightarrow> kbind get_curproc (\<lambda>p. if sint fd < 0 \<or> sint fd \<ge> int NOFILE then kret None
         else (case p_ofile p (nat (sint fd)) of None \<Rightarrow> kret None | Some f \<Rightarrow> kret (Some (nat (sint fd), f))))) u = Done r t"
    unfolding argfd_def kbind_Done_iff by blast
  have u: "held_by i e u" using kinv_Done [where I = "held_by i e", OF argint_same h a] .
  then have "curproc u = Some i" by (simp add: held_by_def)
  then show "held_by i e t \<and> (case r of None \<Rightarrow> True | Some (fd, f) \<Rightarrow> fd < NOFILE \<and> p_ofile (ptable t i) fd = Some f)"
    using r u by (auto simp: kop_simps get_curproc_def split: option.splits if_splits)
next
  fix s c t assume "held_by i e s" "argfd n s = Sleep c t"
  then have "held_by i e t" by (rule kinv_Sleep [where I = "held_by i e", OF argfd_same])
  then show "refs_enough t" using assms by (auto simp: held_by_def intro: refs_by_enough)
qed

lemma sys_close_spec: "kspec (held_by i none) sys_close (\<lambda>_. held_by i none) refs_enough"
  unfolding sys_close_def
proof (rule kspec_bind [OF argfd_spec])
  fix r show "kspec (\<lambda>s. held_by i none s \<and> (case r of None \<Rightarrow> True | Some (fd, f) \<Rightarrow> fd < NOFILE \<and> p_ofile (ptable s i) fd = Some f))
      (case r of None \<Rightarrow> kret (- 1) | Some (fd, f) \<Rightarrow> kseq (clear_fd fd) (kseq (fileclose f) (kret 0)))
      (\<lambda>_. held_by i none) refs_enough"
  proof (cases r)
    case None
    then show ?thesis by (auto intro: kspec_weaken [OF kspec_basic(1)])
  next
    case (Some x)
    obtain fd f where x: "x = (fd, f)" by (cases x)
    have "kspec (held_by i (off_by f 1 none)) (fileclose f) (\<lambda>_. held_by i (off_by f (- 1) (off_by f 1 none))) refs_enough"
      by (rule fileclose_spec) (simp add: off_by_def)
    then have "kspec (held_by i (off_by f 1 none)) (kseq (fileclose f) (kret 0)) (\<lambda>_. held_by i none) refs_enough"
      by (intro kspec_seq [OF _ kspec_basic(1)]) simp
    from kspec_seq [OF clear_fd_spec [of i none fd f] this] show ?thesis using Some x by simp
  qed
qed simp

lemma dup_tail:
  "kspec (held_by i (off_by f (- 1) none)) (kbind (filedup f) (\<lambda>_. kret v)) (\<lambda>_. held_by i none) S"
  by (rule kspec_bind [OF filedup_spec]) (rule kspec_weaken [OF kspec_ret], auto)

lemma dup_fd:
  "kspec (held_by i none) (kbind (fdalloc f) (\<lambda>r. case r of None \<Rightarrow> kret (- 1)
     | Some fd \<Rightarrow> kbind (filedup f) (\<lambda>_. kret (of_nat fd)))) (\<lambda>_. held_by i none) S"
proof (rule kspec_bind [OF fdalloc_spec])
  fix r :: "nat option"
  show "kspec (case r of None \<Rightarrow> held_by i none
      | Some fd \<Rightarrow> \<lambda>s. held_by i (off_by f (- 1) none) s \<and> fd < NOFILE \<and> p_ofile (ptable s i) fd = Some f)
      (case r of None \<Rightarrow> kret (- 1) | Some fd \<Rightarrow> kbind (filedup f) (\<lambda>_. kret (of_nat fd))) (\<lambda>_. held_by i none) S"
    by (cases r) (simp add: kspec_ret, simp, rule kspec_weaken [OF dup_tail], simp_all)
qed

lemma argfd_descr: "kkeeps descr_view (argfd n)"
  by (rule kkeepsI) (rule argfd_same)

lemma sys_dup_spec: "kspec (held_by i none) sys_dup (\<lambda>_. held_by i none) refs_enough"
  unfolding sys_dup_def
  by (rule kspec_frame_bind [OF argfd_descr], simp, rule kspec_option, rule kspec_ret)
    (simp split: prod.split, intro allI impI, rule dup_fd)

text \<open>The two ends of \<open>open_file\<close>.\<close>

definition open_ok :: "nat \<Rightarrow> cint \<Rightarrow> nat \<Rightarrow> nat \<Rightarrow> ('z fstate_scheme, cint) kop" where
  "open_ok ip omode f fd = kseq (iunlock ip) (kseq end_op (kseq (set_file f (\<lambda>x. x\<lparr>f_type := FD_INODE, f_ip := ip, f_off := 0,
      f_readable := (omode AND O_WRONLY = 0), f_writable := (omode AND O_WRONLY \<noteq> 0 \<or> omode AND O_RDWR \<noteq> 0)\<rparr>)) (kret (of_nat fd))))"

definition open_bad :: "nat \<Rightarrow> ('z fstate_scheme, cint) kop" where
  "open_bad ip = kseq (iunlockput ip) (kseq end_op (kret (- 1)))"

lemma open_ends:
  "kspec (held_by i none) (open_bad ip) (\<lambda>_. held_by i none) refs_enough"
  "kspec (held_by i none) (open_ok ip omode f fd) (\<lambda>_. held_by i none) refs_enough"
  unfolding open_bad_def open_ok_def
  by (rule kspec_frame, rule kkeepsI, intro kinv_intro descr_intro, simp,
      rule kspec_frame, rule kkeepsI, intro kinv_intro descr_intro set_file_descr, simp_all)

lemma open_close: "kspec (held_by i (off_by f 1 none)) (kseq (fileclose f) (open_bad ip)) (\<lambda>_. held_by i none) refs_enough"
  by (rule kspec_seq [OF fileclose_spec]) (simp add: off_by_def, simp add: open_ends)

lemma open_fd:
  "kspec (held_by i (off_by f 1 none)) (kbind (fdalloc f) (\<lambda>fd. case fd of
      Some fd \<Rightarrow> open_ok ip omode f fd | None \<Rightarrow> kseq (fileclose f) (open_bad ip))) (\<lambda>_. held_by i none) refs_enough"
proof (rule kspec_bind [OF fdalloc_spec])
  fix fd :: "nat option"
  show "kspec (case fd of None \<Rightarrow> held_by i (off_by f 1 none)
      | Some fd \<Rightarrow> \<lambda>s. held_by i (off_by f (- 1) (off_by f 1 none)) s \<and> fd < NOFILE \<and> p_ofile (ptable s i) fd = Some f)
      (case fd of Some fd \<Rightarrow> open_ok ip omode f fd | None \<Rightarrow> kseq (fileclose f) (open_bad ip)) (\<lambda>_. held_by i none) refs_enough"
    by (cases fd) (simp add: open_close, simp, rule kspec_weaken [OF open_ends(2)], simp_all)
qed

lemma open_file_cases:
  "open_file ip omode = kbind filealloc (\<lambda>f. case f of
     None \<Rightarrow> open_bad ip
   | Some f \<Rightarrow> kbind (fdalloc f) (\<lambda>fd. case fd of Some fd \<Rightarrow> open_ok ip omode f fd | None \<Rightarrow> kseq (fileclose f) (open_bad ip)))"
  unfolding open_file_def open_ok_def open_bad_def
  by (rule arg_cong [of _ _ "kbind filealloc"], rule ext, rename_tac f, case_tac f)
    (simp_all add: fun_eq_iff kop_simps split: option.split outcome.split)

lemma open_file_spec: "kspec (held_by i none) (open_file ip omode) (\<lambda>_. held_by i none) refs_enough"
  unfolding open_file_cases
  by (rule kspec_bind [OF filealloc_spec], rename_tac f, case_tac f) (simp_all add: open_ends open_fd)

lemma sys_open_spec: "kspec (held_by i none) sys_open (\<lambda>_. held_by i none) refs_enough"
  unfolding sys_open_def
  by (intro kspec_frame_bind kspec_frame_seq kspec_option kspec_ret open_file_spec kkeepsI; (intro descr_intro | simp))

text \<open>Pipes: two files, then two descriptors.\<close>

lemma off_by_swap: "off_by f k (off_by g l e) = off_by g l (off_by f k e)"
  by (cases "f = g") (auto simp: off_by_def fun_upd_twist)

lemma fileclose_back:
  "(\<And>g. 0 \<le> e g) \<Longrightarrow> kspec (held_by i (off_by a 1 e)) (fileclose a) (\<lambda>_. held_by i e) refs_enough"
  using fileclose_spec [of a "off_by a 1 e" i] by simp

lemma one_held: "0 \<le> off_by a 1 none g"
  by (simp add: off_by_def)

lemma pipealloc_bad_spec:
  "kspec (held_by i none) (pipealloc_bad None None) (\<lambda>_. held_by i none) refs_enough"
  "kspec (held_by i (off_by a 1 none)) (pipealloc_bad (Some a) None) (\<lambda>_. held_by i none) refs_enough"
  "kspec (held_by i (off_by b 1 (off_by a 1 none))) (pipealloc_bad (Some a) (Some b)) (\<lambda>_. held_by i none) refs_enough"
  unfolding pipealloc_bad_def option.case off_by_swap [of b 1 a 1]
  by (rule kspec_seq [OF kspec_ret], rule kspec_seq [OF kspec_ret], rule kspec_ret,
      rule kspec_seq [OF fileclose_back], simp, rule kspec_seq [OF kspec_ret], rule kspec_ret,
      rule kspec_seq [OF fileclose_back [OF one_held]], rule kspec_seq [OF fileclose_back], simp, rule kspec_ret)

lemma kspec_frame_le:
  "kkeeps descr_view op \<Longrightarrow> kspec (held_by i (off_by b 1 (off_by a 1 none))) op (\<lambda>_. held_by i (off_by b 1 (off_by a 1 none))) refs_enough"
  by (rule kspec_frame) (auto simp: off_by_def)

definition pipe_files :: "nat \<Rightarrow> nat \<Rightarrow> uint \<Rightarrow> ('z fstate_scheme, unit) kop" where
  "pipe_files a b p =
     kseq (set_pipe p (\<lambda>x. x\<lparr>pp_readopen := True, pp_writeopen := True, pp_nwrite := 0, pp_nread := 0\<rparr>))
     (kseq (set_file a (\<lambda>x. x\<lparr>f_type := FD_PIPE, f_readable := True, f_writable := False, f_pipe := p\<rparr>))
     (set_file b (\<lambda>x. x\<lparr>f_type := FD_PIPE, f_readable := False, f_writable := True, f_pipe := p\<rparr>)))"

lemma pipe_files_descr: "kkeeps descr_view (pipe_files a b p)"
  unfolding pipe_files_def by (rule kkeepsI) (intro kinv_intro set_pipe_descr set_file_descr; simp)

lemma pipealloc_cases:
  "pipealloc = kbind filealloc (\<lambda>f0. case f0 of None \<Rightarrow> pipealloc_bad None None
     | Some a \<Rightarrow> kbind filealloc (\<lambda>f1. case f1 of None \<Rightarrow> pipealloc_bad (Some a) None
        | Some b \<Rightarrow> kbind kalloc (\<lambda>p. if p = 0 then pipealloc_bad (Some a) (Some b)
            else kseq (pipe_files a b p) (kret (Some (a, b))))))"
  unfolding pipealloc_def pipe_files_def
  by (intro arg_cong2 [where f = kbind] refl ext option.case_cong if_cong) (simp_all add: kop_simps split: outcome.split)

definition pipe_held :: "nat \<Rightarrow> (nat \<times> nat) option \<Rightarrow> 'z fstate_scheme \<Rightarrow> bool" where
  "pipe_held i r = (case r of None \<Rightarrow> held_by i none | Some (a, b) \<Rightarrow> held_by i (off_by b 1 (off_by a 1 none)))"

lemma kalloc_descr: "kkeeps descr_view kalloc"
  by (rule mem_keeps_descr) (rule mem_keeps)

lemma pipealloc_bad_None: "kspec P (pipealloc_bad f0 f1) Q S \<Longrightarrow> kspec P (pipealloc_bad f0 f1) (\<lambda>r s. r = None \<and> Q r s) S"
proof -
  assume k: "kspec P (pipealloc_bad f0 f1) Q S"
  have "pipealloc_bad f0 f1 s = Done r t \<Longrightarrow> r = None" for s r t
    unfolding pipealloc_bad_def by (auto simp: kseq_Done_iff kret_eq)
  then show ?thesis using k unfolding kspec_def by blast
qed

lemma pipealloc_bad_held:
  "kspec P (pipealloc_bad f0 f1) (\<lambda>_. held_by i none) S \<Longrightarrow> kspec P (pipealloc_bad f0 f1) (pipe_held i) S"
  by (drule pipealloc_bad_None, erule kspec_weaken) (auto simp: pipe_held_def)

lemma pipealloc_spec: "kspec (held_by i none) pipealloc (pipe_held i) refs_enough"
  unfolding pipealloc_cases
proof (rule kspec_bind [OF filealloc_spec])
  fix f0 :: "nat option"
  show "kspec (case f0 of None \<Rightarrow> held_by i none | Some f \<Rightarrow> held_by i (off_by f 1 none))
      (case f0 of None \<Rightarrow> pipealloc_bad None None
       | Some a \<Rightarrow> kbind filealloc (\<lambda>f1. case f1 of None \<Rightarrow> pipealloc_bad (Some a) None
          | Some b \<Rightarrow> kbind kalloc (\<lambda>p. if p = 0 then pipealloc_bad (Some a) (Some b)
              else kseq (pipe_files a b p) (kret (Some (a, b))))))
      (pipe_held i) refs_enough"
  proof (cases f0)
    case None
    then show ?thesis by (simp add: pipealloc_bad_held pipealloc_bad_spec)
  next
    case (Some a)
    have "kspec (held_by i (off_by a 1 none)) (kbind filealloc (\<lambda>f1. case f1 of None \<Rightarrow> pipealloc_bad (Some a) None
          | Some b \<Rightarrow> kbind kalloc (\<lambda>p. if p = 0 then pipealloc_bad (Some a) (Some b)
              else kseq (pipe_files a b p) (kret (Some (a, b)))))) (pipe_held i) refs_enough"
    proof (rule kspec_bind [OF filealloc_spec])
      fix f1 :: "nat option"
      show "kspec (case f1 of None \<Rightarrow> held_by i (off_by a 1 none) | Some f \<Rightarrow> held_by i (off_by f 1 (off_by a 1 none)))
          (case f1 of None \<Rightarrow> pipealloc_bad (Some a) None
           | Some b \<Rightarrow> kbind kalloc (\<lambda>p. if p = 0 then pipealloc_bad (Some a) (Some b)
              else kseq (pipe_files a b p) (kret (Some (a, b))))) (pipe_held i) refs_enough"
      proof (cases f1)
        case None
        then show ?thesis by (simp add: pipealloc_bad_held pipealloc_bad_spec)
      next
        case (Some b)
        show ?thesis unfolding Some option.case
          by (rule kspec_bind [OF kspec_frame_le [OF kalloc_descr]], rule kspec_if,
              rule pipealloc_bad_held, rule pipealloc_bad_spec, rule kspec_seq [OF kspec_frame_le [OF pipe_files_descr]],
              rule kspec_weaken [OF kspec_basic(1) [of "pipe_held i" "Some (a, b)"]]) (simp_all add: pipe_held_def)
      qed
    qed
    then show ?thesis unfolding Some by simp
  qed
qed

lemma fdalloc_None: "fdalloc f s = Done None t \<Longrightarrow> t = s"
  by (auto simp: fdalloc_def myproc_def get_proc_def set_proc_def kop_simps split: option.splits)

lemma fdalloc_keep:
  "kspec (\<lambda>s. held_by i e s \<and> R s) (fdalloc f)
     (\<lambda>r s. case r of None \<Rightarrow> held_by i e s \<and> R s | Some fd \<Rightarrow> held_by i (off_by f (- 1) e) s) S"
  using fdalloc_spec [of i e f S] unfolding kspec_def by (auto split: option.splits dest: fdalloc_None)

text \<open>The end of \<open>sys_pipe\<close>, and the clean-up when there are not two descriptors.\<close>

definition pipe_ok_end :: "uint \<Rightarrow> nat \<Rightarrow> nat \<Rightarrow> ('z fstate_scheme, cint) kop" where
  "pipe_ok_end fd a b = kseq (ustore_bytes fd (u32_bytes (of_nat a))) (kseq (ustore_bytes (fd + 4) (u32_bytes (of_nat b))) (kret 0))"

definition pipe_bad_end :: "nat \<Rightarrow> nat \<Rightarrow> ('z fstate_scheme, cint) kop" where
  "pipe_bad_end rf wr = kseq (fileclose rf) (kseq (fileclose wr) (kret (- 1)))"

lemma pipe_ends:
  "kspec (held_by i none) (pipe_ok_end fd a b) (\<lambda>_. held_by i none) refs_enough"
  "kspec (held_by i (off_by wr 1 (off_by rf 1 none))) (pipe_bad_end rf wr) (\<lambda>_. held_by i none) refs_enough"
  unfolding pipe_ok_end_def pipe_bad_end_def off_by_swap [of wr 1 rf 1]
  by (rule kspec_frame, rule kkeepsI, intro kinv_intro descr_intro, simp,
      rule kspec_seq [OF fileclose_back [OF one_held]], rule kspec_seq [OF fileclose_back], simp, rule kspec_ret)

lemma kseq_kret: "kseq (kret x) f = f"
  by (simp add: fun_eq_iff kop_simps)

lemma kbind_kret: "kbind (kret x) f = f x"
  by (simp add: fun_eq_iff kop_simps)

lemma pipe_fd_cases:
  "(case fd0 of None \<Rightarrow> pipe_bad_end rf wr
     | Some a \<Rightarrow> kbind (fdalloc wr) (\<lambda>fd1. case fd1 of None \<Rightarrow> kseq (clear_fd a) (pipe_bad_end rf wr)
         | Some b \<Rightarrow> pipe_ok_end fd a b)) =
   kbind (case fd0 of None \<Rightarrow> kret None | Some _ \<Rightarrow> fdalloc wr) (\<lambda>fd1. case (fd0, fd1) of
       (Some a, Some b) \<Rightarrow> pipe_ok_end fd a b
     | _ \<Rightarrow> kseq (case fd0 of None \<Rightarrow> kret () | Some a \<Rightarrow> clear_fd a) (pipe_bad_end rf wr))"
  by (cases fd0) (simp_all add: kbind_kret kseq_kret cong: option.case_cong)

lemma sys_pipe_cases:
  "sys_pipe = kbind (argptr 0 8) (\<lambda>r. case r of None \<Rightarrow> kret (- 1) | Some fd \<Rightarrow>
     kbind pipealloc (\<lambda>r. case r of None \<Rightarrow> kret (- 1) | Some (rf, wr) \<Rightarrow>
     kbind (fdalloc rf) (\<lambda>fd0. case fd0 of None \<Rightarrow> pipe_bad_end rf wr
     | Some a \<Rightarrow> kbind (fdalloc wr) (\<lambda>fd1. case fd1 of None \<Rightarrow> kseq (clear_fd a) (pipe_bad_end rf wr)
         | Some b \<Rightarrow> pipe_ok_end fd a b))))"
  unfolding sys_pipe_def pipe_fd_cases unfolding pipe_ok_end_def pipe_bad_end_def by (rule refl)

lemma sys_pipe_fds:
  "kspec (held_by i (off_by wr 1 (off_by rf 1 none)))
     (kbind (fdalloc rf) (\<lambda>fd0. case fd0 of None \<Rightarrow> pipe_bad_end rf wr
      | Some a \<Rightarrow> kbind (fdalloc wr) (\<lambda>fd1. case fd1 of None \<Rightarrow> kseq (clear_fd a) (pipe_bad_end rf wr)
         | Some b \<Rightarrow> pipe_ok_end fd a b))) (\<lambda>_. held_by i none) refs_enough"
proof (rule kspec_bind [OF fdalloc_spec])
  fix fd0 :: "nat option"
  have e: "off_by rf (- 1) (off_by wr 1 (off_by rf 1 none)) = off_by wr 1 none"
    "off_by wr (- 1) (off_by wr 1 none) = none" "off_by rf 1 (off_by wr 1 none) = off_by wr 1 (off_by rf 1 none)"
    by (subst off_by_swap, simp, simp, rule off_by_swap)
  show "kspec (case fd0 of None \<Rightarrow> held_by i (off_by wr 1 (off_by rf 1 none))
      | Some fd \<Rightarrow> \<lambda>s. held_by i (off_by rf (- 1) (off_by wr 1 (off_by rf 1 none))) s \<and> fd < NOFILE \<and> p_ofile (ptable s i) fd = Some rf)
      (case fd0 of None \<Rightarrow> pipe_bad_end rf wr
       | Some a \<Rightarrow> kbind (fdalloc wr) (\<lambda>fd1. case fd1 of None \<Rightarrow> kseq (clear_fd a) (pipe_bad_end rf wr)
         | Some b \<Rightarrow> pipe_ok_end fd a b)) (\<lambda>_. held_by i none) refs_enough"
  proof (cases fd0)
    case None
    then show ?thesis by (simp add: pipe_ends)
  next
    case (Some a)
    show ?thesis unfolding Some option.case e(1)
    proof (rule kspec_bind [OF fdalloc_keep])
      fix fd1 :: "nat option"
      show "kspec (\<lambda>s. case fd1 of None \<Rightarrow> held_by i (off_by wr 1 none) s \<and> a < NOFILE \<and> p_ofile (ptable s i) a = Some rf
          | Some fd \<Rightarrow> held_by i (off_by wr (- 1) (off_by wr 1 none)) s)
          (case fd1 of None \<Rightarrow> kseq (clear_fd a) (pipe_bad_end rf wr) | Some b \<Rightarrow> pipe_ok_end fd a b) (\<lambda>_. held_by i none) refs_enough"
        using kspec_seq [OF clear_fd_spec [of i "off_by wr 1 none" a rf] pipe_ends(2) [of i wr rf, folded e(3)]] e(2)
        by (cases fd1) (simp_all add: pipe_ends)
    qed
  qed
qed

lemma argptr_descr: "kkeeps descr_view (argptr n sz)"
  by (rule kkeepsI) (rule argptr_same)

lemma sys_pipe_spec: "kspec (held_by i none) sys_pipe (\<lambda>_. held_by i none) refs_enough"
  unfolding sys_pipe_cases
  by (rule kspec_frame_bind [OF argptr_descr], simp, rule kspec_option, rule kspec_ret, rule kspec_bind [OF pipealloc_spec],
      rename_tac r, case_tac r) (simp_all add: pipe_held_def kspec_ret sys_pipe_fds split: prod.split)

section \<open>Fork and exit\<close>

definition ofiles :: "'z pstate_scheme \<Rightarrow> nat \<Rightarrow> nat \<Rightarrow> nat option" where
  "ofiles s p = p_ofile (ptable s p)"

lemma kspec_conj: "kspec P f Q S \<Longrightarrow> kspec P' f Q' S' \<Longrightarrow> kspec (\<lambda>s. P s \<and> P' s) f (\<lambda>r s. Q r s \<and> Q' r s) (\<lambda>_. True)"
  unfolding kspec_def by blast

lemma kspec_keeps: "kkeeps g f \<Longrightarrow> kspec (\<lambda>s. R (g s)) f (\<lambda>_ s. R (g s)) (\<lambda>_. True)"
  by (rule kspecI) (erule (1) kinv_Done [where I = "\<lambda>s. R (g s)", rotated], erule kinv_finer, simp_all)

lemma kspec_for:
  assumes "\<And>k. k < n \<Longrightarrow> kspec (I k) (body k) (\<lambda>_. I (Suc k)) S"
  shows "kspec (I 0) (kfor body [0..<n]) (\<lambda>_. I n) S"
  using assms
proof (induction n)
  case 0
  then show ?case by (simp add: kspec_ret)
next
  case (Suc n)
  have "kspec (I 0) (kseq (kfor body [0..<n]) (body n)) (\<lambda>_. I (Suc n)) S"
    by (rule kspec_seq [OF Suc.IH Suc.prems]) (use Suc.prems in simp_all)
  moreover have "kseq (body n) (kret ()) = body n" by (simp add: fun_eq_iff kseq_def kbind_def kret_def split: outcome.split)
  moreover have "kfor body [0..<Suc n] = kseq (kfor body [0..<n]) (kseq (body n) (kret ()))"
    by (simp add: fun_eq_iff kfor_append)
  ultimately show ?case by simp
qed

lemma ofiles_descr: "descr_view t = descr_view s \<Longrightarrow> ofiles t = ofiles s"
  by (simp add: descr_view_def ofiles_def fun_eq_iff)

lemma set_file_ofiles: "kkeeps ofiles (set_file f g)"
  unfolding set_file_def by (rule kkeepsI, rule kinv_modify) (simp add: ofiles_def fun_eq_iff)

lemma close_last_ofiles: "kkeeps ofiles (close_last ff)"
  by (rule kkeeps_coarser [OF close_last_descr]) (rule ofiles_descr)

lemma file_ofiles: "kkeeps ofiles (filedup f)" "kkeeps ofiles (fileclose f)"
  unfolding filedup_def fileclose_def
  by (rule kkeepsI, intro kinv_intro same set_file_ofiles [THEN kkeepsD],
      rule kkeepsI, fold close_last_def, intro kinv_intro same set_file_ofiles [THEN kkeepsD] close_last_ofiles [THEN kkeepsD])

text \<open>The loop of \<open>exit\<close>: \<open>fileclose\<close> gives up the reference before the descriptor is cleared.\<close>

definition exited :: "nat \<Rightarrow> nat \<Rightarrow> 'z fstate_scheme \<Rightarrow> bool" where
  "exited i k s \<longleftrightarrow> held_by i none s \<and> (\<forall>fd < k. ofiles s i fd = None)"

lemma held_clear:
  assumes "held_by i (off_by f (- 1) none) s" "ofiles s i fd = Some f" "fd < NOFILE"
  shows "held_by i none (upd_proc i (\<lambda>q. q\<lparr>p_ofile := (p_ofile q)(fd := None)\<rparr>) s)"
proof -
  have "held_by i (off_by f 1 (off_by f (- 1) none)) (upd_proc i (\<lambda>q. q\<lparr>p_ofile := (p_ofile q)(fd := None)\<rparr>) s)"
    using assms fd_refs_clear [of s i fd f] by (intro held_upd_proc) (simp_all add: ofiles_def held_by_def)
  then show ?thesis by simp
qed

lemma exit_ofile_spec:
  assumes "k < NOFILE"
  shows "kspec (exited i k) (exit_ofile i k) (\<lambda>_. exited i (Suc k)) (\<lambda>_. True)"
proof (rule kspecI)
  fix s r t assume s: "exited i k s" and d: "exit_ofile i k s = Done r t"
  show "exited i (Suc k) t"
  proof (cases "ofiles s i k")
    case None
    then show ?thesis using s d
      by (auto simp: exited_def exit_ofile_def get_proc_def kop_simps ofiles_def less_Suc_eq)
  next
    case (Some f)
    then obtain u where u: "fileclose f s = Done () u"
      and t: "t = upd_proc i (\<lambda>q. q\<lparr>p_ofile := (p_ofile q)(k := None)\<rparr>) u"
      using d by (auto simp: exit_ofile_def get_proc_def set_proc_def kop_simps ofiles_def kmodify_def split: outcome.splits)
    have h: "held_by i (off_by f (- 1) none) u" using fileclose_any s u unfolding kspec_def exited_def by blast
    have o: "ofiles u = ofiles s" by (rule kinv_Done [where I = "\<lambda>u. ofiles u = ofiles s", OF file_ofiles(2) [THEN kkeepsD] _ u]) simp
    show ?thesis using held_clear [OF h _ assms] Some s o unfolding t
      by (auto simp: exited_def ofiles_def less_Suc_eq upd_proc_def fun_eq_iff)
  qed
qed simp

text \<open>The loop of \<open>fork\<close>: the child gets the descriptors of its parent.\<close>

definition forked :: "nat \<Rightarrow> nat \<Rightarrow> nat \<Rightarrow> 'z fstate_scheme \<Rightarrow> bool" where
  "forked i np k s \<longleftrightarrow> held_by i none s \<and> np < NPROC \<and> np \<noteq> i \<and>
     (\<forall>fd. ofiles s np fd = (if fd < k then ofiles s i fd else None))"

lemma held_set:
  assumes "held_by i (off_by f 1 none) s" "ofiles s np fd = None" "fd < NOFILE" "np < NPROC"
  shows "held_by i none (upd_proc np (\<lambda>q. q\<lparr>p_ofile := (p_ofile q)(fd := Some f)\<rparr>) s)"
proof -
  have "held_by i (off_by f (- 1) (off_by f 1 none)) (upd_proc np (\<lambda>q. q\<lparr>p_ofile := (p_ofile q)(fd := Some f)\<rparr>) s)"
    using assms fd_refs_set [of s np fd f] by (intro held_upd_proc) (simp_all add: ofiles_def)
  then show ?thesis by simp
qed

lemma fork_ofile_spec:
  assumes "k < NOFILE"
  shows "kspec (forked i np k) (fork_ofile i np k) (\<lambda>_. forked i np (Suc k)) (\<lambda>_. True)"
proof (rule kspecI)
  fix s r t assume s: "forked i np k s" and d: "fork_ofile i np k s = Done r t"
  show "forked i np (Suc k) t"
  proof (cases "ofiles s i k")
    case None
    then show ?thesis using s d
      by (auto simp: forked_def fork_ofile_def get_proc_def kop_simps ofiles_def less_Suc_eq)
  next
    case (Some f)
    then obtain g u where u: "filedup f s = Done g u"
      and t: "t = upd_proc np (\<lambda>q. q\<lparr>p_ofile := (p_ofile q)(k := Some g)\<rparr>) u"
      using d by (auto simp: fork_ofile_def get_proc_def set_proc_def kop_simps ofiles_def kmodify_def split: outcome.splits)
    have h: "g = f" "held_by i (off_by f 1 none) u" using filedup_spec s u unfolding kspec_def forked_def by blast+
    have o: "ofiles u = ofiles s" by (rule kinv_Done [where I = "\<lambda>u. ofiles u = ofiles s", OF file_ofiles(1) [THEN kkeepsD] _ u]) simp
    show ?thesis using held_set [OF h(2) _ assms, of np] Some s o unfolding t h(1)
      by (auto simp: forked_def ofiles_def less_Suc_eq upd_proc_def fun_eq_iff)
  qed
qed simp

lemma fork_files: "kspec (forked i np 0) (kfor (fork_ofile i np) [0..<NOFILE]) (\<lambda>_. forked i np NOFILE) (\<lambda>_. True)"
  by (rule kspec_for) (rule fork_ofile_spec)

lemma exit_files: "kspec (exited i 0) (kfor (exit_ofile i) [0..<NOFILE]) (\<lambda>_. exited i NOFILE) (\<lambda>_. True)"
  by (rule kspec_for) (rule exit_ofile_spec)

text \<open>The virtual memory operations stay in memory.\<close>

named_theorems mem_intro \<open>operations that keep what is above the memory\<close>

lemmas mem_keeps [mem_intro]

lemma kmem_keeps [mem_intro]:
  "kkeeps mstate.more (kload a)" "kkeeps mstate.more (kstore a v)" "kkeeps mstate.more (kmemset a c n)"
  "kkeeps mstate.more (kmemmove a b n)"
  by (rule kkeepsI, rule kinvI, simp add: kload_def kstore_def kmemset_def kmemmove_def upd_mem_def kop_simps)+

lemma walkpgdir_keeps [mem_intro]: "kkeeps mstate.more (walkpgdir d va alloc)"
  unfolding walkpgdir_def by (rule kkeepsI) (intro kinv_intro mem_intro [THEN kkeepsD])

lemma mappages_loop_keeps [mem_intro]: "kkeeps mstate.more (mappages_loop n d a l pa perm)"
proof (induction n arbitrary: a pa)
  case 0
  show ?case unfolding mappages_loop.simps by (rule kkeepsI) (intro kinv_intro)
next
  case (Suc n)
  show ?case unfolding mappages_loop.simps by (rule kkeepsI) (intro kinv_intro mem_intro [THEN kkeepsD] Suc [THEN kkeepsD])
qed

lemma mappages_keeps [mem_intro]: "kkeeps mstate.more (mappages d a sz pa perm)"
  unfolding mappages_def by (rule kkeepsI) (intro kinv_intro mem_intro [THEN kkeepsD])

lemma setupkvm_loop_keeps [mem_intro]: "kkeeps mstate.more (setupkvm_loop d ks)"
proof (induction ks)
  case Nil
  show ?case unfolding setupkvm_loop.simps by (rule kkeepsI) (intro kinv_intro)
next
  case (Cons k ks)
  show ?case unfolding setupkvm_loop.simps by (rule kkeepsI) (intro kinv_intro mem_intro [THEN kkeepsD] Cons [THEN kkeepsD])
qed

lemma setupkvm_keeps [mem_intro]: "kkeeps mstate.more (setupkvm)"
  unfolding setupkvm_def by (rule kkeepsI) (intro kinv_intro mem_intro [THEN kkeepsD])

lemma deallocuvm_loop_keeps [mem_intro]: "kkeeps mstate.more (deallocuvm_loop n d a sz)"
proof (induction n arbitrary: a)
  case 0
  show ?case unfolding deallocuvm_loop.simps by (rule kkeepsI) (intro kinv_intro)
next
  case (Suc n)
  show ?case unfolding deallocuvm_loop.simps by (rule kkeepsI) (intro kinv_intro mem_intro [THEN kkeepsD] Suc [THEN kkeepsD])
qed

lemma deallocuvm_keeps [mem_intro]: "kkeeps mstate.more (deallocuvm d a b)"
  unfolding deallocuvm_def by (rule kkeepsI) (intro kinv_intro mem_intro [THEN kkeepsD])

lemma freevm_one_keeps [mem_intro]: "kkeeps mstate.more (freevm_one d i)"
  unfolding freevm_one_def by (rule kkeepsI) (intro kinv_intro mem_intro [THEN kkeepsD])

lemma freevm_keeps [mem_intro]: "kkeeps mstate.more (freevm d)"
  unfolding freevm_def by (rule kkeepsI) (intro kinv_intro mem_intro [THEN kkeepsD])

lemma copyuvm_loop_keeps [mem_intro]: "kkeeps mstate.more (copyuvm_loop n d pgdir i sz)"
proof (induction n arbitrary: i)
  case 0
  show ?case unfolding copyuvm_loop.simps by (rule kkeepsI) (intro kinv_intro)
next
  case (Suc n)
  show ?case unfolding copyuvm_loop.simps by (rule kkeepsI) (intro kinv_intro mem_intro [THEN kkeepsD] Suc [THEN kkeepsD])
qed

lemma copyuvm_keeps [mem_intro]: "kkeeps mstate.more (copyuvm pgdir sz)"
  unfolding copyuvm_def by (rule kkeepsI) (intro kinv_intro mem_intro [THEN kkeepsD])

text \<open>All of \<open>fork\<close>, when the free entries of the process table have no descriptors.\<close>

definition free_closed :: "'z pstate_scheme \<Rightarrow> bool" where
  "free_closed s \<longleftrightarrow> (\<forall>p < NPROC. p_state (ptable s p) = UNUSED \<longrightarrow> (\<forall>fd. p_ofile (ptable s p) fd = None))"

lemma descr_ofiles: "descr_view s = (\<lambda>p. ofiles s p, curproc s, \<lambda>f. f_ref (ftable s f))"
  by (simp add: descr_view_def ofiles_def fun_eq_iff)

lemma set_proc_descr: "(\<And>p. p_ofile (g p) = p_ofile p) \<Longrightarrow> kkeeps descr_view (set_proc i g)"
  unfolding set_proc_def by (rule kkeepsI, rule kinv_modify) (auto simp: descr_view_def upd_proc_def fun_eq_iff)

lemma forked_view: "descr_view t = descr_view s \<Longrightarrow> forked i np k s \<Longrightarrow> forked i np k t"
  using held_view [of t s] ofiles_descr [of t s] by (auto simp: forked_def)

lemma forked_keep: "kkeeps descr_view op \<Longrightarrow> kspec (forked i np k) op (\<lambda>_. forked i np k) (\<lambda>_. True)"
  by (rule kspecI, erule kinv_Done [where I = "forked i np k", rotated], assumption, erule kinv_finer, erule (1) forked_view, rule TrueI)

lemma nextpid_descr: "kkeeps descr_view (kmodify (\<lambda>s. s\<lparr>nextpid := nextpid s + 1\<rparr>))"
  by (rule kkeepsI, rule kinv_modify) (simp add: descr_view_def)

lemmas fork_bind = kspec_bind [OF forked_keep [OF mem_keeps_descr [OF mem_keeps(1)]]]
  kspec_bind [OF forked_keep [OF mem_keeps_descr [OF copyuvm_keeps]]] kspec_bind [OF forked_keep [OF above_keeps_descr [OF idup_above]]]

lemmas fork_seq = kspec_seq [OF forked_keep [OF set_proc_descr]] kspec_seq [OF forked_keep [OF nextpid_descr]]
  kspec_seq [OF forked_keep [OF mem_keeps_descr [OF mem_keeps(2)]]]

lemma allocproc_spec:
  "kspec (\<lambda>s. held_by i none s \<and> free_closed s \<and> p_state (ptable s i) \<noteq> UNUSED) allocproc
     (\<lambda>r. case r of None \<Rightarrow> held_by i none | Some np \<Rightarrow> forked i np 0) (\<lambda>_. True)"
proof (rule kspecI)
  let ?Q = "\<lambda>r. case r of None \<Rightarrow> held_by i none | Some np \<Rightarrow> forked i np 0"
  fix s r t assume s: "held_by i none s \<and> free_closed s \<and> p_state (ptable s i) \<noteq> UNUSED" and d: "allocproc s = Done r t"
  show "?Q r t"
  proof (cases "first_slot NPROC (\<lambda>i. p_state (ptable s i) = UNUSED)")
    case None
    then show ?thesis using s d by (simp add: allocproc_def)
  next
    case (Some np)
    let ?rest = "kseq (set_proc np (\<lambda>p. p\<lparr>p_state := EMBRYO, p_pid := nextpid s\<rparr>))
          (kseq (kmodify (\<lambda>s. s\<lparr>nextpid := nextpid s + 1\<rparr>))
          (kbind kalloc (\<lambda>k.
           kseq (set_proc np (\<lambda>p. p\<lparr>p_kstack := k\<rparr>))
           (if k = 0 then kseq (set_proc np (\<lambda>p. p\<lparr>p_state := UNUSED\<rparr>)) (kret None)
            else kseq (set_proc np (\<lambda>p. p\<lparr>p_traceFlag := False\<rparr>)) (kret (Some np))))))"
    have "forked i np 0 s" using s Some by (auto simp: forked_def free_closed_def first_slot_Some ofiles_def)
    moreover have "kspec (forked i np 0) ?rest ?Q (\<lambda>_. True)"
      by (intro fork_seq fork_bind kspec_if)
        (auto simp: kspec_def kret_eq forked_def)
    moreover have "?rest s = Done r t" using d Some by (simp add: allocproc_def)
    ultimately show ?thesis unfolding kspec_def by blast
  qed
qed simp

lemma myproc_forked: "kspec (forked i np k) myproc (\<lambda>j s. j = i \<and> forked i np k s) S"
  by (auto simp: kspec_def myproc_def kop_simps forked_def held_by_def)

lemma get_proc_forked: "kspec (forked i np k) (get_proc j) (\<lambda>_. forked i np k) S"
  by (auto simp: kspec_def get_proc_def kop_simps)

lemma kspec_pure: "(b \<Longrightarrow> kspec P f Q S) \<Longrightarrow> kspec (\<lambda>s. b \<and> P s) f Q S"
  by (auto simp: kspec_def)

lemma fork_spec:
  "kspec (\<lambda>s. held_by i none s \<and> free_closed s \<and> p_state (ptable s i) \<noteq> UNUSED) fork (\<lambda>_. held_by i none) (\<lambda>_. True)"
proof -
  have out: "kspec (forked i np k) (kret x) (\<lambda>_. held_by i none) (\<lambda>_. True)" for np k x
    by (auto simp: kspec_def kret_eq forked_def)
  show ?thesis unfolding fork_def
    apply (rule kspec_bind [OF allocproc_spec])
    subgoal for r
      apply (cases r; simp)
       apply (rule kspec_ret)
      apply (rule kspec_bind [OF myproc_forked])
      apply (rule kspec_pure, hypsubst)
      by (intro kspec_bind [OF get_proc_forked] fork_seq fork_bind kspec_if kspec_seq [OF fork_files] kspec_option kspec_basic out) simp_all
    done
qed

section \<open>The counts are exact\<close>

text \<open>Exact when the operation returns; when it sleeps, no descriptor is without its reference.\<close>

fun counted :: "('a, 'z fstate_scheme) outcome \<Rightarrow> bool" where
  "counted (Done r t) = refs_exact t"
| "counted (Sleep c t) = refs_enough t"
| "counted (Panic m) = True"
| "counted Diverge = True"
| "counted Fault = True"

lemma held_none: "held_by i none s \<longleftrightarrow> refs_exact s \<and> curproc s = Some i \<and> i < NPROC"
  by (simp add: held_by_def refs_exact_def)

lemma counted_spec:
  assumes "kspec (held_by i none) f (\<lambda>_. held_by i none) refs_enough" "held_by i none s"
  shows "counted (f s)"
proof (cases "f s")
  case (Done r t)
  then have "held_by i none t" using assms unfolding kspec_def by blast
  then show ?thesis by (simp add: Done held_none)
next
  case (Sleep c t)
  then have "refs_enough t" using assms unfolding kspec_def by blast
  then show ?thesis by (simp add: Sleep)
qed simp_all

lemma open_file_referenced:
  assumes "refs_exact s" "i < NPROC" "fd < NOFILE" "p_ofile (ptable s i) fd = Some f" "f < NFILE"
  shows "0 < f_ref (ftable s f)"
proof -
  have "(i, fd) \<in> fd_refs s f" using assms(2-4) by (simp add: fd_refs_def)
  then have "0 < card (fd_refs s f)" by (auto simp: card_gt_0_iff)
  then show ?thesis using assms(1,5) by (simp add: refs_exact_def refs_by_def)
qed

text \<open>A state in which the running process has one file open.\<close>

definition one_open :: "'z cstate_scheme \<Rightarrow> 'z cstate_scheme" where
  "one_open s = s\<lparr>curproc := Some 0,
     ptable := (\<lambda>_. zero_proc)(0 := zero_proc\<lparr>p_state := RUNNING, p_ofile := (\<lambda>_. None)(3 := Some 5)\<rparr>),
     ftable := (\<lambda>_. zero_file)(5 := zero_file\<lparr>f_type := FD_INODE, f_ref := 1\<rparr>)\<rparr>"

lemma one_open_refs: "fd_refs (one_open s) f = (if f = 5 then {(0, 3)} else {})"
  by (auto simp: fd_refs_def one_open_def zero_proc_def NPROC_def NOFILE_def split: if_splits)

lemma one_open_ok:
  "refs_exact (one_open s)" "curproc (one_open s) = Some 0" "0 < NPROC" "free_closed (one_open s)"
  "p_state (ptable (one_open s) 0) \<noteq> UNUSED"
  by (simp_all add: refs_exact_def refs_by_def one_open_refs)
    (simp_all add: one_open_def free_closed_def zero_proc_def zero_file_def NPROC_def)

text \<open>
  C13. The reference count of an open file is the number of descriptors of all processes that name it. In a state where that
  holds, every file of a descriptor has a reference, so that the guard of \<open>filedup\<close> does not fail; it holds again when
  \<open>dup\<close>, \<open>close\<close>, \<open>open\<close> or \<open>pipe\<close> return on any path, errors included, and if one of them gives up the processor half
  way, no descriptor is without its reference. It holds when \<open>fork\<close> returns, if free process table entries have no
  descriptors, and when the loop of \<open>exit\<close> over the open files is done, after which the process has no descriptor.
\<close>

theorem file_refs_exact:
  assumes "refs_exact s" "curproc s = Some i" "i < NPROC" "free_closed s" "p_state (ptable s i) \<noteq> UNUSED"
  shows "(\<forall>fd < NOFILE. \<forall>f < NFILE. p_ofile (ptable s i) fd = Some f \<longrightarrow> (\<exists>t. filedup f s = Done f t)) \<and>
    counted (sys_dup s) \<and> counted (sys_close s) \<and> counted (sys_open s) \<and> counted (sys_pipe s) \<and>
    (\<forall>r t. fork s = Done r t \<longrightarrow> refs_exact t) \<and>
    (\<forall>r t. kfor (exit_ofile i) [0..<NOFILE] s = Done r t \<longrightarrow>
       refs_exact t \<and> (\<forall>fd < NOFILE. p_ofile (ptable t i) fd = None))"
proof -
  have h: "held_by i none s" using assms by (simp add: held_none)
  have e: "exited i 0 s" using h by (simp add: exited_def)
  have d: "\<exists>t. filedup f s = Done f t" if "fd < NOFILE" "f < NFILE" "p_ofile (ptable s i) fd = Some f" for fd f
    using open_file_referenced [OF assms(1,3) that(1,3,2)] by (simp add: filedup_def get_file_def set_file_def kop_simps)
  have "refs_exact t" if "fork s = Done r t" for r t
    using fork_spec [of i] h assms that unfolding kspec_def held_none by blast
  moreover have "refs_exact t \<and> (\<forall>fd < NOFILE. p_ofile (ptable t i) fd = None)" if "kfor (exit_ofile i) [0..<NOFILE] s = Done r t" for r t
    using exit_files [of i] e that unfolding kspec_def exited_def held_none ofiles_def by blast
  ultimately show ?thesis
    using d counted_spec [OF sys_dup_spec h] counted_spec [OF sys_close_spec h] counted_spec [OF sys_open_spec h]
      counted_spec [OF sys_pipe_spec h] by blast
qed

theorem file_refs_exact_witness:
  "\<forall>s :: cstate. refs_exact (one_open s) \<and> (\<exists>t. filedup 5 (one_open s) = Done 5 t) \<and>
     counted (sys_dup (one_open s)) \<and> counted (sys_close (one_open s))"
proof
  fix s :: cstate
  have "p_ofile (ptable (one_open s) 0) 3 = Some 5" "3 < NOFILE" "5 < NFILE"
    by (simp_all add: one_open_def NOFILE_def NFILE_def)
  then show "refs_exact (one_open s) \<and> (\<exists>t. filedup 5 (one_open s) = Done 5 t) \<and>
     counted (sys_dup (one_open s)) \<and> counted (sys_close (one_open s))"
    using file_refs_exact [OF one_open_ok] one_open_ok(1) by blast
qed

end
