(* ===== verification/Paging.thy ===== *)
theory Paging
  imports Syscall "HOL-Library.Sublist"
begin

text \<open>
  Page tables (vm.c) as what they mean: \<open>pte_of\<close> is the entry the processor finds for an address. The page
  directory and its tables are pages of their own (\<open>pgdir_ok\<close>), so that \<open>walkpgdir\<close> changes no entry, and
  \<open>mappages\<close>, \<open>setupkvm\<close>, \<open>allocuvm\<close> and \<open>copyuvm\<close> change the entries of the range they are asked for and no others.
\<close>

section \<open>Entries\<close>

definition pde_of :: "memory \<Rightarrow> uint \<Rightarrow> uint \<Rightarrow> uint" where
  "pde_of m d va = ld32 m (d + 4 * PDX va)"

definition has_table :: "memory \<Rightarrow> uint \<Rightarrow> uint \<Rightarrow> bool" where
  "has_table m d va \<longleftrightarrow> pde_of m d va AND PTE_P \<noteq> 0"

definition table :: "memory \<Rightarrow> uint \<Rightarrow> uint \<Rightarrow> uint" where
  "table m d va = p2v (PTE_ADDR (pde_of m d va))"

definition pte_of :: "memory \<Rightarrow> uint \<Rightarrow> uint \<Rightarrow> uint" where
  "pte_of m d va = (if has_table m d va then ld32 m (table m d va + 4 * PTX va) else 0)"

text \<open>The processor translates an address by its entry.\<close>

lemma translate_pte:
  "translate m d w va = (let e = pte_of m d va in
     if e AND PTE_P = 0 \<or> (w \<and> e AND PTE_W = 0) then None else Some (p2v (PTE_ADDR e) + (va AND 0xFFF)))"
  by (simp add: translate_def pte_of_def has_table_def table_def pde_of_def Let_def)

section \<open>Words of pages\<close>

lemma index_less: "PDX va < 1024" "PTX va < 1024"
proof -
  have "x AND 0x3FF < 1024" for x :: uint
    using and_mask_less' [of 10 x] by (simp add: mask_eq_exp_minus_1)
  then show "PDX va < 1024" "PTX va < 1024" by (simp_all add: PDX_def PTX_def)
qed

lemma unat_index: "(i :: uint) < 1024 \<Longrightarrow> unat (4 * i) = 4 * unat i"
  by (subst unat_mult_lem [THEN iffD1]) (simp_all add: word_less_nat_alt)

lemma slot_byte: "p + 4 * i + of_nat k = p + of_nat (4 * unat i + k)" for i :: uint
  by simp

lemma slot_in_page:
  assumes "pg_aligned p" "i < 1024" "k < 4"
  shows "in_page p (p + 4 * i + of_nat k)"
proof -
  have "4 * unat i + k < 4096" using assms(2,3) by (simp add: word_less_nat_alt)
  then show ?thesis unfolding slot_byte by (rule in_page_self)
qed

lemma ld32_page_cong:
  assumes "\<And>b. in_page p b \<Longrightarrow> m' b = m b" "pg_aligned p" "i < 1024"
  shows "ld32 m' (p + 4 * i) = ld32 m (p + 4 * i)"
  using assms slot_in_page [OF assms(2,3)] by (intro ld32_cong) simp

lemma ld32_zero_page:
  assumes "\<And>b. in_page p b \<Longrightarrow> m b = 0" "pg_aligned p" "i < 1024"
  shows "ld32 m (p + 4 * i) = 0"
proof -
  have "ld32 m (p + 4 * i) = ld32 (\<lambda>_. 0) (p + 4 * i)" using assms by (intro ld32_page_cong) simp_all
  also have "\<dots> = 0" by (simp add: ld32_def bytes_u32_def)
  finally show ?thesis .
qed

lemma slots_apart:
  assumes "i < 1024" "j < 1024" "i \<noteq> (j :: uint)" "k < 4"
  shows "\<not> unat (p + 4 * j + of_nat k - (p + 4 * i)) < 4"
proof -
  have ne: "unat i \<noteq> unat j" using assms(3) by (simp add: word_unat_eq_iff)
  have b: "unat i < 1024" "unat j < 1024" using assms(1,2) by (simp_all add: word_less_nat_alt)
  have e: "p + 4 * j + of_nat k - (p + 4 * i) = of_nat (4 * unat j + k) - of_nat (4 * unat i)" by simp
  have "unat (of_nat (4 * unat j + k) :: uint) = 4 * unat j + k" "unat (of_nat (4 * unat i) :: uint) = 4 * unat i"
    by (rule unat_of_nat_uint, use b assms(4) in simp)+
  then show ?thesis unfolding e unat_sub_uint using ne b assms(4) by auto
qed

lemma page_offset: "in_page a b \<Longrightarrow> b = a + of_nat (unat (b - a)) \<and> unat (b - a) < 4096"
  by (simp add: in_page_def PGSIZE_def word_less_nat_alt)

lemma in_page_unique: "pg_aligned a \<Longrightarrow> pg_aligned b \<Longrightarrow> in_page a c \<Longrightarrow> in_page b c \<Longrightarrow> a = b"
  using pages_apart page_offset by metis

lemma st32_slot_outside:
  assumes "pg_aligned p" "i < 1024" "\<not> in_page p b"
  shows "st32 (p + 4 * i) w m b = m b"
proof (rule st32_outside, rule notI)
  assume k: "unat (b - (p + 4 * i)) < 4"
  have "b = p + 4 * i + of_nat (unat (b - (p + 4 * i)))" by simp
  then show False using slot_in_page [OF assms(1,2) k] assms(3) by simp
qed

lemma ld32_st32_slot:
  assumes "pg_aligned p" "pg_aligned q" "i < 1024" "j < 1024"
  shows "ld32 (st32 (p + 4 * i) w m) (q + 4 * j) = (if p = q \<and> i = j then w else ld32 m (q + 4 * j))"
proof (cases "p = q")
  case True
  then show ?thesis
    using slots_apart [OF assms(3,4)] by (cases "i = j") (auto intro!: ld32_cong st32_outside)
next
  case False
  then have "st32 (p + 4 * i) w m b = m b" if "in_page q b" for b
    using that in_page_unique [OF assms(1,2)] by (intro st32_slot_outside assms) blast
  then have "ld32 (st32 (p + 4 * i) w m) (q + 4 * j) = ld32 m (q + 4 * j)" by (rule ld32_page_cong [OF _ assms(2,4)])
  then show ?thesis using False by simp
qed

section \<open>Indices and pages\<close>

lemma bit_low: "bit (0x3FF :: uint) n \<longleftrightarrow> n < 10" "bit (0xFFF :: uint) n \<longleftrightarrow> n < 12"
proof -
  have e: "(0x3FF :: uint) = mask 10" "(0xFFF :: uint) = mask 12" by (simp_all add: mask_eq_exp_minus_1)
  show "bit (0x3FF :: uint) n \<longleftrightarrow> n < 10" "bit (0xFFF :: uint) n \<longleftrightarrow> n < 12"
    unfolding e by (auto simp: bit_simps possible_bit_def)
qed

lemma bit_uint: "bit (a :: uint) n \<Longrightarrow> n < 32"
  using bit_imp_le_length [of a n] by simp

lemma index_bits: "bit (PDX va) n \<longleftrightarrow> n < 10 \<and> bit va (n + 22)" "bit (PTX va) n \<longleftrightarrow> n < 10 \<and> bit va (n + 12)"
  unfolding PDX_def PTX_def bit_and_iff bit_low bit_drop_bit_eq comp_def by (auto simp: add.commute)

lemma same_page_iff: "PGROUNDDOWN va = PGROUNDDOWN vb \<longleftrightarrow> PDX va = PDX vb \<and> PTX va = PTX vb"
proof
  assume "PGROUNDDOWN va = PGROUNDDOWN vb"
  then have "bit va n = bit vb n" if "12 \<le> n" for n using that PGROUNDDOWN_bit by metis
  then show "PDX va = PDX vb \<and> PTX va = PTX vb" by (auto intro!: bit_word_eqI simp: index_bits)
next
  assume e: "PDX va = PDX vb \<and> PTX va = PTX vb"
  have "bit va n = bit vb n" if n: "12 \<le> n" "n < 32" for n
  proof (cases "n < 22")
    case True
    then have "n - 12 < 10" using n by arith
    then show ?thesis using e n index_bits(2) [of va "n - 12"] index_bits(2) [of vb "n - 12"] by simp
  next
    case False
    then have "n - 22 < 10" using n by arith
    then show ?thesis using False e n index_bits(1) [of va "n - 22"] index_bits(1) [of vb "n - 22"] by simp
  qed
  then show "PGROUNDDOWN va = PGROUNDDOWN vb" by (auto intro!: bit_word_eqI simp: PGROUNDDOWN_bit)
qed

lemma PTE_ADDR_bit: "bit (PTE_ADDR e) n \<longleftrightarrow> 12 \<le> n \<and> bit e n"
  using bit_uint [of e n] unfolding PTE_ADDR_def bit_and_iff bit_not_iff bit_low by (auto simp: possible_bit_def)

lemma PTE_ADDR_aligned [simp]: "pg_aligned (PTE_ADDR e)"
  by (simp add: pg_aligned_bits PTE_ADDR_bit)

lemma flag_bits: "bit PTE_P n \<longleftrightarrow> n = 0" "bit PTE_W n \<longleftrightarrow> n = 1" "bit PTE_U n \<longleftrightarrow> n = 2"
proof -
  have e: "PTE_P = 2 ^ 0" "PTE_W = 2 ^ 1" "PTE_U = 2 ^ 2" by (simp_all add: PTE_P_def PTE_W_def PTE_U_def)
  show "bit PTE_P n \<longleftrightarrow> n = 0" "bit PTE_W n \<longleftrightarrow> n = 1" "bit PTE_U n \<longleftrightarrow> n = 2"
    unfolding e bit_exp_iff by (auto simp: possible_bit_def)
qed

lemma PTE_ADDR_flags: "pg_aligned x \<Longrightarrow> (\<forall>n \<ge> 12. \<not> bit f n) \<Longrightarrow> PTE_ADDR (x OR f) = x"
  by (rule bit_word_eqI) (auto simp: PTE_ADDR_bit bit_or_iff pg_aligned_bits intro: leI)

lemma flag_iff:
  assumes p: "\<And>n. bit p n \<longleftrightarrow> n = k"
  shows "e AND p \<noteq> 0 \<longleftrightarrow> bit (e :: uint) k"
proof
  assume "e AND p \<noteq> 0"
  then obtain n where "bit (e AND p) n" using bit_word_eqI [of "e AND p" 0] by auto
  then show "bit e k" by (auto simp: bit_and_iff p)
next
  assume "bit e k"
  then have "bit (e AND p) k" by (simp add: bit_and_iff p)
  then show "e AND p \<noteq> 0" by fastforce
qed

lemmas present_iff = flag_iff [OF flag_bits(1)]

lemmas writable_iff = flag_iff [OF flag_bits(2)]

lemma new_pde:
  assumes "pg_aligned x"
  shows "PTE_ADDR (x OR PTE_P OR PTE_W OR PTE_U) = x" "(x OR PTE_P OR PTE_W OR PTE_U) AND PTE_P \<noteq> 0"
  unfolding present_iff by (rule PTE_ADDR_flags [OF assms]) (auto simp: bit_or_iff flag_bits)

lemma aligned_arith:
  assumes "pg_aligned a" "pg_aligned b"
  shows "pg_aligned (a + b)" "pg_aligned (a - b)"
proof -
  obtain p q where pq: "unat a = 4096 * p" "unat b = 4096 * q" using assms pg_alignedE by metis
  have "(4096 * p + 4096 * q) mod 4096 = 0" by (simp only: distrib_left [symmetric] mod_mult_self1_is_0)
  then show "pg_aligned (a + b)" unfolding pg_aligned_unat unat_word_ariths pq by (simp add: mod_mod_cancel)
  have "4096 * p + 2 ^ 32 - 4096 * q = 4096 * (p + 2 ^ 20 - q)" by (simp add: diff_mult_distrib2)
  then have "(4096 * p + 2 ^ 32 - 4096 * q) mod 4096 = 0" by (simp only: mod_mult_self1_is_0)
  then show "pg_aligned (a - b)" unfolding pg_aligned_unat unat_sub_uint pq by (simp add: right_diff_distrib' [symmetric])
qed

lemma aligned_shift: "pg_aligned (v2p a) = pg_aligned a" "pg_aligned (p2v a) = pg_aligned a"
proof -
  have k: "pg_aligned KERNBASE" by (simp add: pg_aligned_def KERNBASE_def PGSIZE_def)
  have "pg_aligned (x + KERNBASE) = pg_aligned x" for x
    using aligned_arith(1) [OF _ k, of x] aligned_arith(2) [OF _ k, of "x + KERNBASE"] by auto
  from this [of a] this [of "a - KERNBASE"] show "pg_aligned (v2p a) = pg_aligned a" "pg_aligned (p2v a) = pg_aligned a"
    by (simp_all add: v2p_def p2v_def)
qed

lemma table_aligned [simp]: "pg_aligned (table m d va)"
  by (simp add: table_def aligned_shift)

section \<open>Page tables that are pages of their own\<close>

definition pgdir_ok :: "'z mstate_scheme \<Rightarrow> uint list \<Rightarrow> uint \<Rightarrow> bool" where
  "pgdir_ok s xs d \<longleftrightarrow> free_pages s xs \<and> page_ok s d \<and> d \<notin> set xs \<and>
     (\<forall>va. has_table (mem s) d va \<longrightarrow>
        page_ok s (table (mem s) d va) \<and> table (mem s) d va \<notin> set xs \<and> table (mem s) d va \<noteq> d) \<and>
     (\<forall>va vb. has_table (mem s) d va \<longrightarrow> has_table (mem s) d vb \<longrightarrow>
        table (mem s) d va = table (mem s) d vb \<longrightarrow> PDX va = PDX vb)"

text \<open>The pages a page table operation may write, and that it writes no others.\<close>

definition pt_page :: "'z mstate_scheme \<Rightarrow> uint list \<Rightarrow> uint \<Rightarrow> uint \<Rightarrow> bool" where
  "pt_page s xs d p \<longleftrightarrow> p = d \<or> p \<in> set xs \<or> (\<exists>va. has_table (mem s) d va \<and> p = table (mem s) d va)"

text \<open>The page tables of a directory, by their index; every page that leaves the free list becomes one.\<close>

definition tables :: "memory \<Rightarrow> uint \<Rightarrow> uint set" where
  "tables m d = {PDX va |va. has_table m d va}"

definition pt_frame :: "'z mstate_scheme \<Rightarrow> uint list \<Rightarrow> uint \<Rightarrow> 'z mstate_scheme \<Rightarrow> uint list \<Rightarrow> bool" where
  "pt_frame s xs d t ys \<longleftrightarrow> mframe s t \<and> suffix ys xs \<and> (\<forall>p. pt_page t ys d p \<longrightarrow> pt_page s xs d p) \<and>
     length xs + card (tables (mem s) d) = length ys + card (tables (mem t) d) \<and>
     (\<forall>b. (\<forall>p. pt_page s xs d p \<longrightarrow> \<not> in_page p b) \<longrightarrow> mem t b = mem s b)"

lemma finite_tables [simp]: "finite (tables m d)"
  by (rule finite_subset [OF subset_UNIV finite])

lemma pt_frame_refl: "pt_frame s xs d s xs"
  by (simp add: pt_frame_def km.frame_refl)

lemma pt_frame_trans: "pt_frame s xs d t ys \<Longrightarrow> pt_frame t ys d u zs \<Longrightarrow> pt_frame s xs d u zs"
  unfolding pt_frame_def
  by (intro conjI) (blast intro: km.frame_trans suffix_order.trans, blast intro: suffix_order.trans, blast, simp, metis)

lemma tables_cong:
  assumes "\<And>va. pde_of m' d va = pde_of m d va"
  shows "has_table m' d va = has_table m d va" "table m' d va = table m d va"
  using assms by (simp_all add: has_table_def table_def)

lemma pgdir_okD:
  assumes "pgdir_ok s xs d"
  shows "free_pages s xs" "pg_aligned d" "d \<notin> set xs" "page_ok s d"
    "has_table (mem s) d va \<Longrightarrow> page_ok s (table (mem s) d va)"
    "has_table (mem s) d va \<Longrightarrow> table (mem s) d va \<notin> set xs"
    "has_table (mem s) d va \<Longrightarrow> table (mem s) d va \<noteq> d"
    "has_table (mem s) d va \<Longrightarrow> has_table (mem s) d vb \<Longrightarrow> table (mem s) d va = table (mem s) d vb \<longleftrightarrow> PDX va = PDX vb"
  using assms by (auto simp: pgdir_ok_def page_ok_def table_def pde_of_def)

text \<open>Writing an entry.\<close>

lemma store_pte:
  assumes ok: "pgdir_ok s xs d" and va: "has_table (mem s) d va"
  shows "pgdir_ok (upd_mem (st32 (table (mem s) d va + 4 * PTX va) w) s) xs d \<and>
    pt_frame s xs d (upd_mem (st32 (table (mem s) d va + 4 * PTX va) w) s) xs \<and>
    tables (mem (upd_mem (st32 (table (mem s) d va + 4 * PTX va) w) s)) d = tables (mem s) d \<and>
    (\<forall>vb. pte_of (mem (upd_mem (st32 (table (mem s) d va + 4 * PTX va) w) s)) d vb =
      (if PGROUNDDOWN vb = PGROUNDDOWN va then w else pte_of (mem s) d vb))"
proof -
  let ?t = "table (mem s) d va" and ?m = "st32 (table (mem s) d va + 4 * PTX va) w (mem s)"
  let ?u = "upd_mem (st32 (table (mem s) d va + 4 * PTX va) w) s"
  have m: "mem ?u = ?m" and fr: "mframe s ?u" using km.poke_law by blast+
  have pde: "pde_of ?m d vb = pde_of (mem s) d vb" for vb
    using ld32_st32_slot [OF table_aligned pgdir_okD(2) [OF ok] index_less(2) index_less(1)] pgdir_okD(7) [OF ok va]
    by (simp add: pde_of_def)
  note tab = tables_cong [of ?m d "mem s", OF pde]
  have out: "?m b = mem s b" if "\<not> in_page ?t b" for b by (rule st32_slot_outside [OF table_aligned index_less(2) that])
  have "?m b = mem s b" if "x \<in> set xs" "in_page x b" for x b
  proof (rule out, rule notI)
    assume "in_page ?t b"
    then have "x = ?t" using that pgdir_okD(1) [OF ok] by (intro in_page_unique) (auto simp: free_pages_def page_ok_def)
    then show False using that(1) pgdir_okD(6) [OF ok va] by simp
  qed
  then have "free_pages ?u xs" using km.poke_frees [OF pgdir_okD(1) [OF ok]] by blast
  then have "pgdir_ok ?u xs d" using ok unfolding pgdir_ok_def m tab km.frame_okpg [OF fr] by blast
  moreover have "tables ?m d = tables (mem s) d" unfolding tables_def tab ..
  moreover from this have "pt_frame s xs d ?u xs"
    unfolding pt_frame_def pt_page_def m tab using fr out va by auto
  moreover have "pte_of ?m d vb = (if PGROUNDDOWN vb = PGROUNDDOWN va then w else pte_of (mem s) d vb)" for vb
  proof (cases "has_table (mem s) d vb")
    case True
    then show ?thesis unfolding pte_of_def tab same_page_iff
      using ld32_st32_slot [OF table_aligned table_aligned index_less(2) index_less(2)] pgdir_okD(8) [OF ok va True] by auto
  next
    case False
    then have "PDX vb \<noteq> PDX va" using va by (auto simp: has_table_def pde_of_def)
    then show ?thesis using False unfolding pte_of_def tab same_page_iff by simp
  qed
  ultimately show ?thesis unfolding m by blast
qed

text \<open>A new table: the free page \<open>x\<close> is cleared and entered in the directory.\<close>

definition add_table :: "uint \<Rightarrow> uint \<Rightarrow> uint \<Rightarrow> 'z mstate_scheme \<Rightarrow> 'z mstate_scheme" where
  "add_table d va x s = upd_mem (st32 (d + 4 * PDX va) (v2p x OR PTE_P OR PTE_W OR PTE_U)) (upd_mem (memset x 0 PGSIZE) s)"

lemma add_table_mem:
  assumes d: "pg_aligned d" and x: "pg_aligned x" "x \<noteq> d" and m: "mem s' = mem s" and n: "\<not> has_table (mem s) d va"
  shows "has_table (mem (add_table d va x s')) d vb \<longleftrightarrow> PDX vb = PDX va \<or> has_table (mem s) d vb"
    "table (mem (add_table d va x s')) d vb = (if PDX vb = PDX va then x else table (mem s) d vb)"
    "\<not> in_page d b \<Longrightarrow> \<not> in_page x b \<Longrightarrow> mem (add_table d va x s') b = mem s b"
    "in_page x b \<Longrightarrow> mem (add_table d va x s') b = 0"
proof -
  let ?w = "v2p x OR PTE_P OR PTE_W OR PTE_U" and ?z = "memset x 0 PGSIZE (mem s)"
  have eq: "mem (add_table d va x s') = st32 (d + 4 * PDX va) ?w ?z" by (simp add: add_table_def upd_mem_def m)
  have z: "?z b = (if in_page x b then 0 else mem s b)" for b by (simp add: memset_eq in_page_def)
  have "ld32 ?z (d + 4 * PDX vb) = ld32 (mem s) (d + 4 * PDX vb)" for vb
    by (rule ld32_page_cong [OF _ d index_less(1)]) (use z in_page_unique [OF d x(1)] x(2) in auto)
  then have pde: "pde_of (mem (add_table d va x s')) d vb = (if PDX vb = PDX va then ?w else pde_of (mem s) d vb)" for vb
    unfolding pde_of_def eq ld32_st32_slot [OF d d index_less(1) index_less(1)] by auto
  have w: "PTE_ADDR ?w = v2p x" "?w AND PTE_P \<noteq> 0" using new_pde x(1) aligned_shift(1) by blast+
  have "\<not> has_table (mem s) d vb" if "PDX vb = PDX va" using n that by (simp add: has_table_def pde_of_def)
  then show "has_table (mem (add_table d va x s')) d vb \<longleftrightarrow> PDX vb = PDX va \<or> has_table (mem s) d vb"
    using w(2) unfolding has_table_def pde by auto
  show "table (mem (add_table d va x s')) d vb = (if PDX vb = PDX va then x else table (mem s) d vb)"
    unfolding table_def pde using w(1) by simp
  show "\<not> in_page d b \<Longrightarrow> \<not> in_page x b \<Longrightarrow> mem (add_table d va x s') b = mem s b"
    unfolding eq using st32_slot_outside [OF d index_less(1)] z by simp
  show "in_page x b \<Longrightarrow> mem (add_table d va x s') b = 0"
    unfolding eq using st32_slot_outside [OF d index_less(1)] z in_page_unique [OF d x(1)] x(2) by metis
qed

lemma new_table:
  assumes ok: "pgdir_ok s (x # xs) d" and n: "\<not> has_table (mem s) d va"
    and s': "free_pages s' xs" "mframe s s'" "mem s' = mem s"
  shows "pgdir_ok (add_table d va x s') xs d \<and> pt_frame s (x # xs) d (add_table d va x s') xs \<and>
    has_table (mem (add_table d va x s')) d va \<and> table (mem (add_table d va x s')) d va = x \<and>
    tables (mem (add_table d va x s')) d = insert (PDX va) (tables (mem s) d) \<and>
    (\<forall>vb. pte_of (mem (add_table d va x s')) d vb = pte_of (mem s) d vb)"
proof -
  let ?u = "add_table d va x s'"
  have d: "pg_aligned d" and x: "pg_aligned x" "x \<noteq> d" "page_ok s x" "x \<notin> set xs"
    using pgdir_okD [OF ok] by (auto simp: free_pages_def page_ok_def)
  note at = add_table_mem [OF d x(1,2) s'(3) n]
  have fr: "mframe s ?u" unfolding add_table_def using km.poke_law km.frame_trans s'(2) by blast
  have al: "pg_aligned y \<and> page_ok s y \<and> y \<noteq> x \<and> y \<noteq> d" if "y \<in> set xs" for y
    using that pgdir_okD [OF ok] x by (auto simp: free_pages_def page_ok_def)
  have "mem ?u b = mem s' b" if "y \<in> set xs" "in_page y b" for y b
    using at(3) [of b] al [OF that(1)] that(2) in_page_unique d x(1) s'(3) by metis
  moreover have "freelist ?u = freelist s'" "kend ?u = kend s'" by (simp_all add: add_table_def upd_mem_def)
  ultimately have fp: "free_pages ?u xs" using free_pages_cong [OF s'(1)] by blast
  have old: "page_ok s (table (mem s) d vb) \<and> table (mem s) d vb \<notin> set xs \<and> table (mem s) d vb \<noteq> d \<and> table (mem s) d vb \<noteq> x"
    if "has_table (mem s) d vb" for vb
    using pgdir_okD(5,6,7) [OF ok that] by auto
  have "pgdir_ok ?u xs d"
    unfolding pgdir_ok_def at(1,2) km.frame_okpg [OF fr]
    using fp pgdir_okD(3,4) [OF ok] old x pgdir_okD(8) [OF ok] by auto
  moreover have "tables (mem ?u) d = insert (PDX va) (tables (mem s) d)" "PDX va \<notin> tables (mem s) d"
    using n unfolding tables_def at(1) by (auto simp: has_table_def pde_of_def)
  moreover from this have "pt_frame s (x # xs) d ?u xs"
    unfolding pt_frame_def pt_page_def at(1,2) using fr at(3) by (auto simp: suffix_ConsI split: if_splits)
  moreover have "pte_of (mem ?u) d vb = pte_of (mem s) d vb" for vb
  proof (cases "PDX vb = PDX va")
    case True
    then have "\<not> has_table (mem s) d vb" using n by (simp add: has_table_def pde_of_def)
    then show ?thesis using True ld32_zero_page [OF at(4) x(1) index_less(2)] unfolding pte_of_def at(1,2) by simp
  next
    case False
    have "ld32 (mem ?u) (table (mem s) d vb + 4 * PTX vb) = ld32 (mem s) (table (mem s) d vb + 4 * PTX vb)" if "has_table (mem s) d vb"
      by (rule ld32_page_cong [OF _ table_aligned index_less(2)])
        (use at(3) old [OF that] in_page_unique [OF table_aligned] d x(1) in blast)
    then show ?thesis using False unfolding pte_of_def at(1,2) by simp
  qed
  ultimately show ?thesis unfolding at(1,2) by simp
qed

section \<open>Walking and mapping\<close>

lemma slot_nonzero:
  assumes "pg_aligned p" "p \<noteq> 0" "i < 1024"
  shows "p + 4 * i \<noteq> 0"
proof
  assume "p + 4 * i = 0"
  then have "in_page p 0" using slot_in_page [OF assms(1,3), of 0] by simp
  moreover have "pg_aligned 0" "in_page 0 0" by (simp_all add: pg_aligned_def in_page_def PGSIZE_def)
  ultimately show False using in_page_unique assms(1,2) by blast
qed

lemma entry_nonzero: "pgdir_ok s xs d \<Longrightarrow> has_table (mem s) d va \<Longrightarrow> table (mem s) d va + 4 * PTX va \<noteq> 0"
  using pgdir_okD(5) by (intro slot_nonzero index_less) (auto simp: page_ok_def)

lemma walk_lookup:
  "walkpgdir d va False s = Done (if has_table (mem s) d va then table (mem s) d va + 4 * PTX va else 0) s"
  by (simp add: walkpgdir_def kload_def kop_simps has_table_def table_def pde_of_def)

lemma walk_alloc:
  assumes ok: "pgdir_ok s xs d"
  shows "walkpgdir d va True s = Done 0 s \<and> xs = [] \<or>
    (\<exists>t ys. walkpgdir d va True s = Done (table (mem t) d va + 4 * PTX va) t \<and> has_table (mem t) d va \<and>
       pgdir_ok t ys d \<and> pt_frame s xs d t ys \<and> length xs \<le> Suc (length ys) \<and>
       tables (mem t) d \<subseteq> insert (PDX va) (tables (mem s) d) \<and> (\<forall>vb. pte_of (mem t) d vb = pte_of (mem s) d vb))"
proof (cases "has_table (mem s) d va")
  case True
  then have "walkpgdir d va True s = Done (table (mem s) d va + 4 * PTX va) s"
    by (simp add: walkpgdir_def kload_def kop_simps has_table_def table_def pde_of_def)
  then show ?thesis using True ok pt_frame_refl [of s xs d] le_SucI [OF order_refl] subset_insertI by blast
next
  case n: False
  then have w: "walkpgdir d va True s = kbind kalloc (\<lambda>x. if x = 0 then kret 0
      else kseq (kmemset x 0 PGSIZE) (kseq (kstore (d + 4 * PDX va) (v2p x OR PTE_P OR PTE_W OR PTE_U)) (kret (x + 4 * PTX va)))) s"
    by (simp add: walkpgdir_def kload_def kop_simps has_table_def pde_of_def)
  show ?thesis
  proof (cases xs)
    case Nil
    then have "kalloc s = Done 0 s" using km.alloc_nil pgdir_okD(1) [OF ok] by blast
    then show ?thesis using Nil unfolding w by (simp add: kop_simps)
  next
    case (Cons x zs)
    then obtain s' where s': "kalloc s = Done x s'" "free_pages s' zs" "mframe s s'" "mem s' = mem s"
      using km.alloc_cons pgdir_okD(1) [OF ok] by blast
    have "x \<noteq> 0" using pgdir_okD(1) [OF ok] Cons by (simp add: free_pages_def page_ok_def)
    then have "walkpgdir d va True s = Done (x + 4 * PTX va) (add_table d va x s')"
      unfolding w by (simp add: s'(1) kop_simps kmemset_def kstore_def add_table_def)
    then show ?thesis using new_table [OF ok [unfolded Cons] n s'(2-4)] unfolding Cons by (metis length_Cons order_refl subset_refl)
  qed
qed

text \<open>One round of the loop of \<open>mappages\<close>.\<close>

lemma map_one:
  fixes s :: "'z mstate_scheme"
  assumes ok: "pgdir_ok s xs d" and new: "pte_of (mem s) d a AND PTE_P = 0"
  shows "mappages_loop (Suc f) d a l pa perm s = Done (- 1) s \<and> xs = [] \<or>
    (\<exists>u ys. mappages_loop (Suc f) d a l pa perm s =
         (if a = l then Done 0 u else mappages_loop f d (a + PGSIZE) l (pa + PGSIZE) perm u) \<and>
       pgdir_ok u ys d \<and> pt_frame s xs d u ys \<and> length xs \<le> Suc (length ys) \<and>
       tables (mem u) d \<subseteq> insert (PDX a) (tables (mem s) d) \<and>
       (\<forall>vb. pte_of (mem u) d vb = (if PGROUNDDOWN vb = PGROUNDDOWN a then pa OR perm OR PTE_P else pte_of (mem s) d vb)))"
  using walk_alloc [OF ok, of a]
proof (elim disjE exE conjE)
  assume "walkpgdir d a True s = Done 0 s" "xs = []"
  then show ?thesis by (simp add: kop_simps)
next
  fix t :: "'z mstate_scheme" and ys
  let ?e = "table (mem t) d a + 4 * PTX a"
  assume t: "walkpgdir d a True s = Done ?e t" "has_table (mem t) d a" "pgdir_ok t ys d"
    "pt_frame s xs d t ys" "\<forall>vb. pte_of (mem t) d vb = pte_of (mem s) d vb" and len: "length xs \<le> Suc (length ys)" "tables (mem t) d \<subseteq> insert (PDX a) (tables (mem s) d)"
  let ?u = "upd_mem (st32 ?e (pa OR perm OR PTE_P)) t"
  have "ld32 (mem t) ?e = pte_of (mem s) d a" using t(2,5) by (metis pte_of_def)
  then have "mappages_loop (Suc f) d a l pa perm s =
      (if a = l then Done 0 ?u else mappages_loop f d (a + PGSIZE) l (pa + PGSIZE) perm ?u)"
    using t(1) new entry_nonzero [OF t(3,2)] by (simp add: kop_simps kload_def kstore_def)
  then show ?thesis using store_pte [OF t(3,2), of "pa OR perm OR PTE_P"] pt_frame_trans [OF t(4)] t(5) len
    by (intro disjI2 exI [of _ ?u] exI [of _ ys]) simp
qed

text \<open>The addresses in the \<open>k\<close> pages from \<open>a\<close> on.\<close>

definition in_range :: "uint \<Rightarrow> nat \<Rightarrow> uint \<Rightarrow> bool" where
  "in_range a k va \<longleftrightarrow> unat (PGROUNDDOWN va - a) < 4096 * k"

lemma in_range_0 [simp]: "\<not> in_range a 0 va"
  by (simp add: in_range_def)

lemma in_range_Suc:
  assumes a: "pg_aligned a" and k: "k < 2 ^ 20"
  shows "in_range a (Suc k) va \<longleftrightarrow> PGROUNDDOWN va = a \<or> in_range (a + PGSIZE) k va"
    and "in_range (a + PGSIZE) k va \<Longrightarrow> PGROUNDDOWN va \<noteq> a"
proof -
  obtain p where p: "unat a = 4096 * p" using a by (rule pg_alignedE)
  obtain q where q: "unat (PGROUNDDOWN va) = 4096 * q" using pg_alignedE [OF PGROUNDDOWN_aligned] .
  have b: "p < 2 ^ 20" "q < 2 ^ 20"
    using pg_aligned_less [OF a] pg_aligned_less [OF PGROUNDDOWN_aligned, of va] unfolding p q by simp_all
  have e: "PGROUNDDOWN va = a \<longleftrightarrow> q = p" unfolding word_unat_eq_iff p q by simp
  have s: "PGROUNDDOWN va - (a + PGSIZE) = (PGROUNDDOWN va - a) - 4096" by (simp add: PGSIZE_def)
  have d: "unat (PGROUNDDOWN va - a) = (if p \<le> q then 4096 * (q - p) else 4096 * (q + 2 ^ 20 - p))"
    unfolding unat_sub_uint p q using b by auto
  have d': "unat (PGROUNDDOWN va - a - 4096) =
      (if p \<le> q then if p = q then 2 ^ 32 - 4096 else 4096 * (q - p - 1) else 4096 * (q + 2 ^ 20 - p - 1))"
    unfolding unat_sub_uint [of "PGROUNDDOWN va - a"] d using b by auto
  show "in_range a (Suc k) va \<longleftrightarrow> PGROUNDDOWN va = a \<or> in_range (a + PGSIZE) k va"
    unfolding in_range_def s d d' e using b k by auto
  show "in_range (a + PGSIZE) k va \<Longrightarrow> PGROUNDDOWN va \<noteq> a"
    unfolding in_range_def s d' e using b k by auto
qed

text \<open>
  What \<open>mappages\<close> does when nothing in the range is mapped: it maps all of it, or the first \<open>k\<close> pages when the memory for
  page tables runs out.
\<close>

definition mapped :: "memory \<Rightarrow> uint \<Rightarrow> uint \<Rightarrow> nat \<Rightarrow> uint \<Rightarrow> uint \<Rightarrow> memory \<Rightarrow> bool" where
  "mapped m d a k pa perm m' \<longleftrightarrow> (\<forall>va. pte_of m' d va =
     (if in_range a k va then (pa + (PGROUNDDOWN va - a)) OR perm OR PTE_P else pte_of m d va))"

lemma mapped_0: "mapped m d a 0 pa perm m"
  by (simp add: mapped_def)

lemma mapped_Suc:
  assumes a: "pg_aligned a" and k: "k < 2 ^ 20" and m: "mapped m1 d (a + PGSIZE) k (pa + PGSIZE) perm m2"
    and one: "\<And>va. pte_of m1 d va = (if PGROUNDDOWN va = PGROUNDDOWN a then pa OR perm OR PTE_P else pte_of m d va)"
  shows "mapped m d a (Suc k) pa perm m2"
  unfolding mapped_def
proof
  fix va
  have e: "pa + PGSIZE + (PGROUNDDOWN va - (a + PGSIZE)) = pa + (PGROUNDDOWN va - a)" by simp
  show "pte_of m2 d va = (if in_range a (Suc k) va then (pa + (PGROUNDDOWN va - a)) OR perm OR PTE_P else pte_of m d va)"
    using m [unfolded mapped_def, rule_format, of va] one [of va] in_range_Suc(2) [OF a k, of va]
    unfolding in_range_Suc(1) [OF a k] e PGROUNDDOWN_id [OF a] by (cases "PGROUNDDOWN va = a") auto
qed

lemma aligned_add: "pg_aligned a \<Longrightarrow> pg_aligned (a + PGSIZE)"
  by (simp add: pg_aligned_unat PGSIZE_def unat_word_ariths mod_mod_cancel)

lemma mappages_loop_spec:
  fixes s :: "'z mstate_scheme"
  assumes "pgdir_ok s xs d" "pg_aligned a" "n < 2 ^ 20" "\<And>va. in_range a (Suc n) va \<Longrightarrow> pte_of (mem s) d va AND PTE_P = 0"
  shows "\<exists>r t ys k. mappages_loop (Suc n) d a (a + of_nat n * PGSIZE) pa perm s = Done r t \<and> pgdir_ok t ys d \<and>
    pt_frame s xs d t ys \<and> (r = 0 \<and> k = Suc n \<or> r = - 1 \<and> ys = [] \<and> k \<le> n) \<and> mapped (mem s) d a k pa perm (mem t) \<and>
    tables (mem t) d \<subseteq> tables (mem s) d \<union> PDX ` {va. in_range a (Suc n) va}"
  using assms
proof (induction n arbitrary: a pa s xs)
  case 0
  have new: "pte_of (mem s) d a AND PTE_P = 0"
    using 0(2,4) in_range_Suc(1) [OF 0(2), of 0 a] by (simp add: PGROUNDDOWN_id)
  from map_one [OF 0(1) new, of 0 "a + of_nat 0 * PGSIZE" pa perm] show ?case
  proof (elim disjE exE conjE)
    assume "mappages_loop (Suc 0) d a (a + of_nat 0 * PGSIZE) pa perm s = Done (- 1) s" "xs = []"
    then show ?thesis using 0(1)
      by (intro exI [of _ "- 1"] exI [of _ s] exI [of _ "[]"] exI [of _ 0]) (simp add: pt_frame_refl mapped_0 del: mappages_loop.simps)
  next
    fix u :: "'z mstate_scheme" and ys
    assume u: "mappages_loop (Suc 0) d a (a + of_nat 0 * PGSIZE) pa perm s =
        (if a = a + of_nat 0 * PGSIZE then Done 0 u else mappages_loop 0 d (a + PGSIZE) (a + of_nat 0 * PGSIZE) (pa + PGSIZE) perm u)"
      "pgdir_ok u ys d" "pt_frame s xs d u ys" and T: "tables (mem u) d \<subseteq> insert (PDX a) (tables (mem s) d)"
      and p: "\<forall>vb. pte_of (mem u) d vb = (if PGROUNDDOWN vb = PGROUNDDOWN a then pa OR perm OR PTE_P else pte_of (mem s) d vb)"
    have "in_range a (Suc 0) a" using in_range_Suc(1) [OF 0(2), of 0 a] 0(2) by (simp add: PGROUNDDOWN_id)
    then have "tables (mem u) d \<subseteq> tables (mem s) d \<union> PDX ` {va. in_range a (Suc 0) va}" using T by blast
    moreover have "mapped (mem s) d a (Suc 0) pa perm (mem u)" using p by (intro mapped_Suc [OF 0(2) _ mapped_0]) simp_all
    ultimately show ?thesis using u
      by (intro exI [of _ 0] exI [of _ u] exI [of _ ys] exI [of _ "Suc 0"]) (simp del: mappages_loop.simps)
  qed
next
  case (Suc n)
  let ?l = "a + of_nat (Suc n) * PGSIZE"
  have n: "Suc n < 2 ^ 20" "n < 2 ^ 20" using Suc.prems(3) by simp_all
  have l: "?l = a + PGSIZE + of_nat n * PGSIZE" by (simp add: algebra_simps)
  have "unat (of_nat (Suc n) * PGSIZE) = Suc n * 4096"
    using n by (subst unat_mult_lem [THEN iffD1]) (simp_all add: PGSIZE_def unat_of_nat_uint del: of_nat_Suc)
  then have ne: "a \<noteq> ?l" by (metis add_cancel_right_right mult_is_0 nat.distinct(1) unat_0 zero_neq_numeral)
  have new: "pte_of (mem s) d a AND PTE_P = 0"
    using Suc.prems(2,4) in_range_Suc(1) [OF Suc.prems(2) n(1), of a] by (simp add: PGROUNDDOWN_id)
  from map_one [OF Suc.prems(1) new, of "Suc n" ?l pa perm] show ?case
  proof (elim disjE exE conjE)
    assume "mappages_loop (Suc (Suc n)) d a ?l pa perm s = Done (- 1) s" "xs = []"
    then show ?thesis using Suc.prems(1)
      by (intro exI [of _ "- 1"] exI [of _ s] exI [of _ "[]"] exI [of _ 0]) (simp add: pt_frame_refl mapped_0 del: mappages_loop.simps)
  next
    fix u :: "'z mstate_scheme" and ys
    assume u: "mappages_loop (Suc (Suc n)) d a ?l pa perm s =
        (if a = ?l then Done 0 u else mappages_loop (Suc n) d (a + PGSIZE) ?l (pa + PGSIZE) perm u)"
      "pgdir_ok u ys d" "pt_frame s xs d u ys" and T: "tables (mem u) d \<subseteq> insert (PDX a) (tables (mem s) d)"
      and p: "\<forall>vb. pte_of (mem u) d vb = (if PGROUNDDOWN vb = PGROUNDDOWN a then pa OR perm OR PTE_P else pte_of (mem s) d vb)"
    have "pte_of (mem u) d va AND PTE_P = 0" if "in_range (a + PGSIZE) (Suc n) va" for va
      using that Suc.prems(4) [of va] p in_range_Suc [OF Suc.prems(2) n(1), of va] by (simp add: PGROUNDDOWN_id [OF Suc.prems(2)])
    from Suc.IH [OF u(2) aligned_add [OF Suc.prems(2)] n(2) this, of "pa + PGSIZE"] obtain r t zs k where
      t: "mappages_loop (Suc n) d (a + PGSIZE) ?l (pa + PGSIZE) perm u = Done r t" "pgdir_ok t zs d" "pt_frame u ys d t zs"
        "r = 0 \<and> k = Suc n \<or> r = - 1 \<and> zs = [] \<and> k \<le> n" "mapped (mem u) d (a + PGSIZE) k (pa + PGSIZE) perm (mem t)"
        "tables (mem t) d \<subseteq> tables (mem u) d \<union> PDX ` {va. in_range (a + PGSIZE) (Suc n) va}"
      unfolding l by blast
    have "in_range a (Suc (Suc n)) a" "{va. in_range (a + PGSIZE) (Suc n) va} \<subseteq> {va. in_range a (Suc (Suc n)) va}"
      using in_range_Suc(1) [OF Suc.prems(2) n(1)] Suc.prems(2) by (auto simp: PGROUNDDOWN_id)
    then have "tables (mem t) d \<subseteq> tables (mem s) d \<union> PDX ` {va. in_range a (Suc (Suc n)) va}" using T t(6) by blast
    moreover have "mapped (mem s) d a (Suc k) pa perm (mem t)" using p t(4) n by (intro mapped_Suc [OF Suc.prems(2) _ t(5)]) auto
    moreover have "pt_frame s xs d t zs" by (rule pt_frame_trans [OF u(3) t(3)])
    ultimately show ?thesis using t u(1) ne by (intro exI [of _ r] exI [of _ t] exI [of _ zs] exI [of _ "Suc k"]) (auto simp del: mappages_loop.simps)
  qed
qed

text \<open>The number of pages \<open>mappages\<close> goes through.\<close>

definition npages :: "uint \<Rightarrow> uint \<Rightarrow> nat" where
  "npages va sz = Suc (unat (PGROUNDDOWN (va + sz - 1) - PGROUNDDOWN va) div 4096)"

lemma npages_end:
  assumes "Suc n = npages va sz"
  shows "PGROUNDDOWN (va + sz - 1) = PGROUNDDOWN va + of_nat n * PGSIZE" "n < 2 ^ 20"
proof -
  let ?x = "PGROUNDDOWN (va + sz - 1)" and ?a = "PGROUNDDOWN va"
  have n: "n = unat (?x - ?a) div 4096" using assms by (simp add: npages_def)
  obtain p where p: "unat ?x = 4096 * p" using pg_alignedE [OF PGROUNDDOWN_aligned] .
  obtain q where q: "unat ?a = 4096 * q" using pg_alignedE [OF PGROUNDDOWN_aligned] .
  have "q < 2 ^ 20" using pg_aligned_less [OF PGROUNDDOWN_aligned, of va] unfolding q by simp
  then have d: "unat (?x - ?a) = 4096 * (if q \<le> p then p - q else p + 2 ^ 20 - q)" unfolding unat_sub_uint p q by auto
  then have u: "unat (?x - ?a) = 4096 * n" unfolding n by simp
  moreover have "unat (?x - ?a) < 2 ^ 32" using unsigned_less [where 'a = nat, of "?x - ?a"] by simp
  ultimately show "n < 2 ^ 20" by simp
  have "?x - ?a = of_nat (4096 * n)" unfolding u [symmetric] by simp
  then show "?x = ?a + of_nat n * PGSIZE" by (simp add: PGSIZE_def algebra_simps)
qed

lemma mappages_spec:
  fixes s :: "'z mstate_scheme"
  assumes "pgdir_ok s xs d" "\<And>v. in_range (PGROUNDDOWN va) (npages va sz) v \<Longrightarrow> pte_of (mem s) d v AND PTE_P = 0"
  shows "\<exists>r t ys k. mappages d va sz pa perm s = Done r t \<and> pgdir_ok t ys d \<and> pt_frame s xs d t ys \<and>
    (r = 0 \<and> k = npages va sz \<or> r = - 1 \<and> ys = [] \<and> k < npages va sz) \<and>
    mapped (mem s) d (PGROUNDDOWN va) k pa perm (mem t) \<and>
    tables (mem t) d \<subseteq> tables (mem s) d \<union> PDX ` {v. in_range (PGROUNDDOWN va) (npages va sz) v}"
proof -
  obtain n where n: "npages va sz = Suc n" by (simp add: npages_def)
  note e = npages_end [OF n [symmetric]]
  have "mappages d va sz pa perm s = mappages_loop (Suc n) d (PGROUNDDOWN va) (PGROUNDDOWN va + of_nat n * PGSIZE) pa perm s"
    unfolding mappages_def Let_def npages_def [symmetric] unfolding n unfolding e(1) ..
  then show ?thesis unfolding n less_Suc_eq_le
    by (simp only:) (rule mappages_loop_spec [OF assms(1) PGROUNDDOWN_aligned e(2) assms(2) [unfolded n]])
qed

text \<open>An address in a range that does not wrap around.\<close>

lemma in_range_interval:
  assumes "pg_aligned a" "unat a + 4096 * k \<le> 2 ^ 32"
  shows "in_range a k va \<longleftrightarrow> unat a \<le> unat va \<and> unat va < unat a + 4096 * k"
proof -
  obtain p where p: "unat a = 4096 * p" using assms(1) by (rule pg_alignedE)
  have v: "unat va < 2 ^ 32" using unsigned_less [where 'a = nat, of va] by simp
  have q: "unat (PGROUNDDOWN va) = 4096 * (unat va div 4096)"
    unfolding unat_PGROUNDDOWN by (simp add: minus_mod_eq_mult_div)
  have m: "unat va = 4096 * (unat va div 4096) + unat va mod 4096" "unat va mod 4096 < 4096" by simp_all
  have lt: "unat va < 4096 * c \<longleftrightarrow> unat va div 4096 < c" for c by (simp add: less_mult_imp_div_less div_less_iff_less_mult mult.commute)
  have le: "4096 * c \<le> unat va \<longleftrightarrow> c \<le> unat va div 4096" for c using lt [of c] by linarith
  have "unat va div 4096 < 2 ^ 20" using v by (simp add: lt [symmetric])
  then show ?thesis unfolding in_range_def unat_sub_uint q p distrib_left [symmetric] lt le using assms(2) [unfolded p]
    by (auto split: if_splits)
qed

section \<open>The kernel part of an address space\<close>

lemma fresh_pgdir:
  assumes "free_pages s xs" "page_ok s d" "d \<notin> set xs" "\<And>b. in_page d b \<Longrightarrow> mem s b = 0"
  shows "pgdir_ok s xs d" "pte_of (mem s) d va = 0" "\<not> has_table (mem s) d va"
proof -
  have "pg_aligned d" using assms(2) by (simp add: page_ok_def)
  then have "pde_of (mem s) d va = 0" for va unfolding pde_of_def by (intro ld32_zero_page [OF assms(4)] index_less)
  then have n: "\<not> has_table (mem s) d va" for va by (simp add: has_table_def)
  show "pgdir_ok s xs d" using assms n by (simp add: pgdir_ok_def)
  show "pte_of (mem s) d va = 0" "\<not> has_table (mem s) d va" by (simp_all add: n pte_of_def)
qed

text \<open>The addresses of an entry of \<open>kmap\<close> and what they are mapped to.\<close>

definition km_in :: "kmap_entry \<Rightarrow> uint \<Rightarrow> bool" where
  "km_in k va \<longleftrightarrow> in_range (km_virt k) (npages (km_virt k) (km_phys_end k - km_phys_start k)) va"

definition km_pte :: "kmap_entry \<Rightarrow> uint \<Rightarrow> uint" where
  "km_pte k va = (km_phys_start k + (PGROUNDDOWN va - km_virt k)) OR km_perm k OR PTE_P"

lemma setupkvm_loop_spec:
  fixes s :: "'z mstate_scheme"
  assumes "pgdir_ok s xs d" "\<And>k. k \<in> set ks \<Longrightarrow> pg_aligned (km_virt k)"
    "\<And>k va. k \<in> set ks \<Longrightarrow> km_in k va \<Longrightarrow> pte_of (mem s) d va AND PTE_P = 0"
    "sorted_wrt (\<lambda>k l. \<forall>va. \<not> (km_in k va \<and> km_in l va)) ks"
  shows "\<exists>r t ys. setupkvm_loop d ks s = Done r t \<and> pgdir_ok t ys d \<and> pt_frame s xs d t ys \<and>
    tables (mem t) d \<subseteq> tables (mem s) d \<union> PDX ` {va. \<exists>k \<in> set ks. km_in k va} \<and>
    (r = 0 \<and> ys = [] \<or> r = d \<and> (\<forall>va. pte_of (mem t) d va =
       (case find (\<lambda>k. km_in k va) ks of None \<Rightarrow> pte_of (mem s) d va | Some k \<Rightarrow> km_pte k va)))"
  using assms
proof (induction ks arbitrary: s xs)
  case Nil
  then show ?case using pt_frame_refl by (auto simp: kret_eq)
next
  case (Cons k ks)
  let ?n = "npages (km_virt k) (km_phys_end k - km_phys_start k)"
  have a: "PGROUNDDOWN (km_virt k) = km_virt k" using Cons.prems(2) by (simp add: PGROUNDDOWN_id)
  have free: "pte_of (mem s) d v AND PTE_P = 0" if "in_range (PGROUNDDOWN (km_virt k)) ?n v" for v
    using that Cons.prems(3) [of k v] unfolding a km_in_def by simp
  obtain r t ys j where t: "mappages d (km_virt k) (km_phys_end k - km_phys_start k) (km_phys_start k) (km_perm k) s = Done r t"
    "pgdir_ok t ys d" "pt_frame s xs d t ys" "r = 0 \<and> j = ?n \<or> r = - 1 \<and> ys = [] \<and> j < ?n"
    "mapped (mem s) d (km_virt k) j (km_phys_start k) (km_perm k) (mem t)"
    "tables (mem t) d \<subseteq> tables (mem s) d \<union> PDX ` {va. km_in k va}"
    using mappages_spec [where va = "km_virt k" and pa = "km_phys_start k" and perm = "km_perm k", OF Cons.prems(1) free] unfolding a km_in_def by blast
  show ?case
  proof (cases "r = 0")
    case False
    then have "setupkvm_loop d (k # ks) s = Done 0 t" "ys = []" using t(1,4) by (auto simp: kop_simps)
    moreover have "tables (mem t) d \<subseteq> tables (mem s) d \<union> PDX ` {va. \<exists>k \<in> set (k # ks). km_in k va}" using t(6) by auto
    ultimately show ?thesis using t(2,3) by blast
  next
    case True
    then have e: "setupkvm_loop d (k # ks) s = setupkvm_loop d ks t" and j: "j = ?n" using t(1,4) by (auto simp: kop_simps)
    have p: "pte_of (mem t) d va = (if km_in k va then km_pte k va else pte_of (mem s) d va)" for va
      using t(5) unfolding mapped_def j km_in_def km_pte_def by blast
    have "pte_of (mem t) d va AND PTE_P = 0" if "l \<in> set ks" "km_in l va" for l va
      using that Cons.prems(3) [of l va] Cons.prems(4) unfolding p by auto
    moreover have "\<And>l. l \<in> set ks \<Longrightarrow> pg_aligned (km_virt l)" "sorted_wrt (\<lambda>k l. \<forall>va. \<not> (km_in k va \<and> km_in l va)) ks"
      using Cons.prems(2,4) by simp_all
    ultimately obtain r' u zs where u: "setupkvm_loop d ks t = Done r' u" "pgdir_ok u zs d" "pt_frame t ys d u zs"
      "tables (mem u) d \<subseteq> tables (mem t) d \<union> PDX ` {va. \<exists>k \<in> set ks. km_in k va}"
      "r' = 0 \<and> zs = [] \<or> r' = d \<and> (\<forall>va. pte_of (mem u) d va =
         (case find (\<lambda>k. km_in k va) ks of None \<Rightarrow> pte_of (mem t) d va | Some k \<Rightarrow> km_pte k va))"
      using Cons.IH [OF t(2)] by blast
    have "find (\<lambda>k. km_in k va) ks = None" if "km_in k va" for va
      using that Cons.prems(4) by (auto simp: find_None_iff)
    then have "(case find (\<lambda>k. km_in k va) ks of None \<Rightarrow> pte_of (mem t) d va | Some k \<Rightarrow> km_pte k va) =
        (case find (\<lambda>k. km_in k va) (k # ks) of None \<Rightarrow> pte_of (mem s) d va | Some k \<Rightarrow> km_pte k va)" for va
      by (auto simp: p split: option.split)
    moreover have "tables (mem u) d \<subseteq> tables (mem s) d \<union> PDX ` {va. \<exists>k \<in> set (k # ks). km_in k va}" using u(4) t(6) by auto
    ultimately show ?thesis using u pt_frame_trans [OF t(3) u(3)] unfolding e by auto
  qed
qed

lemma PGROUNDDOWN_top:
  assumes "pg_aligned x"
  shows "PGROUNDDOWN (x + 4095) = x"
proof -
  have x: "unat (x + 4095) = unat x + 4095" "unat x mod 4096 = 0" using unat_page_add [OF assms, of 4095] assms by (simp_all add: pg_aligned_unat)
  then have "(unat x + 4095) mod 4096 = 4095" using mod_add_left_eq [of "unat x" 4096 4095] by simp
  then have "unat (PGROUNDDOWN (x + 4095)) = unat x" unfolding unat_PGROUNDDOWN x(1) by simp
  then show ?thesis by (simp add: word_unat_eq_iff)
qed

lemma npages_exact:
  assumes "pg_aligned va" "pg_aligned sz" "sz \<noteq> 0"
  shows "npages va sz = unat sz div 4096"
proof -
  let ?x = "va + sz - 4096"
  obtain q where q: "unat sz = 4096 * q" using assms(2) by (rule pg_alignedE)
  have q0: "0 < q" using q assms(3) by (cases q) (auto simp: unat_eq_0)
  have "pg_aligned ?x" using assms(1,2) by (intro aligned_arith) (simp_all add: pg_aligned_unat)
  then have e: "PGROUNDDOWN (va + sz - 1) = ?x" using PGROUNDDOWN_top [of ?x] by simp
  have "unat (4096 :: uint) = 4096" by simp
  then have "unat (sz - 4096) = 4096 * (q - 1)" using q q0 unfolding unat_sub_uint by (auto simp: diff_mult_distrib2)
  then show ?thesis using q0 unfolding npages_def e PGROUNDDOWN_id [OF assms(1)] q by (simp add: algebra_simps)
qed

lemma km_interval:
  assumes "pg_aligned (km_virt k)" "pg_aligned (km_phys_end k - km_phys_start k)" "km_phys_end k - km_phys_start k \<noteq> 0"
    "unat (km_virt k) + unat (km_phys_end k - km_phys_start k) \<le> 2 ^ 32"
  shows "km_in k va \<longleftrightarrow> unat (km_virt k) \<le> unat va \<and>
    unat va < unat (km_virt k) + unat (km_phys_end k - km_phys_start k)"
proof -
  obtain q where q: "unat (km_phys_end k - km_phys_start k) = 4096 * q" using assms(2) by (rule pg_alignedE)
  show ?thesis unfolding km_in_def npages_exact [OF assms(1-3)] q using assms(4) [unfolded q]
    by (simp add: in_range_interval [OF assms(1)])
qed

text \<open>The address of the kernel's data, as the linker places it: on a page between the kernel and the end of memory.\<close>

definition data_ok :: "uint \<Rightarrow> bool" where
  "data_ok dat \<longleftrightarrow> pg_aligned dat \<and> KERNLINK < dat \<and> dat < KERNBASE + PHYSTOP"

definition kernel_pte :: "uint \<Rightarrow> uint \<Rightarrow> uint" where
  "kernel_pte dat va =
     (if KERNBASE \<le> va \<and> va < KERNBASE + PHYSTOP
      then v2p (PGROUNDDOWN va) OR (if KERNLINK \<le> va \<and> va < dat then 0 else PTE_W) OR PTE_P
      else if DEVSPACE \<le> va then PGROUNDDOWN va OR PTE_W OR PTE_P
      else 0)"

lemma kmap_intervals:
  assumes "data_ok dat"
  shows "map (\<lambda>k. km_in k va) (kmap dat) =
    [KERNBASE \<le> va \<and> va < KERNLINK, KERNLINK \<le> va \<and> va < dat, dat \<le> va \<and> va < KERNBASE + PHYSTOP, DEVSPACE \<le> va]"
    "\<forall>k \<in> set (kmap dat). pg_aligned (km_virt k)"
proof -
  have d: "pg_aligned dat" "0x80100000 < unat dat" "unat dat < 0x8E000000"
    using assms by (simp_all add: data_ok_def layout_defs word_less_nat_alt)
  have v: "unat va < 2 ^ 32" using unsigned_less [where 'a = nat, of va] by simp
  have al: "pg_aligned KERNBASE" "pg_aligned KERNLINK" "pg_aligned DEVSPACE" "pg_aligned EXTMEM" "pg_aligned (0 - DEVSPACE)"
    by (simp_all add: pg_aligned_unat layout_defs)
  have sz: "v2p dat - v2p KERNLINK = dat - KERNLINK" "PHYSTOP - v2p dat = KERNBASE + PHYSTOP - dat"
    by (simp_all add: v2p_def)
  have u: "unat (dat - KERNLINK) = unat dat - 0x80100000" "unat (KERNBASE + PHYSTOP - dat) = 0x8E000000 - unat dat"
    using d by (simp_all add: layout_defs unat_sub_uint)
  have al2: "pg_aligned (dat - KERNLINK)" "pg_aligned (KERNBASE + PHYSTOP - dat)"
    by (intro aligned_arith al d; simp add: pg_aligned_unat layout_defs)+
  show "\<forall>k \<in> set (kmap dat). pg_aligned (km_virt k)" by (simp add: kmap_def al d)
  show "map (\<lambda>k. km_in k va) (kmap dat) =
    [KERNBASE \<le> va \<and> va < KERNLINK, KERNLINK \<le> va \<and> va < dat, dat \<le> va \<and> va < KERNBASE + PHYSTOP, DEVSPACE \<le> va]"
    unfolding kmap_def list.map list.inject
  proof (intro conjI refl)
    show "km_in \<lparr>km_virt = KERNBASE, km_phys_start = 0, km_phys_end = EXTMEM, km_perm = PTE_W\<rparr> va = (KERNBASE \<le> va \<and> va < KERNLINK)"
      by (subst km_interval) (simp_all add: al, simp_all add: layout_defs word_le_nat_alt word_less_nat_alt)
    show "km_in \<lparr>km_virt = KERNLINK, km_phys_start = v2p KERNLINK, km_phys_end = v2p dat, km_perm = 0\<rparr> va = (KERNLINK \<le> va \<and> va < dat)"
      using d by (subst km_interval) (simp_all add: al al2 sz u, auto simp: layout_defs word_le_nat_alt word_less_nat_alt)
    show "km_in \<lparr>km_virt = dat, km_phys_start = v2p dat, km_phys_end = PHYSTOP, km_perm = PTE_W\<rparr> va = (dat \<le> va \<and> va < KERNBASE + PHYSTOP)"
      using d by (subst km_interval) (simp_all add: al2 sz u, auto simp: layout_defs word_le_nat_alt word_less_nat_alt)
    show "km_in \<lparr>km_virt = DEVSPACE, km_phys_start = DEVSPACE, km_phys_end = 0, km_perm = PTE_W\<rparr> va = (DEVSPACE \<le> va)"
      using v by (subst km_interval) (use al in simp_all, simp_all add: layout_defs word_le_nat_alt)
  qed
qed

lemma kmap_pte:
  assumes "data_ok dat"
  shows "(case find (\<lambda>k. km_in k va) (kmap dat) of None \<Rightarrow> 0 | Some k \<Rightarrow> km_pte k va) = kernel_pte dat va"
proof -
  have o: "KERNBASE < KERNLINK" "KERNLINK < dat" "dat < KERNBASE + PHYSTOP" "KERNBASE + PHYSTOP < DEVSPACE"
    using assms by (simp_all add: data_ok_def layout_defs)
  note i = kmap_intervals(1) [OF assms, of va, unfolded kmap_def list.map list.inject]
  have pa: "v2p x + (y - x) = v2p y" "0 + (y - KERNBASE) = v2p y" "x + (y - x) = y" for x y by (simp_all add: v2p_def)
  let ?K = "KERNBASE + PHYSTOP"
  have find: "(case find (\<lambda>k. km_in k va) (kmap dat) of None \<Rightarrow> 0 | Some k \<Rightarrow> km_pte k va) =
      (if KERNBASE \<le> va \<and> va < KERNLINK then v2p (PGROUNDDOWN va) OR PTE_W OR PTE_P
       else if KERNLINK \<le> va \<and> va < dat then v2p (PGROUNDDOWN va) OR 0 OR PTE_P
       else if dat \<le> va \<and> va < ?K then v2p (PGROUNDDOWN va) OR PTE_W OR PTE_P
       else if DEVSPACE \<le> va then PGROUNDDOWN va OR PTE_W OR PTE_P else 0)"
    unfolding kmap_def find.simps by (simp only: i km_pte_def pa kmap_entry.simps option.case if_distrib [of "case_option _ _"] split: if_split)
  consider "va < KERNBASE" | "KERNBASE \<le> va" "va < KERNLINK" | "KERNLINK \<le> va" "va < dat" |
    "dat \<le> va" "va < ?K" | "?K \<le> va" "va < DEVSPACE" | "DEVSPACE \<le> va"
    by (meson not_le)
  then show ?thesis
  proof cases
    case 1
    then have "\<not> KERNBASE \<le> va" "\<not> KERNLINK \<le> va" "\<not> dat \<le> va" "\<not> DEVSPACE \<le> va" using o by order+
    then show ?thesis unfolding find kernel_pte_def by simp
  next
    case 2
    then have "va < ?K" "\<not> KERNLINK \<le> va" using o by order+
    with 2 show ?thesis unfolding find kernel_pte_def by simp
  next
    case 3
    then have "va < ?K" "\<not> va < KERNLINK" "KERNBASE \<le> va" using o by order+
    with 3 show ?thesis unfolding find kernel_pte_def by simp
  next
    case 4
    then have "\<not> va < KERNLINK" "\<not> va < dat" "KERNBASE \<le> va" using o by order+
    with 4 show ?thesis unfolding find kernel_pte_def by simp
  next
    case 5
    then have "\<not> va < KERNLINK" "\<not> va < dat" "\<not> va < ?K" "\<not> DEVSPACE \<le> va" using o by order+
    then show ?thesis unfolding find kernel_pte_def by simp
  next
    case 6
    then have "\<not> va < KERNLINK" "\<not> va < dat" "\<not> va < ?K" using o by order+
    with 6 show ?thesis unfolding find kernel_pte_def by simp
  qed
qed

lemma kmap_disjoint:
  assumes "data_ok dat"
  shows "sorted_wrt (\<lambda>k l. \<forall>va. \<not> (km_in k va \<and> km_in l va)) (kmap dat)"
proof -
  have o: "KERNLINK < dat" "dat < KERNBASE + PHYSTOP" "KERNBASE + PHYSTOP < DEVSPACE"
    using assms by (simp_all add: data_ok_def layout_defs)
  note i = kmap_intervals(1) [OF assms, unfolded kmap_def list.map list.inject]
  show ?thesis unfolding kmap_def sorted_wrt.simps list.set ball_simps
    by (simp only: i simp_thms) (intro allI conjI notI; elim conjE; use o in order)
qed

lemma unat_PDX: "unat (PDX va) = unat va div 2 ^ 22"
proof -
  have "PDX va = drop_bit 22 va"
    using bit_uint [of va] by (intro bit_word_eqI) (fastforce simp: index_bits bit_drop_bit_eq add.commute)
  then show ?thesis by (simp add: drop_bit_eq_div unat_div_distrib)
qed

lemma kernel_tables:
  assumes "data_ok dat"
  shows "card (PDX ` {va. \<exists>k \<in> set (kmap dat). km_in k va}) \<le> 64"
proof -
  let ?I = "{512..<568} \<union> {1016..<1024 :: nat}"
  have "unat (PDX va) \<in> ?I" if k: "k \<in> set (kmap dat)" "km_in k va" for k va
  proof -
    have d: "0x80100000 < unat dat" "unat dat < 0x8E000000"
      using assms by (simp_all add: data_ok_def layout_defs word_less_nat_alt)
    have "True \<in> set (map (\<lambda>k. km_in k va) (kmap dat))" using k by force
    then have "0x80000000 \<le> unat va \<and> unat va < 0x8E000000 \<or> 0xFE000000 \<le> unat va"
      unfolding kmap_intervals(1) [OF assms] using d by (auto simp: layout_defs word_le_nat_alt word_less_nat_alt)
    moreover have "unat va < 2 ^ 32" using unsigned_less [where 'a = nat, of va] by simp
    ultimately show ?thesis unfolding unat_PDX by (auto simp: less_eq_div_iff_mult_less_eq div_less_iff_less_mult)
  qed
  then have "unat ` PDX ` {va. \<exists>k \<in> set (kmap dat). km_in k va} \<subseteq> ?I" by blast
  then have "card (unat ` PDX ` {va. \<exists>k \<in> set (kmap dat). km_in k va}) \<le> card ?I" by (intro card_mono) auto
  moreover have "card ?I = 64" by (subst card_Un_disjoint) auto
  ultimately show ?thesis by (simp add: card_image inj_on_def word_unat_eq_iff)
qed

lemma setupkvm_spec:
  fixes s :: "'z mstate_scheme"
  assumes f: "free_pages s xs" and dat: "data_ok (kdata s)"
  shows "\<exists>d t ys. setupkvm s = Done d t \<and> mframe s t \<and> suffix ys xs \<and>
    (\<forall>b. (\<forall>x \<in> set xs. \<not> in_page x b) \<longrightarrow> mem t b = mem s b) \<and>
    (d = 0 \<and> free_pages t ys \<and> length xs \<le> 65 \<or>
     d \<in> set xs \<and> pgdir_ok t ys d \<and> length xs \<le> length ys + 65 \<and> (\<forall>p. pt_page t ys d p \<longrightarrow> p \<in> set xs) \<and> (\<forall>va. pte_of (mem t) d va = kernel_pte (kdata s) va))"
proof (cases xs)
  case Nil
  then have "kalloc s = Done 0 s" using km.alloc_nil f by blast
  then have "setupkvm s = Done 0 s" by (simp add: setupkvm_def kop_simps)
  then show ?thesis using f Nil km.frame_refl by auto
next
  case (Cons d zs)
  obtain s1 where s1: "kalloc s = Done d s1" "free_pages s1 zs" "mframe s s1" "mem s1 = mem s"
    using km.alloc_cons f Cons by blast
  have d: "page_ok s d" "d \<notin> set zs" "pg_aligned d" "d \<noteq> 0" and al: "\<And>x. x \<in> set zs \<Longrightarrow> pg_aligned x"
    using f Cons by (auto simp: free_pages_def page_ok_def)
  let ?u = "upd_mem (memset d 0 PGSIZE) s1"
  have m: "mem ?u b = (if in_page d b then 0 else mem s b)" for b
    by (simp add: upd_mem_def s1(4) memset_eq in_page_def)
  have fr: "mframe s ?u" using km.poke_law km.frame_trans s1(3) by blast
  have "free_pages ?u zs" using d al in_page_unique [OF d(3)]
    by (intro free_pages_cong [OF s1(2)]) (auto simp: m s1(4), auto simp: upd_mem_def)
  then have ok: "pgdir_ok ?u zs d" "\<And>va. pte_of (mem ?u) d va = 0" "\<And>va. \<not> has_table (mem ?u) d va"
    using fresh_pgdir [of ?u zs d] d m km.frame_okpg [OF fr] by auto
  have e: "setupkvm s = setupkvm_loop d (kmap (kdata s)) ?u"
    using s1(1) d(4) fr by (simp add: setupkvm_def kmemset_def kop_simps mframe_def layout_defs)
  obtain r t ys where t: "setupkvm_loop d (kmap (kdata s)) ?u = Done r t" "pgdir_ok t ys d" "pt_frame ?u zs d t ys"
    "tables (mem t) d \<subseteq> tables (mem ?u) d \<union> PDX ` {va. \<exists>k \<in> set (kmap (kdata s)). km_in k va}"
    "r = 0 \<and> ys = [] \<or> r = d \<and> (\<forall>va. pte_of (mem t) d va =
       (case find (\<lambda>k. km_in k va) (kmap (kdata s)) of None \<Rightarrow> pte_of (mem ?u) d va | Some k \<Rightarrow> km_pte k va))"
    using setupkvm_loop_spec [OF ok(1) _ _ kmap_disjoint [OF dat]] kmap_intervals(2) [OF dat] ok(2) by force
  have "mframe s t" "suffix ys xs" using km.frame_trans fr t(3) by (auto simp: pt_frame_def Cons suffix_ConsI)
  moreover have "mem t b = mem s b" if "\<forall>x \<in> set xs. \<not> in_page x b" for b
    using that t(3) m ok(3) by (auto simp: Cons pt_frame_def pt_page_def)
  moreover have "free_pages t ys" using pgdir_okD(1) [OF t(2)] .
  moreover have "tables (mem ?u) d = {}" using ok(3) by (simp add: tables_def)
  then have "card (tables (mem t) d) \<le> 64"
    using t(4) kernel_tables [OF dat] card_mono [OF _ t(4)] by (simp add: finite_subset [OF subset_UNIV])
  then have "length zs \<le> length ys + 64" using t(3) \<open>tables (mem ?u) d = {}\<close> by (simp add: pt_frame_def)
  moreover have "p \<in> set xs" if "pt_page t ys d p" for p using that t(3) ok(3) by (auto simp: pt_frame_def pt_page_def Cons)
  ultimately show ?thesis using t(1,2,5) kmap_pte [OF dat] unfolding e ok(2) Cons
    by (intro exI [of _ r] exI [of _ t] exI [of _ ys]) auto
qed

section \<open>What the processor sees\<close>

lemma entry_translate:
  assumes e: "pte_of m d va = v2p x OR f OR PTE_P" and x: "pg_aligned x" and f: "\<And>n. 12 \<le> n \<Longrightarrow> \<not> bit f n"
  shows "translate m d w va = (if w \<and> f AND PTE_W = 0 then None else Some (x + (va AND 0xFFF)))"
proof -
  let ?e = "v2p x OR f OR PTE_P"
  have al: "pg_aligned (v2p x)" using x aligned_shift(1) by blast
  have a: "PTE_ADDR ?e = v2p x"
    using f by (intro PTE_ADDR_flags [OF al]) (auto simp: bit_or_iff flag_bits)
  have p: "?e AND PTE_P \<noteq> 0" by (simp add: present_iff bit_or_iff flag_bits)
  have "?e AND PTE_W \<noteq> 0 \<longleftrightarrow> f AND PTE_W \<noteq> 0"
    using al unfolding writable_iff pg_aligned_bits bit_or_iff flag_bits by simp
  then show ?thesis using p unfolding translate_pte e Let_def a by simp
qed

lemma PTE_FLAGS_bit: "bit (PTE_FLAGS e) n \<longleftrightarrow> n < 12 \<and> bit e n"
  unfolding PTE_FLAGS_def bit_and_iff bit_low by auto

lemma offset_less: "unat (va AND 0xFFF :: uint) < 4096" "PGROUNDDOWN va + (va AND 0xFFF) = va"
proof -
  have e: "va AND 0xFFF = va mod PGSIZE" for va :: uint
  proof -
    have "(0xFFF :: uint) = mask 12" by (simp add: mask_eq_exp_minus_1)
    then show ?thesis using take_bit_eq_mask [of 12 va] by (simp only: PGSIZE_def) (simp add: take_bit_eq_mod)
  qed
  show "unat (va AND 0xFFF :: uint) < 4096" unfolding e by (simp add: PGSIZE_def unat_mod_distrib)
  show "PGROUNDDOWN va + (va AND 0xFFF) = va" unfolding e PGROUNDDOWN_eq by simp
qed

lemma kernel_translate:
  assumes e: "pte_of m d va = kernel_pte dat va"
  shows "translate m d w va =
    (if KERNBASE \<le> va \<and> va < KERNBASE + PHYSTOP then if w \<and> KERNLINK \<le> va \<and> va < dat then None else Some va
     else if DEVSPACE \<le> va then Some (p2v va) else None)"
proof -
  have W: "\<And>n. 12 \<le> n \<Longrightarrow> \<not> bit PTE_W n" "PTE_W AND PTE_W \<noteq> 0" by (simp_all add: flag_bits) (simp add: PTE_W_def)
  have "p2v (PGROUNDDOWN va) + (va AND 0xFFF) = p2v (PGROUNDDOWN va + (va AND 0xFFF))" by (simp add: p2v_def)
  then have p: "p2v (PGROUNDDOWN va) + (va AND 0xFFF) = p2v va" unfolding offset_less .
  have al: "pg_aligned (p2v (PGROUNDDOWN va))" by (simp add: aligned_shift)
  consider "KERNBASE \<le> va \<and> va < KERNBASE + PHYSTOP" "KERNLINK \<le> va \<and> va < dat"
    | "KERNBASE \<le> va \<and> va < KERNBASE + PHYSTOP" "\<not> (KERNLINK \<le> va \<and> va < dat)"
    | "\<not> (KERNBASE \<le> va \<and> va < KERNBASE + PHYSTOP)" "DEVSPACE \<le> va"
    | "\<not> (KERNBASE \<le> va \<and> va < KERNBASE + PHYSTOP)" "\<not> DEVSPACE \<le> va" by blast
  then show ?thesis
  proof cases
    case 1
    then have "pte_of m d va = v2p (PGROUNDDOWN va) OR 0 OR PTE_P" unfolding e kernel_pte_def by simp
    from entry_translate [OF this PGROUNDDOWN_aligned] 1 show ?thesis by (simp add: offset_less)
  next
    case 2
    then have "pte_of m d va = v2p (PGROUNDDOWN va) OR PTE_W OR PTE_P" unfolding e kernel_pte_def by (simp only: if_True if_False simp_thms)
    from entry_translate [OF this PGROUNDDOWN_aligned W(1)] 2 W(2) show ?thesis by (simp only: offset_less if_True if_False simp_thms)
  next
    case 3
    then have "pte_of m d va = v2p (p2v (PGROUNDDOWN va)) OR PTE_W OR PTE_P" unfolding e kernel_pte_def by (simp only: if_True if_False simp_thms v2p_p2v)
    from entry_translate [OF this al W(1)] 3 W(2) show ?thesis by (simp only: p if_True if_False simp_thms)
  next
    case 4
    then have "pte_of m d va = 0" unfolding e kernel_pte_def by (simp only: if_False simp_thms)
    with 4 show ?thesis by (simp add: translate_pte)
  qed
qed

lemma kernel_pte_not_user: "kernel_pte dat va AND PTE_U = 0"
proof -
  have "\<not> bit (x OR f OR PTE_P) 2" if "pg_aligned x" "\<not> bit f 2" for x f :: uint
    using that by (simp add: pg_aligned_bits bit_or_iff flag_bits)
  moreover have "pg_aligned (v2p (PGROUNDDOWN va))" "pg_aligned (PGROUNDDOWN va)" by (simp_all add: aligned_shift)
  moreover have "\<not> bit PTE_W 2" "\<not> bit (0 :: uint) 2" by (simp_all add: flag_bits)
  ultimately have "\<not> bit (kernel_pte dat va) 2" unfolding kernel_pte_def by (auto split: if_splits)
  then show ?thesis using flag_iff [OF flag_bits(3)] by blast
qed

text \<open>A machine after \<open>kinit1\<close>: the pages up to 4 Mbyte are free.\<close>

lemma demo_free:
  "\<exists>(s :: mstate) xs. free_pages s xs \<and> data_ok (kdata s) \<and> 400 < length xs \<and> kdata s = 0x80200000 \<and> KERNBASE < kend s"
proof -
  let ?s = "demo_mem 0x80200000" and ?e = "0x80400000 :: uint"
  have "free_pages ?s []" by (simp add: free_pages_def demo_mem_def)
  from freerange_spec [OF this, of "0x80200000" ?e] obtain s' ys where
    s': "free_pages s' ys" "mframe ?s s'" "set ys = {v. pg_aligned v \<and> 0x80200000 \<le> unat v \<and> unat v < 0x80400000}"
    by (auto simp: demo_mem_def layout_defs pg_aligned_def PGSIZE_def)
  let ?f = "\<lambda>i :: nat. 0x80200000 + of_nat i * (4096 :: uint)"
  have u: "unat (?f i) = 0x80200000 + i * 4096" if "i < 512" for i
    using that by (simp add: unat_word_ariths unat_of_nat_uint)
  have sub: "?f ` {..<512} \<subseteq> set ys" using u unfolding s'(3) by (auto simp: pg_aligned_unat)
  have "inj_on ?f {..<512}"
  proof (rule inj_onI)
    fix i j :: nat assume ij: "i \<in> {..<512}" "j \<in> {..<512}" and e: "?f i = ?f j"
    have "i < 512" "j < 512" using ij by simp_all
    from arg_cong [OF e, of unat] have "0x80200000 + i * 4096 = 0x80200000 + j * (4096 :: nat)"
      unfolding u [OF \<open>i < 512\<close>] u [OF \<open>j < 512\<close>] .
    then show "i = j" by simp
  qed
  from card_image [OF this] have "512 \<le> card (set ys)" using card_mono [OF finite_set sub] by simp
  moreover have k: "kdata s' = 0x80200000" "KERNBASE < kend s'"
    using s'(2) by (simp_all add: mframe_def demo_mem_def KERNBASE_def)
  ultimately have "data_ok (kdata s')" "400 < length ys"
    using card_length [of ys] by (simp_all add: data_ok_def layout_defs pg_aligned_def PGSIZE_def)
  then show ?thesis using s'(1) k by blast
qed

section \<open>Properties\<close>

text \<open>
  C16. With at least 66 free pages \<open>setupkvm\<close> builds the kernel part of an address space: kernel addresses up to
  \<open>PHYSTOP\<close> are the physical memory, the kernel's text and read-only data cannot be written, the device addresses
  map to themselves, nothing else is mapped and nothing is open to user code. At most 65 pages are used, all of
  them free before, and no other byte of memory changes.
\<close>

theorem setupkvm_maps_kernel:
  assumes "free_pages s xs" "data_ok (kdata s)" "65 < length xs"
  shows "\<exists>d t ys. setupkvm s = Done d t \<and> d \<in> set xs \<and> pgdir_ok t ys d \<and> length xs \<le> length ys + 65 \<and>
    (\<forall>b. (\<forall>x \<in> set xs. \<not> in_page x b) \<longrightarrow> mem t b = mem s b) \<and>
    (\<forall>va. pte_of (mem t) d va AND PTE_U = 0) \<and>
    (\<forall>va w. translate (mem t) d w va =
       (if KERNBASE \<le> va \<and> va < KERNBASE + PHYSTOP then if w \<and> KERNLINK \<le> va \<and> va < kdata s then None else Some va
        else if DEVSPACE \<le> va then Some (p2v va) else None))"
proof -
  obtain d t ys where t: "setupkvm s = Done d t" "\<forall>b. (\<forall>x \<in> set xs. \<not> in_page x b) \<longrightarrow> mem t b = mem s b" "d \<in> set xs"
    "pgdir_ok t ys d" "length xs \<le> length ys + 65" "\<And>va. pte_of (mem t) d va = kernel_pte (kdata s) va"
    using setupkvm_spec [OF assms(1,2)] assms(3) by (metis not_le)
  then show ?thesis using kernel_translate [OF t(6)] kernel_pte_not_user
    by (intro exI [of _ d] exI [of _ t] exI [of _ ys] conjI allI) (blast | simp only:)+
qed

theorem setupkvm_maps_kernel_witness:
  "\<exists>(s :: mstate) xs d t. free_pages s xs \<and> setupkvm s = Done d t \<and>
     translate (mem t) d True 0x80300123 = Some 0x80300123 \<and> translate (mem t) d False 0x1000 = None"
proof -
  obtain s :: mstate and xs where s: "free_pages s xs" "data_ok (kdata s)" "400 < length xs" "kdata s = 0x80200000"
    using demo_free by blast
  have l: "65 < length xs" using s(3) by simp
  obtain d t where t: "setupkvm s = Done d t" "\<forall>va w. translate (mem t) d w va =
       (if KERNBASE \<le> va \<and> va < KERNBASE + PHYSTOP then if w \<and> KERNLINK \<le> va \<and> va < kdata s then None else Some va
        else if DEVSPACE \<le> va then Some (p2v va) else None)"
    using setupkvm_maps_kernel [OF s(1,2) l] by blast
  then have "translate (mem t) d True 0x80300123 = Some 0x80300123" "translate (mem t) d False 0x1000 = None"
    by (simp_all add: s(4) layout_defs)
  then show ?thesis using s(1) t(1) by blast
qed

end
