(* ===== verification/User_Memory.thy ===== *)
theory User_Memory
  imports Paging
begin

text \<open>
  The user part of an address space (vm.c): \<open>allocuvm\<close> and \<open>copyuvm\<close> add pages that were free, one after the other.
  What a run of such steps has done is \<open>fresh_pages\<close>; the steps compose by \<open>fresh_Suc\<close>.
\<close>

section \<open>Pages of one's own\<close>

lemma pt_page_aligned: "pgdir_ok s xs d \<Longrightarrow> pt_page s xs d p \<Longrightarrow> pg_aligned p"
  using pgdir_okD(1,2) by (fastforce simp: pt_page_def free_pages_def page_ok_def)

text \<open>Writing to a page that is neither free nor part of the page table.\<close>

lemma same_entries:
  assumes d: "pg_aligned d" "\<And>b. in_page d b \<Longrightarrow> m' b = m b"
    and t: "\<And>va b. has_table m d va \<Longrightarrow> in_page (table m d va) b \<Longrightarrow> m' b = m b"
  shows "has_table m' d va = has_table m d va" "table m' d va = table m d va" "pte_of m' d va = pte_of m d va"
proof -
  have pde: "pde_of m' d va = pde_of m d va" for va
    unfolding pde_of_def by (rule ld32_page_cong [OF d(2,1) index_less(1)])
  note tab = tables_cong [of m' d m, OF pde]
  show "has_table m' d va = has_table m d va" "table m' d va = table m d va" by (rule tab)+
  show "pte_of m' d va = pte_of m d va"
  proof (cases "has_table m d va")
    case True
    have "ld32 m' (table m d va + 4 * PTX va) = ld32 m (table m d va + 4 * PTX va)"
      by (rule ld32_page_cong [OF t [OF True] table_aligned index_less(2)])
    then show ?thesis by (simp add: pte_of_def tab)
  qed (simp add: pte_of_def tab)
qed

lemma own_page_write:
  assumes ok: "pgdir_ok s xs d" and x: "pg_aligned x" "\<not> pt_page s xs d x"
    and f: "\<And>b. \<not> in_page x b \<Longrightarrow> f (mem s) b = mem s b"
  shows "pgdir_ok (upd_mem f s) xs d" "pt_page (upd_mem f s) xs d = pt_page s xs d"
    "pte_of (mem (upd_mem f s)) d va = pte_of (mem s) d va" "has_table (mem (upd_mem f s)) d va = has_table (mem s) d va"
proof -
  let ?u = "upd_mem f s"
  have m: "mem ?u = f (mem s)" and fr: "mframe s ?u" using km.poke_law by blast+
  have same: "mem ?u b = mem s b" if "pt_page s xs d p" "in_page p b" for p b
    using that f [of b] in_page_unique [OF x(1) pt_page_aligned [OF ok that(1)]] x(2) unfolding m by metis
  have e: "has_table (mem ?u) d va = has_table (mem s) d va" "table (mem ?u) d va = table (mem s) d va"
    "pte_of (mem ?u) d va = pte_of (mem s) d va" for va
    using same by (intro same_entries pgdir_okD(2) [OF ok]; auto simp: pt_page_def)+
  have "free_pages ?u xs" using same unfolding m by (intro km.poke_frees [OF pgdir_okD(1) [OF ok]]) (auto simp: pt_page_def)
  then show "pgdir_ok ?u xs d" using ok unfolding pgdir_ok_def e(1,2) km.frame_okpg [OF fr] by blast
  show "pt_page ?u xs d = pt_page s xs d" unfolding pt_page_def e ..
  show "pte_of (mem ?u) d va = pte_of (mem s) d va" "has_table (mem ?u) d va = has_table (mem s) d va" by (rule e)+
qed

lemma take_page:
  assumes ok: "pgdir_ok s (x # xs) d"
  shows "\<exists>t. kalloc s = Done x t \<and> mem t = mem s \<and> mframe s t \<and> pgdir_ok t xs d \<and> \<not> pt_page t xs d x"
    "pg_aligned x" "x \<noteq> 0"
proof -
  obtain t where t: "kalloc s = Done x t" "free_pages t xs" "mframe s t" "mem t = mem s"
    using km.alloc_cons pgdir_okD(1) [OF ok] by blast
  have "pgdir_ok t xs d" using ok t(2) unfolding pgdir_ok_def t(4) km.frame_okpg [OF t(3)] list.set by blast
  moreover have "x \<notin> set xs" using pgdir_okD(1) [OF ok] by (simp add: free_pages_def)
  then have "\<not> pt_page t xs d x" using pgdir_okD(3,6) [OF ok] unfolding pt_page_def t(4) by (metis list.set_intros(1))
  ultimately show "\<exists>t. kalloc s = Done x t \<and> mem t = mem s \<and> mframe s t \<and> pgdir_ok t xs d \<and> \<not> pt_page t xs d x" using t by blast
  show "pg_aligned x" "x \<noteq> 0" using pgdir_okD(1) [OF ok] by (auto simp: free_pages_def page_ok_def)
qed

text \<open>Mapping one page when there is a free page for a table, and when there is none.\<close>

lemma mappages_page:
  assumes a: "pg_aligned a"
  shows "mappages d a PGSIZE pa perm = mappages_loop (Suc 0) d a a pa perm"
proof -
  have "npages a PGSIZE = 1" using a by (subst npages_exact) (simp_all add: pg_aligned_def PGSIZE_def)
  then have n: "npages a PGSIZE = Suc 0" by simp
  have l: "PGROUNDDOWN (a + PGSIZE - 1) = PGROUNDDOWN a + of_nat 0 * PGSIZE" by (rule npages_end(1) [OF n [symmetric]])
  show ?thesis unfolding mappages_def Let_def npages_def [symmetric] n l PGROUNDDOWN_id [OF a] by simp
qed

lemma map_page_full:
  assumes "pgdir_ok s [] d" "pg_aligned a" "\<not> has_table (mem s) d a"
  shows "mappages d a PGSIZE pa perm s = Done (- 1) s"
proof -
  have "kalloc s = Done 0 s" using km.alloc_nil pgdir_okD(1) [OF assms(1)] by blast
  then have "walkpgdir d a True s = Done 0 s"
    using assms(3) by (simp add: walkpgdir_def kload_def kop_simps has_table_def pde_of_def)
  then show ?thesis unfolding mappages_page [OF assms(2)] by (simp add: kop_simps)
qed

lemma map_page:
  fixes s :: "'z mstate_scheme"
  assumes ok: "pgdir_ok s xs d" and a: "pg_aligned a" "pte_of (mem s) d a AND PTE_P = 0" and xs: "xs \<noteq> []"
  shows "\<exists>u ys. mappages d a PGSIZE pa perm s = Done 0 u \<and> pgdir_ok u ys d \<and> pt_frame s xs d u ys \<and>
    length xs \<le> Suc (length ys) \<and>
    (\<forall>va. pte_of (mem u) d va = (if PGROUNDDOWN va = a then pa OR perm OR PTE_P else pte_of (mem s) d va))"
  using map_one [OF ok a(2), of 0 a pa perm] xs unfolding PGROUNDDOWN_id [OF a(1)] mappages_page [OF a(1)]
  by (simp del: mappages_loop.simps split del: if_split) blast

section \<open>A run of new pages\<close>

text \<open>
  From \<open>s\<close> with the free pages \<open>xs\<close> to \<open>t\<close> with \<open>ys\<close>, the page table \<open>d\<close> got \<open>n\<close> pages from \<open>a\<close> on: each has a frame of its
  own that was free and is no longer, with the given permissions and contents. No other entry changed, and no
  byte outside the free pages and the page table.
\<close>

definition fresh_pages :: "'z mstate_scheme \<Rightarrow> uint list \<Rightarrow> uint \<Rightarrow> 'z mstate_scheme \<Rightarrow> uint list \<Rightarrow> uint \<Rightarrow> nat \<Rightarrow>
    (uint \<Rightarrow> uint) \<Rightarrow> (uint \<Rightarrow> nat \<Rightarrow> uchar) \<Rightarrow> bool" where
  "fresh_pages s xs d t ys a n perm C \<longleftrightarrow> pgdir_ok t ys d \<and> mframe s t \<and> set ys \<subseteq> set xs \<and>
     (\<forall>p. pt_page t ys d p \<longrightarrow> pt_page s xs d p) \<and>
     (\<forall>b. (\<forall>p. pt_page s xs d p \<longrightarrow> \<not> in_page p b) \<longrightarrow> mem t b = mem s b) \<and>
     (\<exists>fr. (\<forall>va. pte_of (mem t) d va = (if in_range a n va
           then v2p (fr (PGROUNDDOWN va)) OR perm (PGROUNDDOWN va) OR PTE_P else pte_of (mem s) d va)) \<and>
        (\<forall>va. in_range a n va \<longrightarrow> fr (PGROUNDDOWN va) \<in> set xs \<and> \<not> pt_page t ys d (fr (PGROUNDDOWN va)) \<and>
           (\<forall>i < 4096. mem t (fr (PGROUNDDOWN va) + of_nat i) = C (PGROUNDDOWN va) i)) \<and>
        (\<forall>va vb. in_range a n va \<longrightarrow> in_range a n vb \<longrightarrow> fr (PGROUNDDOWN va) = fr (PGROUNDDOWN vb) \<longrightarrow>
           PGROUNDDOWN va = PGROUNDDOWN vb))"

lemma fresh_0: "pgdir_ok s xs d \<Longrightarrow> fresh_pages s xs d s xs a 0 perm C"
  by (simp add: fresh_pages_def km.frame_refl)

lemma in_range_1: "pg_aligned a \<Longrightarrow> in_range a (Suc 0) va \<longleftrightarrow> PGROUNDDOWN va = a"
  using in_range_Suc(1) [of a 0 va] by simp

text \<open>One page: taken from the allocator, filled by \<open>f\<close>, mapped.\<close>

lemma fresh_one:
  fixes s :: "'z mstate_scheme"
  assumes ok: "pgdir_ok s xs d" and a: "pg_aligned a" "pte_of (mem s) d a AND PTE_P = 0" and len: "2 \<le> length xs"
    and f: "\<And>x m b. x \<in> set xs \<Longrightarrow> \<not> in_page x b \<Longrightarrow> f x m b = m b" "\<And>x i. x \<in> set xs \<Longrightarrow> i < 4096 \<Longrightarrow> f x (mem s) (x + of_nat i) = C a i"
  shows "\<exists>x s1 u ys. kalloc s = Done x s1 \<and> x \<noteq> 0 \<and> mem s1 = mem s \<and> mframe s s1 \<and>
    mappages d a PGSIZE (v2p x) (perm a) (upd_mem (f x) s1) = Done 0 u \<and>
    fresh_pages s xs d u ys a (Suc 0) perm C \<and> length xs \<le> length ys + 2"
proof -
  obtain x zs where xs: "xs = x # zs" "zs \<noteq> []" using len by (cases xs; cases "tl xs") auto
  obtain s1 where s1: "kalloc s = Done x s1" "mem s1 = mem s" "mframe s s1" "pgdir_ok s1 zs d" "\<not> pt_page s1 zs d x"
    and x: "pg_aligned x" "x \<noteq> 0" using take_page [OF ok [unfolded xs(1)]] by blast
  let ?w = "upd_mem (f x) s1"
  have fx: "\<And>b. \<not> in_page x b \<Longrightarrow> f x (mem s1) b = mem s1 b" by (rule f(1)) (simp_all add: xs)
  have w: "pgdir_ok ?w zs d" "pt_page ?w zs d = pt_page s1 zs d" "\<And>va. pte_of (mem ?w) d va = pte_of (mem s1) d va"
    by (rule own_page_write [OF s1(4) x(1) s1(5)], erule fx)+
  have wm: "mem ?w b = f x (mem s) b" for b by (simp add: upd_mem_def s1(2))
  obtain u ys where u: "mappages d a PGSIZE (v2p x) (perm a) ?w = Done 0 u" "pgdir_ok u ys d" "pt_frame ?w zs d u ys"
    "length zs \<le> Suc (length ys)"
    "\<And>va. pte_of (mem u) d va = (if PGROUNDDOWN va = a then v2p x OR perm a OR PTE_P else pte_of (mem ?w) d va)"
    using map_page [OF w(1) a(1) _ xs(2)] a(2) w(3) s1(2) by (metis (no_types, lifting))
  have fr: "mframe s u" using s1(3) u(3) km.poke_law km.frame_trans unfolding pt_frame_def by blast
  have sub: "pt_page s xs d p" if "pt_page s1 zs d p" for p using that by (auto simp: pt_page_def xs s1(2))
  have sub2: "pt_page s1 zs d p" if "pt_page u ys d p" for p using that u(3) unfolding pt_frame_def w(2) by blast
  have keep: "mem u b = mem ?w b" if "\<And>p. pt_page s1 zs d p \<Longrightarrow> \<not> in_page p b" for b
    using that u(3) unfolding pt_frame_def w(2) by blast
  have out: "mem u b = mem s b" if "\<forall>p. pt_page s xs d p \<longrightarrow> \<not> in_page p b" for b
  proof -
    have "\<not> in_page x b" using that by (simp add: pt_page_def xs)
    then show ?thesis using keep [of b] that sub f(1) [of x b] unfolding wm xs by (metis list.set_intros(1))
  qed
  have "mem u (x + of_nat i) = C a i" if "i < 4096" for i
  proof -
    have "\<not> in_page p (x + of_nat i)" if "pt_page s1 zs d p" for p
      using that s1(5) pages_apart [OF pt_page_aligned [OF s1(4) that] x(1)] \<open>i < 4096\<close> by metis
    then show ?thesis using keep f(2) [of x i] that unfolding wm xs by simp
  qed
  moreover have "\<not> pt_page u ys d x" using sub2 s1(5) by blast
  moreover have "set ys \<subseteq> set xs" using u(3) set_mono_suffix [of ys zs] unfolding pt_frame_def xs by auto
  ultimately have "fresh_pages s xs d u ys a (Suc 0) perm C"
    unfolding fresh_pages_def in_range_1 [OF a(1)] using u(2,5) fr sub sub2 out w(3) s1(2)
    by (intro conjI exI [of _ "\<lambda>_. x"]) (auto simp: xs)
  then show ?thesis using s1 x u(1,4) xs by (intro exI [of _ x] exI [of _ s1] exI [of _ u] exI [of _ ys]) simp
qed

lemma fresh_Suc:
  fixes s :: "'z mstate_scheme"
  assumes ok: "pgdir_ok s xs d" and a: "pg_aligned a" and n: "n < 2 ^ 20"
    and one: "fresh_pages s xs d u ys a (Suc 0) perm C" and more: "fresh_pages u ys d t zs (a + PGSIZE) n perm C"
  shows "fresh_pages s xs d t zs a (Suc n) perm C"
proof -
  obtain fr where fr0: "\<forall>va. pte_of (mem u) d va = (if PGROUNDDOWN va = a
        then v2p (fr (PGROUNDDOWN va)) OR perm (PGROUNDDOWN va) OR PTE_P else pte_of (mem s) d va)"
      "\<forall>va. PGROUNDDOWN va = a \<longrightarrow> fr (PGROUNDDOWN va) \<in> set xs \<and> \<not> pt_page u ys d (fr (PGROUNDDOWN va)) \<and>
        (\<forall>i < 4096. mem u (fr (PGROUNDDOWN va) + of_nat i) = C (PGROUNDDOWN va) i)"
    and u: "pgdir_ok u ys d" "mframe s u" "set ys \<subseteq> set xs" "\<And>p. pt_page u ys d p \<Longrightarrow> pt_page s xs d p"
      "\<And>b. (\<And>p. pt_page s xs d p \<Longrightarrow> \<not> in_page p b) \<Longrightarrow> mem u b = mem s b"
    using one unfolding fresh_pages_def in_range_1 [OF a] by blast
  have fr: "pte_of (mem u) d va = (if PGROUNDDOWN va = a then v2p (fr a) OR perm a OR PTE_P else pte_of (mem s) d va)"
      "fr a \<in> set xs" "\<not> pt_page u ys d (fr a)" "i < 4096 \<Longrightarrow> mem u (fr a + of_nat i) = C a i" for va i
    using fr0(1) fr0(2) [rule_format, OF PGROUNDDOWN_id [OF a]] unfolding PGROUNDDOWN_id [OF a] by auto
  obtain gr where gr: "\<And>va. pte_of (mem t) d va = (if in_range (a + PGSIZE) n va
        then v2p (gr (PGROUNDDOWN va)) OR perm (PGROUNDDOWN va) OR PTE_P else pte_of (mem u) d va)"
      "\<And>va. in_range (a + PGSIZE) n va \<Longrightarrow> gr (PGROUNDDOWN va) \<in> set ys \<and> \<not> pt_page t zs d (gr (PGROUNDDOWN va)) \<and>
        (\<forall>i < 4096. mem t (gr (PGROUNDDOWN va) + of_nat i) = C (PGROUNDDOWN va) i)"
      "\<And>va vb. in_range (a + PGSIZE) n va \<Longrightarrow> in_range (a + PGSIZE) n vb \<Longrightarrow>
        gr (PGROUNDDOWN va) = gr (PGROUNDDOWN vb) \<Longrightarrow> PGROUNDDOWN va = PGROUNDDOWN vb"
    and t: "pgdir_ok t zs d" "mframe u t" "set zs \<subseteq> set ys" "\<And>p. pt_page t zs d p \<Longrightarrow> pt_page u ys d p"
      "\<And>b. (\<And>p. pt_page u ys d p \<Longrightarrow> \<not> in_page p b) \<Longrightarrow> mem t b = mem u b"
    using more unfolding fresh_pages_def by blast
  define hr where "hr p = (if p = a then fr a else gr p)" for p
  have ne: "PGROUNDDOWN va \<noteq> a" if "in_range (a + PGSIZE) n va" for va using in_range_Suc(2) [OF a n that] .
  have fa: "pg_aligned (fr a)" using fr(2) pgdir_okD(1) [OF ok] by (auto simp: free_pages_def page_ok_def)
  have ca: "mem t (fr a + of_nat i) = C a i" if "i < 4096" for i
    using t(5) [of "fr a + of_nat i"] pages_apart [OF pt_page_aligned [OF u(1)] fa _ that] fr(3) fr(4) [OF that] by metis
  have gn: "gr (PGROUNDDOWN va) \<noteq> fr a" if "in_range (a + PGSIZE) n va" for va
    using gr(2) [OF that] fr(3) by (auto simp: pt_page_def)
  have "pte_of (mem t) d va = (if in_range a (Suc n) va
      then v2p (hr (PGROUNDDOWN va)) OR perm (PGROUNDDOWN va) OR PTE_P else pte_of (mem s) d va)" for va
    using ne [of va] unfolding gr(1) fr(1) in_range_Suc(1) [OF a n] hr_def by auto
  moreover have "hr (PGROUNDDOWN va) \<in> set xs \<and> \<not> pt_page t zs d (hr (PGROUNDDOWN va)) \<and>
      (\<forall>i < 4096. mem t (hr (PGROUNDDOWN va) + of_nat i) = C (PGROUNDDOWN va) i)" if "in_range a (Suc n) va" for va
  proof (cases "PGROUNDDOWN va = a")
    case True
    then show ?thesis using fr(2,3) ca t(4) unfolding hr_def by auto
  next
    case False
    then show ?thesis using that gr(2) [of va] u(3) unfolding in_range_Suc(1) [OF a n] hr_def by auto
  qed
  moreover have "PGROUNDDOWN va = PGROUNDDOWN vb" if "in_range a (Suc n) va" "in_range a (Suc n) vb"
      "hr (PGROUNDDOWN va) = hr (PGROUNDDOWN vb)" for va vb
    using that gr(3) [of va vb] gn ne unfolding in_range_Suc(1) [OF a n] hr_def by (metis (full_types))
  ultimately show ?thesis unfolding fresh_pages_def
    using t u km.frame_trans by (intro conjI exI [of _ hr]) (blast | metis)+
qed

section \<open>Growing a process\<close>

text \<open>The number of pages from \<open>a\<close> on that are needed for the addresses below \<open>sz\<close>.\<close>

definition grow_pages :: "uint \<Rightarrow> uint \<Rightarrow> nat" where
  "grow_pages a sz = (unat sz - unat a + 4095) div 4096"

lemma grow_pages_step:
  assumes "a < sz" "sz < KERNBASE"
  shows "unat (a + PGSIZE) = unat a + 4096" "grow_pages a sz = Suc (grow_pages (a + PGSIZE) sz)" "grow_pages a sz < 2 ^ 20"
proof -
  have b: "unat a < unat sz" "unat sz < 0x80000000" using assms by (simp_all add: word_less_nat_alt KERNBASE_def)
  then show u: "unat (a + PGSIZE) = unat a + 4096" by (subst unat_add_lem [THEN iffD1]) (simp_all add: PGSIZE_def)
  have c: "unat sz - unat a + 4095 = unat sz - unat a - 1 + 4096" using b by simp
  show "grow_pages a sz = Suc (grow_pages (a + PGSIZE) sz)"
  proof (cases "unat a + 4096 \<le> unat sz")
    case True
    then have "unat sz - unat a + 4095 = (unat sz - (unat a + 4096) + 4095) + 4096" by simp
    then show ?thesis unfolding grow_pages_def u by (simp only: div_add_self2)
  next
    case False
    then have "(unat sz - unat a - 1) div 4096 = 0" "unat sz - (unat a + 4096) = 0" by simp_all
    then show ?thesis unfolding grow_pages_def u c by (simp only: div_add_self2)
  qed
  have "unat sz - unat a + 4095 < 4096 * 2 ^ 20" using b by simp
  then show "grow_pages a sz < 2 ^ 20" unfolding grow_pages_def by (simp add: less_mult_imp_div_less)
qed

lemma grow_pages_0: "\<not> a < sz \<Longrightarrow> grow_pages a sz = 0"
  by (simp add: grow_pages_def not_less word_le_nat_alt)

lemma unmapped_next:
  assumes "pg_aligned a" "n < 2 ^ 20" "\<And>va. in_range a (Suc n) va \<Longrightarrow> pte_of (mem s) d va AND PTE_P = 0"
    and "fresh_pages s xs d u ys a (Suc 0) perm C"
  shows "in_range (a + PGSIZE) n va \<Longrightarrow> pte_of (mem u) d va AND PTE_P = 0"
proof -
  assume r: "in_range (a + PGSIZE) n va"
  then have "PGROUNDDOWN va \<noteq> a" "in_range a (Suc n) va" using in_range_Suc [OF assms(1,2)] by blast+
  moreover from this have "pte_of (mem u) d va = pte_of (mem s) d va"
    using assms(4) unfolding fresh_pages_def in_range_1 [OF assms(1)] by metis
  ultimately show ?thesis using assms(3) by simp
qed

lemma allocuvm_loop_spec:
  fixes s :: "'z mstate_scheme"
  assumes "pgdir_ok s xs d" "pg_aligned a" "grow_pages a newsz \<le> f" "newsz < KERNBASE"
    "\<And>va. in_range a (grow_pages a newsz) va \<Longrightarrow> pte_of (mem s) d va AND PTE_P = 0" "2 * grow_pages a newsz \<le> length xs"
  shows "\<exists>t ys. allocuvm_loop f d a oldsz newsz s = Done newsz t \<and>
    fresh_pages s xs d t ys a (grow_pages a newsz) (\<lambda>_. PTE_W OR PTE_U) (\<lambda>_ _. 0) \<and>
    length xs \<le> length ys + 2 * grow_pages a newsz"
  using assms
proof (induction f arbitrary: a s xs)
  case 0
  then have "\<not> a < newsz" using grow_pages_step(2) [of a newsz] by auto
  then show ?case using fresh_0 [OF 0(1)] grow_pages_0 by (auto simp: kret_eq)
next
  case (Suc f)
  let ?P = "\<lambda>_ :: uint. PTE_W OR PTE_U" and ?C = "\<lambda>(_ :: uint) (_ :: nat). 0 :: uchar"
  show ?case
  proof (cases "a < newsz")
    case False
    then show ?thesis using fresh_0 [OF Suc.prems(1)] grow_pages_0 by (auto simp: kret_eq)
  next
    case True
    note g = grow_pages_step [OF True Suc.prems(4)]
    let ?n = "grow_pages (a + PGSIZE) newsz"
    have n: "?n < 2 ^ 20" using g by simp
    have r: "in_range a (Suc ?n) a" using in_range_Suc(1) [OF Suc.prems(2) n] PGROUNDDOWN_id [OF Suc.prems(2)] by simp
    then have pa: "pte_of (mem s) d a AND PTE_P = 0" using Suc.prems(5) g(2) by simp
    have len: "2 \<le> length xs" using Suc.prems(6) g(2) by simp
    have out: "\<And>x m b. \<not> in_page x b \<Longrightarrow> memset x 0 PGSIZE m b = m b" by (simp add: memset_eq in_page_def)
    have zero: "memset x 0 PGSIZE (mem s) (x + of_nat i) = 0" if "i < 4096" for x i
      using in_page_self [OF that, of x] by (simp add: memset_eq in_page_def)
    obtain x s1 u ys where u: "kalloc s = Done x s1" "x \<noteq> 0"
      "mappages d a PGSIZE (v2p x) (PTE_W OR PTE_U) (upd_mem (memset x 0 PGSIZE) s1) = Done 0 u"
      "fresh_pages s xs d u ys a (Suc 0) ?P ?C" "length xs \<le> length ys + 2"
      using fresh_one [OF Suc.prems(1,2) pa len, where f = "\<lambda>x. memset x 0 PGSIZE" and C = ?C and perm = ?P, OF out zero]
      by blast
    have e: "allocuvm_loop (Suc f) d a oldsz newsz s = allocuvm_loop f d (a + PGSIZE) oldsz newsz u"
      using True u(1-3) by (simp add: kop_simps kmemset_def)
    have ok: "pgdir_ok u ys d" using u(4) by (simp add: fresh_pages_def)
    have "\<exists>t zs. allocuvm_loop f d (a + PGSIZE) oldsz newsz u = Done newsz t \<and> fresh_pages u ys d t zs (a + PGSIZE) ?n ?P ?C \<and>
        length ys \<le> length zs + 2 * ?n"
      using Suc.prems(3,4,6) g(2) u(5) unmapped_next [OF Suc.prems(2) n _ u(4)] Suc.prems(5)
      by (intro Suc.IH [OF ok aligned_add [OF Suc.prems(2)]]) auto
    then obtain t zs where t: "allocuvm_loop f d (a + PGSIZE) oldsz newsz u = Done newsz t"
      "fresh_pages u ys d t zs (a + PGSIZE) ?n ?P ?C" "length ys \<le> length zs + 2 * ?n" by blast
    then show ?thesis using fresh_Suc [OF Suc.prems(1,2) n u(4) t(2)] u(5) unfolding e g(2)
      by (intro exI [of _ t] exI [of _ zs]) simp
  qed
qed

lemma grow_pages_fuel: "grow_pages a sz \<le> unat (sz - a) div 4096 + 1"
proof (cases "a < sz")
  case True
  then have "unat (sz - a) = unat sz - unat a" by (simp add: unat_sub_uint word_less_nat_alt)
  moreover have "(n + 4095) div 4096 \<le> n div 4096 + 1" for n :: nat using div_le_mono [of "n + 4095" "n + 4096" 4096] by simp
  ultimately show ?thesis by (simp add: grow_pages_def)
qed (simp add: grow_pages_0)

lemma allocuvm_run:
  assumes "oldsz \<le> newsz" "newsz < KERNBASE"
  shows "allocuvm d oldsz newsz = allocuvm_loop (Suc (unat (newsz - PGROUNDUP oldsz) div 4096)) d (PGROUNDUP oldsz) oldsz newsz"
proof -
  have "\<not> KERNBASE \<le> newsz" "\<not> newsz < oldsz" using assms by simp_all
  then show ?thesis unfolding allocuvm_def Let_def by (simp only: if_False Suc_eq_plus1)
qed

lemma allocuvm_spec:
  assumes "pgdir_ok s xs d" "oldsz \<le> newsz" "newsz < KERNBASE"
    "\<And>va. in_range (PGROUNDUP oldsz) (grow_pages (PGROUNDUP oldsz) newsz) va \<Longrightarrow> pte_of (mem s) d va AND PTE_P = 0"
    "2 * grow_pages (PGROUNDUP oldsz) newsz \<le> length xs"
  shows "\<exists>t ys. allocuvm d oldsz newsz s = Done newsz t \<and>
    fresh_pages s xs d t ys (PGROUNDUP oldsz) (grow_pages (PGROUNDUP oldsz) newsz) (\<lambda>_. PTE_W OR PTE_U) (\<lambda>_ _. 0) \<and>
    length xs \<le> length ys + 2 * grow_pages (PGROUNDUP oldsz) newsz"
  unfolding allocuvm_run [OF assms(2,3)]
  by (rule allocuvm_loop_spec [OF assms(1) PGROUNDUP_aligned _ assms(3-5)]) (use grow_pages_fuel in simp)

text \<open>
  The result of \<open>mappages\<close> is ignored: with one free page left and no page table for the address, the page is taken
  and cleared but not mapped, and \<open>allocuvm\<close> reports success.
\<close>

lemma allocuvm_last_page:
  assumes ok: "pgdir_ok s [x] d" and sz: "newsz < KERNBASE" "pg_aligned oldsz" "oldsz < newsz" "newsz \<le> oldsz + PGSIZE"
    and n: "\<not> has_table (mem s) d oldsz"
  shows "\<exists>t. allocuvm d oldsz newsz s = Done newsz t \<and> pgdir_ok t [] d \<and> pte_of (mem t) d oldsz = 0"
proof -
  obtain s1 where s1: "kalloc s = Done x s1" "mem s1 = mem s" "pgdir_ok s1 [] d" "\<not> pt_page s1 [] d x"
    and x: "pg_aligned x" "x \<noteq> 0" using take_page [OF ok] by blast
  let ?w = "upd_mem (memset x 0 PGSIZE) s1"
  have "\<not> in_page x b \<Longrightarrow> memset x 0 PGSIZE (mem s1) b = mem s1 b" for b by (simp add: memset_eq in_page_def)
  note w = own_page_write [OF s1(3) x(1) s1(4), of "memset x 0 PGSIZE", OF this]
  have t: "\<not> has_table (mem ?w) d oldsz" using w(4) n s1(2) by simp
  have m: "mappages d oldsz PGSIZE (v2p x) (PTE_W OR PTE_U) ?w = Done (- 1) ?w" using map_page_full w(1) sz(2) t by blast
  have up: "PGROUNDUP oldsz = oldsz" using PGROUNDDOWN_top [OF sz(2)] by (simp add: PGROUNDUP_down PGSIZE_def add.commute)
  have "allocuvm_loop f d (oldsz + PGSIZE) oldsz newsz u = Done newsz u" for f u
    using sz(4) by (cases f) (simp_all add: kret_eq not_le [symmetric])
  then have "allocuvm d oldsz newsz s = Done newsz ?w"
    unfolding allocuvm_run [OF less_imp_le [OF sz(3)] sz(1)] up using sz(3) s1(1) x(2) m by (simp add: kop_simps kmemset_def)
  then show ?thesis using w(1) t by (auto simp: pte_of_def)
qed

section \<open>Copying a process\<close>

lemma fresh_keeps:
  assumes "fresh_pages s xs d u ys a n perm C" "pgdir_ok s xs d" "pg_aligned p" "\<not> pt_page s xs d p" "in_page p b"
  shows "mem u b = mem s b" "\<not> pt_page u ys d p"
proof -
  have "\<not> in_page q b" if "pt_page s xs d q" for q
    using that assms(3-5) in_page_unique [OF pt_page_aligned [OF assms(2) that] assms(3)] by blast
  then show "mem u b = mem s b" "\<not> pt_page u ys d p" using assms(1,4) unfolding fresh_pages_def by blast+
qed

text \<open>The page table \<open>d0\<close> of the parent is not part of what the new page table \<open>d\<close> may use.\<close>

definition parent_apart :: "'z mstate_scheme \<Rightarrow> uint list \<Rightarrow> uint \<Rightarrow> uint \<Rightarrow> bool" where
  "parent_apart s xs d d0 \<longleftrightarrow> pg_aligned d0 \<and> \<not> pt_page s xs d d0 \<and>
     (\<forall>va. has_table (mem s) d0 va \<longrightarrow> table (mem s) d0 va \<noteq> 0 \<and> \<not> pt_page s xs d (table (mem s) d0 va))"

lemma parent_keeps:
  assumes fr: "fresh_pages s xs d u ys a n perm C" and ok: "pgdir_ok s xs d" and par: "parent_apart s xs d d0"
  shows "parent_apart u ys d d0" "pte_of (mem u) d0 va = pte_of (mem s) d0 va" "has_table (mem u) d0 va = has_table (mem s) d0 va"
proof -
  have d0: "pg_aligned d0" "\<not> pt_page s xs d d0" using par by (simp_all add: parent_apart_def)
  have t: "\<not> pt_page s xs d (table (mem s) d0 va)" "table (mem s) d0 va \<noteq> 0" if "has_table (mem s) d0 va" for va
    using that par by (simp_all add: parent_apart_def)
  have e: "has_table (mem u) d0 va = has_table (mem s) d0 va" "table (mem u) d0 va = table (mem s) d0 va"
    "pte_of (mem u) d0 va = pte_of (mem s) d0 va" for va
    by (rule same_entries [OF d0(1) fresh_keeps(1) [OF fr ok d0] fresh_keeps(1) [OF fr ok table_aligned t(1)]]; assumption)+
  show "pte_of (mem u) d0 va = pte_of (mem s) d0 va" "has_table (mem u) d0 va = has_table (mem s) d0 va" by (rule e)+
  have "pt_page s xs d p" if "pt_page u ys d p" for p using that fr by (simp add: fresh_pages_def)
  then show "parent_apart u ys d d0" using d0 t unfolding parent_apart_def e by blast
qed

text \<open>What is to be copied: the pages from \<open>a\<close> on are present in \<open>d0\<close>, with entries \<open>E\<close> and contents \<open>C\<close>.\<close>

definition to_copy :: "'z mstate_scheme \<Rightarrow> uint list \<Rightarrow> uint \<Rightarrow> uint \<Rightarrow> uint \<Rightarrow> nat \<Rightarrow> (uint \<Rightarrow> uint) \<Rightarrow> (uint \<Rightarrow> nat \<Rightarrow> uchar) \<Rightarrow> bool" where
  "to_copy s xs d d0 a n E C \<longleftrightarrow> parent_apart s xs d d0 \<and> (\<forall>va. in_range a n va \<longrightarrow>
     pte_of (mem s) d0 va = E (PGROUNDDOWN va) \<and> E (PGROUNDDOWN va) AND PTE_P \<noteq> 0 \<and>
     page_ok s (p2v (PTE_ADDR (E (PGROUNDDOWN va)))) \<and> \<not> pt_page s xs d (p2v (PTE_ADDR (E (PGROUNDDOWN va)))) \<and>
     (\<forall>i < 4096. mem s (p2v (PTE_ADDR (E (PGROUNDDOWN va))) + of_nat i) = C (PGROUNDDOWN va) i))"

lemma to_copy_next:
  assumes fr: "fresh_pages s xs d u ys a (Suc 0) perm C'" and ok: "pgdir_ok s xs d" and a: "pg_aligned a" and n: "n < 2 ^ 20"
    and c: "to_copy s xs d d0 a (Suc n) E C"
  shows "to_copy u ys d d0 (a + PGSIZE) n E C"
  unfolding to_copy_def
proof (intro conjI allI impI)
  have par: "parent_apart s xs d d0" using c by (simp add: to_copy_def)
  show "parent_apart u ys d d0" by (rule parent_keeps [OF fr ok par])
  fix va assume "in_range (a + PGSIZE) n va"
  then have r: "in_range a (Suc n) va" using in_range_Suc(1) [OF a n] by blast
  let ?e = "E (PGROUNDDOWN va)"
  have e: "pte_of (mem s) d0 va = ?e" "?e AND PTE_P \<noteq> 0" "page_ok s (p2v (PTE_ADDR ?e))" "\<not> pt_page s xs d (p2v (PTE_ADDR ?e))"
    "\<And>i. i < 4096 \<Longrightarrow> mem s (p2v (PTE_ADDR ?e) + of_nat i) = C (PGROUNDDOWN va) i"
    using c r unfolding to_copy_def by blast+
  have al: "pg_aligned (p2v (PTE_ADDR ?e))" by (simp add: aligned_shift)
  note keep = fresh_keeps [OF fr ok al e(4)]
  show "pte_of (mem u) d0 va = ?e" using parent_keeps(2) [OF fr ok par] e(1) by simp
  show "?e AND PTE_P \<noteq> 0" by (rule e(2))
  have "mframe s u" using fr by (simp add: fresh_pages_def)
  then show "page_ok u (p2v (PTE_ADDR ?e))" using e(3) km.frame_okpg by blast
  show "\<not> pt_page u ys d (p2v (PTE_ADDR ?e))" using keep(2) [OF in_page_self [of 0]] by simp
  show "mem u (p2v (PTE_ADDR ?e) + of_nat i) = C (PGROUNDDOWN va) i" if "i < 4096" for i
    using keep(1) [OF in_page_self [OF that]] e(5) [OF that] by simp
qed

lemma memmove_page:
  assumes "pg_aligned x" "page_ok s src"
  shows "\<not> in_page x b \<Longrightarrow> memmove x src PGSIZE m b = m b" "i < 4096 \<Longrightarrow> memmove x src PGSIZE m (x + of_nat i) = m (src + of_nat i)"
proof -
  have "unat (v2p src) < 0xE000000" using assms(2) by (simp add: page_ok_def PHYSTOP_def word_less_nat_alt)
  then have "unat src < 0x8E000000"
    using unsigned_less [where 'a = nat, of src] by (simp add: v2p_def KERNBASE_def unat_sub_uint split: if_splits)
  moreover have "unat x + 4096 \<le> 2 ^ 32" using pg_aligned_less [OF assms(1)] by simp
  ultimately have e: "memmove x src PGSIZE m b = (if b - x < PGSIZE then m (src + (b - x)) else m b)" for b
    by (intro memmove_eq) (simp_all add: PGSIZE_def)
  show "\<not> in_page x b \<Longrightarrow> memmove x src PGSIZE m b = m b" by (simp add: e in_page_def)
  show "i < 4096 \<Longrightarrow> memmove x src PGSIZE m (x + of_nat i) = m (src + of_nat i)"
    using in_page_self [of i x] by (simp add: e in_page_def)
qed

lemma copyuvm_loop_spec:
  fixes s :: "'z mstate_scheme"
  assumes "pgdir_ok s xs d" "pg_aligned a" "grow_pages a sz \<le> f" "sz < KERNBASE"
    "\<And>va. in_range a (grow_pages a sz) va \<Longrightarrow> pte_of (mem s) d va AND PTE_P = 0" "2 * grow_pages a sz \<le> length xs"
    "to_copy s xs d d0 a (grow_pages a sz) E C"
  shows "\<exists>t ys. copyuvm_loop f d d0 a sz s = Done d t \<and>
    fresh_pages s xs d t ys a (grow_pages a sz) (\<lambda>v. PTE_FLAGS (E v)) C"
  using assms
proof (induction f arbitrary: a s xs)
  case 0
  then have "\<not> a < sz" using grow_pages_step(2) [of a sz] by auto
  then show ?case using fresh_0 [OF 0(1)] grow_pages_0 by (auto simp: kret_eq)
next
  case (Suc f)
  let ?P = "\<lambda>v. PTE_FLAGS (E v)"
  show ?case
  proof (cases "a < sz")
    case False
    then show ?thesis using fresh_0 [OF Suc.prems(1)] grow_pages_0 by (auto simp: kret_eq)
  next
    case True
    note g = grow_pages_step [OF True Suc.prems(4)]
    let ?n = "grow_pages (a + PGSIZE) sz" and ?src = "p2v (PTE_ADDR (E a))"
    have n: "?n < 2 ^ 20" using g by simp
    have ra: "in_range a (Suc ?n) a" using in_range_Suc(1) [OF Suc.prems(2) n] PGROUNDDOWN_id [OF Suc.prems(2)] by simp
    have pa: "pte_of (mem s) d a AND PTE_P = 0" using Suc.prems(5) g(2) ra by simp
    have c: "to_copy s xs d d0 a (Suc ?n) E C" using Suc.prems(7) g(2) by simp
    then have e: "pte_of (mem s) d0 a = E a" "E a AND PTE_P \<noteq> 0" "page_ok s ?src"
      "\<And>i. i < 4096 \<Longrightarrow> mem s (?src + of_nat i) = C a i"
      using ra PGROUNDDOWN_id [OF Suc.prems(2)] unfolding to_copy_def by metis+
    have al: "pg_aligned x" if "x \<in> set xs" for x using that pgdir_okD(1) [OF Suc.prems(1)] by (auto simp: free_pages_def page_ok_def)
    have len: "2 \<le> length xs" using Suc.prems(6) g(2) by simp
    have mv: "\<not> in_page x b \<Longrightarrow> memmove x ?src PGSIZE m b = m b" "i < 4096 \<Longrightarrow> memmove x ?src PGSIZE (mem s) (x + of_nat i) = C a i"
      if "x \<in> set xs" for x m b i
      using memmove_page [OF al [OF that] e(3)] e(4) by simp_all
    obtain x s1 u ys where u: "kalloc s = Done x s1" "x \<noteq> 0" "mem s1 = mem s"
      "mappages d a PGSIZE (v2p x) (PTE_FLAGS (E a)) (upd_mem (memmove x ?src PGSIZE) s1) = Done 0 u"
      "fresh_pages s xs d u ys a (Suc 0) ?P C" "length xs \<le> length ys + 2"
      using fresh_one [OF Suc.prems(1,2) pa len, where f = "\<lambda>x. memmove x ?src PGSIZE" and C = C and perm = ?P, OF mv]
      by blast
    have ht: "has_table (mem s) d0 a" using e(1,2) by (auto simp: pte_of_def split: if_splits)
    then have "table (mem s) d0 a + 4 * PTX a \<noteq> 0"
      using c by (intro slot_nonzero table_aligned index_less) (simp add: to_copy_def parent_apart_def)
    then have eq: "copyuvm_loop (Suc f) d d0 a sz s = copyuvm_loop f d d0 (a + PGSIZE) sz u"
      using True u(1,2,4) e(1,2) ht by (simp add: kop_simps walk_lookup kload_def kmemmove_def pte_of_def)
    have ok: "pgdir_ok u ys d" using u(5) by (simp add: fresh_pages_def)
    have "\<exists>t zs. copyuvm_loop f d d0 (a + PGSIZE) sz u = Done d t \<and> fresh_pages u ys d t zs (a + PGSIZE) ?n ?P C"
      using Suc.prems(3,4,6) g(2) u(6) unmapped_next [OF Suc.prems(2) n _ u(5)] Suc.prems(5) to_copy_next [OF u(5) Suc.prems(1,2) n c]
      by (intro Suc.IH [OF ok aligned_add [OF Suc.prems(2)]]) auto
    then show ?thesis using fresh_Suc [OF Suc.prems(1,2) n u(5)] unfolding eq g(2) by blast
  qed
qed

lemma pte_of_page: "pte_of m d (PGROUNDDOWN va) = pte_of m d va"
proof -
  have "PGROUNDDOWN (PGROUNDDOWN va) = PGROUNDDOWN va" by (rule PGROUNDDOWN_id [OF PGROUNDDOWN_aligned])
  then show ?thesis unfolding same_page_iff by (simp add: pte_of_def has_table_def table_def pde_of_def)
qed

text \<open>The user pages of a process of size \<open>sz\<close>: present, in frames that are pages of memory and not free.\<close>

definition user_ok :: "'z mstate_scheme \<Rightarrow> uint list \<Rightarrow> uint \<Rightarrow> uint \<Rightarrow> bool" where
  "user_ok s xs d sz \<longleftrightarrow> (\<forall>va. in_range 0 (grow_pages 0 sz) va \<longrightarrow> pte_of (mem s) d va AND PTE_P \<noteq> 0 \<and>
     page_ok s (p2v (PTE_ADDR (pte_of (mem s) d va))) \<and> p2v (PTE_ADDR (pte_of (mem s) d va)) \<notin> set xs)"

lemma user_range:
  assumes "sz < KERNBASE"
  shows "in_range 0 (grow_pages 0 sz) va \<Longrightarrow> va < KERNBASE" "va < sz \<Longrightarrow> in_range 0 (grow_pages 0 sz) va"
proof -
  have b: "unat sz < 0x80000000" using assms by (simp add: KERNBASE_def word_less_nat_alt)
  have n: "grow_pages 0 sz \<le> 2 ^ 19" using b div_le_mono [of "unat sz + 4095" "4096 * 2 ^ 19 + 4095" 4096] by (simp add: grow_pages_def)
  have i: "in_range 0 (grow_pages 0 sz) va \<longleftrightarrow> unat va < 4096 * grow_pages 0 sz"
    using n by (subst in_range_interval) (simp_all add: pg_aligned_def)
  show "in_range 0 (grow_pages 0 sz) va \<Longrightarrow> va < KERNBASE" using i n by (simp add: KERNBASE_def word_less_nat_alt)
  have "unat sz + 4095 < 4096 * grow_pages 0 sz + 4096"
    unfolding grow_pages_def by (metis add.commute diff_zero dividend_less_times_div mult.commute unat_0 zero_less_numeral)
  then show "va < sz \<Longrightarrow> in_range 0 (grow_pages 0 sz) va" unfolding i by (simp add: word_less_nat_alt)
qed

lemma kernel_pte_low: "va < KERNBASE \<Longrightarrow> kernel_pte dat va = 0"
proof -
  assume "va < KERNBASE"
  moreover have "KERNBASE < DEVSPACE" by (simp add: layout_defs)
  ultimately have "\<not> KERNBASE \<le> va" "\<not> DEVSPACE \<le> va" by order+
  then show ?thesis by (simp add: kernel_pte_def)
qed

lemma copyuvm_spec:
  fixes s :: "'z mstate_scheme"
  assumes ok: "pgdir_ok s xs d0" and dat: "data_ok (kdata s)" and sz: "sz < KERNBASE" and user: "user_ok s xs d0 sz"
    and len: "65 + 2 * grow_pages 0 sz < length xs"
  shows "\<exists>d t0 ys0 t ys. copyuvm d0 sz s = Done d t \<and> d \<noteq> 0 \<and> d \<in> set xs \<and> set ys0 \<subseteq> set xs \<and> mframe s t0 \<and> pgdir_ok t0 ys0 d \<and>
    (\<forall>b. (\<forall>x \<in> set xs. \<not> in_page x b) \<longrightarrow> mem t b = mem s b) \<and>
    (\<forall>va. pte_of (mem t0) d va = kernel_pte (kdata s) va) \<and>
    fresh_pages t0 ys0 d t ys 0 (grow_pages 0 sz) (\<lambda>v. PTE_FLAGS (pte_of (mem s) d0 v))
      (\<lambda>v i. mem s (p2v (PTE_ADDR (pte_of (mem s) d0 v)) + of_nat i))"
proof -
  let ?n = "grow_pages 0 sz" and ?E = "pte_of (mem s) d0"
  let ?C = "\<lambda>v i. mem s (p2v (PTE_ADDR (?E v)) + of_nat i)"
  have al: "pg_aligned x \<and> x \<noteq> 0" if "x \<in> set xs" for x using that pgdir_okD(1) [OF ok] by (auto simp: free_pages_def page_ok_def)
  obtain d t0 ys0 where t0: "setupkvm s = Done d t0" "mframe s t0" "suffix ys0 xs"
    "\<And>b. (\<And>x. x \<in> set xs \<Longrightarrow> \<not> in_page x b) \<Longrightarrow> mem t0 b = mem s b" "d \<in> set xs" "pgdir_ok t0 ys0 d"
    "length xs \<le> length ys0 + 65" "\<And>p. pt_page t0 ys0 d p \<Longrightarrow> p \<in> set xs" "\<And>va. pte_of (mem t0) d va = kernel_pte (kdata s) va"
    using setupkvm_spec [OF pgdir_okD(1) [OF ok] dat] len by (auto simp: not_le)
  have same: "mem t0 b = mem s b" if "pg_aligned p" "p \<notin> set xs" "in_page p b" for p b
    using that al in_page_unique [of p] by (intro t0(4)) blast
  have e: "has_table (mem t0) d0 va = has_table (mem s) d0 va" "table (mem t0) d0 va = table (mem s) d0 va"
    "pte_of (mem t0) d0 va = pte_of (mem s) d0 va" for va
    by (rule same_entries [OF pgdir_okD(2) [OF ok] same [OF pgdir_okD(2,3) [OF ok]] same [OF table_aligned pgdir_okD(6) [OF ok]]]; assumption)+
  have "parent_apart t0 ys0 d d0"
    unfolding parent_apart_def e using pgdir_okD(2,3,5,6) [OF ok] t0(8) by (auto simp: page_ok_def)
  then have copy: "to_copy t0 ys0 d d0 0 ?n ?E ?C"
    unfolding to_copy_def e pte_of_page using user t0(8) same [OF _ _ in_page_self] km.frame_okpg [OF t0(2)]
    by (auto simp: user_ok_def aligned_shift)
  have free: "pte_of (mem t0) d va AND PTE_P = 0" if "in_range 0 ?n va" for va
    unfolding t0(9) kernel_pte_low [OF user_range(1) [OF sz that]] by simp
  have d: "d \<noteq> 0" using al t0(5) by blast
  have "copyuvm d0 sz s = copyuvm_loop (unat sz div 4096 + 1) d d0 0 sz t0"
    using t0(1) d by (simp add: copyuvm_def kop_simps)
  moreover obtain t ys where t: "copyuvm_loop (unat sz div 4096 + 1) d d0 0 sz t0 = Done d t"
    "fresh_pages t0 ys0 d t ys 0 ?n (\<lambda>v. PTE_FLAGS (?E v)) ?C"
    using copyuvm_loop_spec [OF t0(6) _ _ sz free _ copy, of "unat sz div 4096 + 1"] grow_pages_fuel [of 0 sz] t0(7) len
    by (auto simp: pg_aligned_def)
  moreover have "mem t b = mem s b" if "\<forall>x \<in> set xs. \<not> in_page x b" for b
    using that t(2) t0(4,8) unfolding fresh_pages_def by metis
  ultimately show ?thesis using t0(2,5,6,9) d set_mono_suffix [OF t0(3)]
    by (intro exI [of _ d] exI [of _ t0] exI [of _ ys0] exI [of _ t] exI [of _ ys]) simp
qed

section \<open>What the processor sees\<close>

text \<open>The new pages, as the processor sees them.\<close>

lemma fresh_view:
  assumes fr: "fresh_pages s xs d t ys a n perm C" and ok: "pgdir_ok s xs d" and p: "\<forall>v. \<forall>k \<ge> 12. \<not> bit (perm v) k"
  shows "\<exists>g. (\<forall>va w. in_range a n va \<longrightarrow> translate (mem t) d w va =
      (if w \<and> perm (PGROUNDDOWN va) AND PTE_W = 0 then None else Some (g va))) \<and>
    (\<forall>va. in_range a n va \<longrightarrow> (\<exists>x \<in> set xs. page_ok s x \<and> x \<notin> set ys \<and> \<not> pt_page t ys d x \<and> in_page x (g va) \<and>
       p2v (PTE_ADDR (pte_of (mem t) d va)) = x)) \<and>
    (\<forall>va. in_range a n va \<longrightarrow> mem t (g va) = C (PGROUNDDOWN va) (unat (va AND 0xFFF))) \<and>
    (\<forall>va vb. in_range a n va \<longrightarrow> in_range a n vb \<longrightarrow> g va = g vb \<longrightarrow> va = vb)"
proof -
  obtain h where h: "\<And>va. in_range a n va \<Longrightarrow> pte_of (mem t) d va = v2p (h (PGROUNDDOWN va)) OR perm (PGROUNDDOWN va) OR PTE_P"
      "\<And>va. in_range a n va \<Longrightarrow> h (PGROUNDDOWN va) \<in> set xs \<and> \<not> pt_page t ys d (h (PGROUNDDOWN va))"
      "\<And>va i. in_range a n va \<Longrightarrow> i < 4096 \<Longrightarrow> mem t (h (PGROUNDDOWN va) + of_nat i) = C (PGROUNDDOWN va) i"
      "\<And>va vb. in_range a n va \<Longrightarrow> in_range a n vb \<Longrightarrow> h (PGROUNDDOWN va) = h (PGROUNDDOWN vb) \<Longrightarrow> PGROUNDDOWN va = PGROUNDDOWN vb"
    using fr unfolding fresh_pages_def by auto
  define g where "g va = h (PGROUNDDOWN va) + (va AND 0xFFF)" for va
  have x: "page_ok s (h (PGROUNDDOWN va))" "pg_aligned (h (PGROUNDDOWN va))" if "in_range a n va" for va
    using h(2) [OF that] pgdir_okD(1) [OF ok] by (auto simp: free_pages_def page_ok_def)
  have gp: "in_page (h (PGROUNDDOWN va)) (g va)" for va
    using in_page_self [OF offset_less(1) [of va]] by (simp add: g_def)
  show ?thesis
  proof (intro exI [of _ g] conjI allI impI)
    fix va w assume r: "in_range a n va"
    show "translate (mem t) d w va = (if w \<and> perm (PGROUNDDOWN va) AND PTE_W = 0 then None else Some (g va))"
      unfolding g_def by (rule entry_translate [OF h(1) [OF r] x(2) [OF r]]) (use p in blast)
  next
    fix va assume r: "in_range a n va"
    have al: "pg_aligned (v2p (h (PGROUNDDOWN va)))" using x(2) [OF r] aligned_shift(1) by blast
    have "PTE_ADDR (pte_of (mem t) d va) = v2p (h (PGROUNDDOWN va))"
      unfolding h(1) [OF r] using p by (intro PTE_ADDR_flags [OF al]) (auto simp: bit_or_iff flag_bits)
    then show "\<exists>x \<in> set xs. page_ok s x \<and> x \<notin> set ys \<and> \<not> pt_page t ys d x \<and> in_page x (g va) \<and> p2v (PTE_ADDR (pte_of (mem t) d va)) = x"
      using x(1) [OF r] h(2) [OF r] gp [of va] by (auto simp: pt_page_def)
  next
    fix va assume r: "in_range a n va"
    show "mem t (g va) = C (PGROUNDDOWN va) (unat (va AND 0xFFF))"
      using h(3) [OF r offset_less(1) [of va]] by (simp add: g_def)
  next
    fix va vb assume r: "in_range a n va" "in_range a n vb" and e: "g va = g vb"
    have "h (PGROUNDDOWN va) = h (PGROUNDDOWN vb)" using in_page_unique [OF x(2) x(2)] r gp e by metis
    then have p: "PGROUNDDOWN va = PGROUNDDOWN vb" by (rule h(4) [OF r])
    then have "va AND 0xFFF = vb AND 0xFFF" using e by (simp add: g_def)
    with p show "va = vb" using offset_less(2) by metis
  qed
qed

text \<open>A process with an empty and one with a grown address space.\<close>

lemma demo_space:
  "\<exists>(s :: mstate) xs d. pgdir_ok s xs d \<and> data_ok (kdata s) \<and> (\<forall>va < KERNBASE. pte_of (mem s) d va = 0) \<and> 300 < length xs \<and>
     KERNBASE < kend s"
proof -
  obtain s :: mstate and xs where s: "free_pages s xs" "data_ok (kdata s)" "400 < length xs" "KERNBASE < kend s" using demo_free by blast
  obtain d t ys where t: "mframe s t" "pgdir_ok t ys d" "length xs \<le> length ys + 65" "\<And>va. pte_of (mem t) d va = kernel_pte (kdata s) va"
    using setupkvm_spec [OF s(1,2)] s(3) by (auto simp: not_le)
  have "data_ok (kdata t)" using s(2) t(1) by (simp add: mframe_def)
  moreover have "300 < length ys" using s(3) t(3) by simp
  moreover have "KERNBASE < kend t" using s(4) t(1) by (simp add: mframe_def)
  ultimately show ?thesis using t(2,4) kernel_pte_low by metis
qed

lemma page_flags:
  "\<forall>v :: uint. \<forall>k \<ge> 12. \<not> bit (PTE_W OR PTE_U) k" "\<forall>v :: uint. \<forall>k \<ge> 12. \<not> bit (PTE_FLAGS (E v)) k" "(PTE_W OR PTE_U) AND PTE_W \<noteq> 0"
  unfolding writable_iff by (simp_all add: bit_or_iff flag_bits PTE_FLAGS_bit)

lemma fresh_user_ok:
  assumes "fresh_pages s xs d t ys 0 (grow_pages 0 sz) (\<lambda>_. PTE_W OR PTE_U) C" "pgdir_ok s xs d"
  shows "user_ok t ys d sz"
proof -
  have fr: "mframe s t" using assms(1) by (simp add: fresh_pages_def)
  obtain g where g: "\<And>va. in_range 0 (grow_pages 0 sz) va \<Longrightarrow> translate (mem t) d False va = Some (g va)"
    "\<And>va. in_range 0 (grow_pages 0 sz) va \<Longrightarrow>
      \<exists>x \<in> set xs. page_ok s x \<and> x \<notin> set ys \<and> \<not> pt_page t ys d x \<and> in_page x (g va) \<and> p2v (PTE_ADDR (pte_of (mem t) d va)) = x"
    using fresh_view [OF assms page_flags(1)] by fastforce
  have "pte_of (mem t) d va AND PTE_P \<noteq> 0" if "in_range 0 (grow_pages 0 sz) va" for va
    using g(1) [OF that] unfolding translate_pte Let_def by (auto split: if_splits)
  then show ?thesis using g(2) km.frame_okpg [OF fr] unfolding user_ok_def by metis
qed

lemma demo_grown:
  "\<exists>(s :: mstate) xs d. pgdir_ok s xs d \<and> data_ok (kdata s) \<and> user_ok s xs d 0x1000 \<and> 100 < length xs"
proof -
  obtain s :: mstate and xs d where s: "pgdir_ok s xs d" "data_ok (kdata s)" "\<forall>va < KERNBASE. pte_of (mem s) d va = 0" "300 < length xs"
    using demo_space by blast
  have up: "PGROUNDUP 0 = 0" "grow_pages 0 0x1000 = 1" by (simp_all add: PGROUNDUP_def PGSIZE_def grow_pages_def)
  have "pte_of (mem s) d va AND PTE_P = 0" if "in_range 0 (grow_pages 0 0x1000) va" for va
    using user_range(1) [OF _ that] s(3) by (simp add: KERNBASE_def)
  then obtain t ys where t: "fresh_pages s xs d t ys 0 (grow_pages 0 0x1000) (\<lambda>_. PTE_W OR PTE_U) (\<lambda>_ _. 0)"
    "length xs \<le> length ys + 2" using allocuvm_spec [of s xs d 0 "0x1000"] s(1,4) unfolding up(1) by (auto simp: up(2) KERNBASE_def)
  have "mframe s t" "pgdir_ok t ys d" using t(1) by (simp_all add: fresh_pages_def)
  moreover from this have "data_ok (kdata t)" using s(2) by (simp add: mframe_def)
  moreover have "100 < length ys" using s(4) t(2) by simp
  ultimately show ?thesis using fresh_user_ok [OF t(1) s(1)] by blast
qed

section \<open>Properties\<close>

text \<open>
  C15. If the new pages are not mapped yet and there are two free pages for each of them, \<open>allocuvm\<close> grows a process to
  \<open>newsz\<close>: every new address can be read and written, reads as zero, and has a byte of its own in a page that was free
  before and is not free or part of the page table after. All other mappings stay, and so does every byte outside the pages
  that were free or part of the page table.
\<close>

theorem allocuvm_grows:
  assumes "pgdir_ok s xs d" "oldsz \<le> newsz" "newsz < KERNBASE"
    "\<And>va. in_range (PGROUNDUP oldsz) (grow_pages (PGROUNDUP oldsz) newsz) va \<Longrightarrow> pte_of (mem s) d va AND PTE_P = 0"
    "2 * grow_pages (PGROUNDUP oldsz) newsz \<le> length xs"
  shows "\<exists>t ys g. allocuvm d oldsz newsz s = Done newsz t \<and> pgdir_ok t ys d \<and>
    (\<forall>va. in_range (PGROUNDUP oldsz) (grow_pages (PGROUNDUP oldsz) newsz) va \<longrightarrow>
       (\<forall>w. translate (mem t) d w va = Some (g va)) \<and> mem t (g va) = 0 \<and>
       (\<exists>x \<in> set xs. x \<notin> set ys \<and> \<not> pt_page t ys d x \<and> in_page x (g va)) \<and>
       (\<forall>vb. in_range (PGROUNDUP oldsz) (grow_pages (PGROUNDUP oldsz) newsz) vb \<longrightarrow> g vb = g va \<longrightarrow> vb = va)) \<and>
    (\<forall>va. \<not> in_range (PGROUNDUP oldsz) (grow_pages (PGROUNDUP oldsz) newsz) va \<longrightarrow> pte_of (mem t) d va = pte_of (mem s) d va) \<and>
    (\<forall>b. (\<forall>p. pt_page s xs d p \<longrightarrow> \<not> in_page p b) \<longrightarrow> mem t b = mem s b)"
proof -
  let ?R = "in_range (PGROUNDUP oldsz) (grow_pages (PGROUNDUP oldsz) newsz)"
  obtain t ys where t: "allocuvm d oldsz newsz s = Done newsz t"
    "fresh_pages s xs d t ys (PGROUNDUP oldsz) (grow_pages (PGROUNDUP oldsz) newsz) (\<lambda>_. PTE_W OR PTE_U) (\<lambda>_ _. 0)"
    using allocuvm_spec [OF assms] by blast
  let ?x = "\<lambda>va. p2v (PTE_ADDR (pte_of (mem t) d va))"
  obtain g where g: "\<And>va w. ?R va \<Longrightarrow> translate (mem t) d w va = (if w \<and> (PTE_W OR PTE_U) AND PTE_W = 0 then None else Some (g va))"
    "\<And>va. ?R va \<Longrightarrow> \<exists>x \<in> set xs. page_ok s x \<and> x \<notin> set ys \<and> \<not> pt_page t ys d x \<and> in_page x (g va) \<and> ?x va = x"
    "\<And>va. ?R va \<Longrightarrow> mem t (g va) = 0" "\<And>va vb. ?R va \<Longrightarrow> ?R vb \<Longrightarrow> g va = g vb \<Longrightarrow> va = vb"
    using fresh_view [OF t(2) assms(1) page_flags(1)] by blast
  have tr: "translate (mem t) d w va = Some (g va)" if "?R va" for va w using g(1) [OF that] page_flags(3) by auto
  have x: "\<exists>x \<in> set xs. x \<notin> set ys \<and> \<not> pt_page t ys d x \<and> in_page x (g va)" if "?R va" for va using g(2) [OF that] by blast
  have same: "pgdir_ok t ys d" "\<forall>va. \<not> ?R va \<longrightarrow> pte_of (mem t) d va = pte_of (mem s) d va"
    "\<forall>b. (\<forall>p. pt_page s xs d p \<longrightarrow> \<not> in_page p b) \<longrightarrow> mem t b = mem s b" using t(2) unfolding fresh_pages_def by auto
  then show ?thesis using t(1) tr x g(3,4) by (intro exI [of _ t] exI [of _ ys] exI [of _ g]) simp
qed

theorem allocuvm_grows_witness:
  "\<exists>(s :: mstate) d t. allocuvm d 0 0x1000 s = Done 0x1000 t \<and> translate (mem s) d False 0x123 = None \<and>
     (\<exists>b. translate (mem t) d True 0x123 = Some b \<and> mem t b = 0)"
proof -
  obtain s :: mstate and xs d where s: "pgdir_ok s xs d" "\<forall>va < KERNBASE. pte_of (mem s) d va = 0" "300 < length xs"
    using demo_space by blast
  have up: "PGROUNDUP 0 = 0" "grow_pages 0 0x1000 = 1" by (simp_all add: PGROUNDUP_def PGSIZE_def grow_pages_def)
  have k: "(0x1000 :: uint) < KERNBASE" by (simp add: KERNBASE_def)
  have free: "pte_of (mem s) d va AND PTE_P = 0" if "in_range (PGROUNDUP 0) (grow_pages (PGROUNDUP 0) 0x1000) va" for va
    using that user_range(1) [OF k] s(2) unfolding up(1) by simp
  have len: "2 * grow_pages (PGROUNDUP 0) 0x1000 \<le> length xs" using s(3) unfolding up(1) up(2) by simp
  have "in_range (PGROUNDUP 0) (grow_pages (PGROUNDUP 0) 0x1000) 0x123"
    unfolding up(1) by (rule user_range(2) [OF k]) simp
  then obtain t b where "allocuvm d 0 0x1000 s = Done 0x1000 t" "translate (mem t) d True 0x123 = Some b" "mem t b = 0"
    using allocuvm_grows [OF s(1) _ k free len] by auto
  moreover have "translate (mem s) d False 0x123 = None" using s(2) by (simp add: translate_pte KERNBASE_def)
  ultimately show ?thesis by blast
qed

text \<open>
  C36. \<open>allocuvm\<close> does not look at the result of \<open>mappages\<close>. When one free page is left and the address needs a new page
  table, it takes the page, cannot map it, and still returns the new size: the process is told it has memory that it
  cannot touch, and the page is lost.
\<close>

theorem allocuvm_unmapped_page:
  assumes "pgdir_ok s [x] d" "newsz < KERNBASE" "pg_aligned oldsz" "oldsz < newsz" "newsz \<le> oldsz + PGSIZE"
    "\<not> has_table (mem s) d oldsz"
  shows "\<exists>t. allocuvm d oldsz newsz s = Done newsz t \<and> pgdir_ok t [] d \<and> translate (mem t) d False oldsz = None"
  using allocuvm_last_page [OF assms] by (auto simp: translate_pte)

theorem allocuvm_unmapped_page_witness:
  "\<exists>t. allocuvm 0x80300000 0x1000 0x2000 ((demo_mem 0x80200000)\<lparr>freelist := 0x80400000\<rparr>) = Done 0x2000 t \<and>
     translate (mem t) 0x80300000 False 0x1000 = None"
proof -
  let ?s = "(demo_mem 0x80200000)\<lparr>freelist := 0x80400000\<rparr>"
  have "ld32 (\<lambda>_. 0) 0x80400000 = 0" by (simp add: ld32_def bytes_u32_def)
  then have f: "free_pages ?s [0x80400000]" "page_ok ?s 0x80300000"
    by (simp_all add: free_pages_def page_ok_def demo_mem_def pg_aligned_def PGSIZE_def layout_defs)
  have "\<And>b. mem ?s b = 0" by (simp add: demo_mem_def)
  note fresh = fresh_pgdir [OF f(1,2) _ this]
  have "pgdir_ok ?s [0x80400000] 0x80300000" "\<not> has_table (mem ?s) 0x80300000 0x1000" by (rule fresh; simp)+
  then show ?thesis using allocuvm_unmapped_page [of ?s "0x80400000" "0x80300000" "0x2000" "0x1000"]
    by (auto simp: KERNBASE_def PGSIZE_def pg_aligned_def)
qed

text \<open>
  C14. \<open>copyuvm\<close>, the copy of the memory that \<open>fork\<close> makes: with enough free pages it returns a new page directory; every
  address below \<open>sz\<close> reads in the child what it reads in the parent and is writable there exactly when it is in the
  parent, but has a byte of its own in a page that was free. Above \<open>KERNBASE\<close> the child has the kernel's mappings.
  Memory that was not free, with it that of the parent, does not change.
\<close>

theorem copyuvm_copies:
  assumes "pgdir_ok s xs d0" "data_ok (kdata s)" "sz < KERNBASE" "user_ok s xs d0 sz" "65 + 2 * grow_pages 0 sz < length xs"
  shows "\<exists>d t g. copyuvm d0 sz s = Done d t \<and> d \<noteq> 0 \<and>
    (\<forall>va < sz. translate (mem t) d False va = Some (g va) \<and> (\<exists>x \<in> set xs. in_page x (g va)) \<and>
       (\<exists>b. translate (mem s) d0 False va = Some b \<and> mem t (g va) = mem s b) \<and>
       (translate (mem t) d True va = None \<longleftrightarrow> translate (mem s) d0 True va = None) \<and>
       (\<forall>vb < sz. g vb = g va \<longrightarrow> vb = va)) \<and>
    (\<forall>va \<ge> KERNBASE. pte_of (mem t) d va = kernel_pte (kdata s) va) \<and>
    (\<forall>b. (\<forall>x \<in> set xs. \<not> in_page x b) \<longrightarrow> mem t b = mem s b)"
proof -
  let ?n = "grow_pages 0 sz" and ?E = "pte_of (mem s) d0"
  let ?C = "\<lambda>v i. mem s (p2v (PTE_ADDR (?E v)) + of_nat i)"
  obtain d t0 ys0 t ys where t: "copyuvm d0 sz s = Done d t" "d \<noteq> 0" "set ys0 \<subseteq> set xs"
      "\<forall>b. (\<forall>x \<in> set xs. \<not> in_page x b) \<longrightarrow> mem t b = mem s b" "\<forall>va. pte_of (mem t0) d va = kernel_pte (kdata s) va"
      "fresh_pages t0 ys0 d t ys 0 ?n (\<lambda>v. PTE_FLAGS (?E v)) ?C" "pgdir_ok t0 ys0 d"
    using copyuvm_spec [OF assms] by blast
  obtain g where g: "\<And>va w. in_range 0 ?n va \<Longrightarrow> translate (mem t) d w va =
        (if w \<and> PTE_FLAGS (?E (PGROUNDDOWN va)) AND PTE_W = 0 then None else Some (g va))"
    "\<And>va. in_range 0 ?n va \<Longrightarrow> \<exists>x \<in> set ys0. in_page x (g va)"
    "\<And>va. in_range 0 ?n va \<Longrightarrow> mem t (g va) = ?C (PGROUNDDOWN va) (unat (va AND 0xFFF))"
    "\<And>va vb. in_range 0 ?n va \<Longrightarrow> in_range 0 ?n vb \<Longrightarrow> g va = g vb \<Longrightarrow> va = vb"
    using fresh_view [OF t(6,7) page_flags(2)] by blast
  have W: "PTE_FLAGS e AND PTE_W \<noteq> 0 \<longleftrightarrow> e AND PTE_W \<noteq> 0" for e by (simp only: writable_iff PTE_FLAGS_bit) simp
  have parent: "translate (mem s) d0 w va = (if w \<and> PTE_FLAGS (?E (PGROUNDDOWN va)) AND PTE_W = 0 then None
      else Some (p2v (PTE_ADDR (?E va)) + (va AND 0xFFF)))" if "in_range 0 ?n va" for w va
  proof -
    have "?E va AND PTE_P \<noteq> 0" using assms(4) that by (simp add: user_ok_def)
    then show ?thesis using W [of "?E va"] unfolding translate_pte pte_of_page Let_def by auto
  qed
  have r: "in_range 0 ?n va" if "va < sz" for va using user_range(2) [OF assms(3) that] .
  have k: "pte_of (mem t) d va = kernel_pte (kdata s) va" if "KERNBASE \<le> va" for va
    using t(5,6) user_range(1) [OF assms(3), of va] that unfolding fresh_pages_def by (metis not_le)
  have "translate (mem t) d False va = Some (g va) \<and> (\<exists>x \<in> set xs. in_page x (g va)) \<and>
       (\<exists>b. translate (mem s) d0 False va = Some b \<and> mem t (g va) = mem s b) \<and>
       (translate (mem t) d True va = None \<longleftrightarrow> translate (mem s) d0 True va = None) \<and>
       (\<forall>vb < sz. g vb = g va \<longrightarrow> vb = va)" if "va < sz" for va
    using g(1) [OF r [OF that]] g(2) [OF r [OF that]] g(3) [OF r [OF that]] g(4) [OF r r [OF that]] parent [OF r [OF that]] t(3)
    by (auto simp: pte_of_page)
  then show ?thesis using t(1,2,4) k by (intro exI [of _ d] exI [of _ t] exI [of _ g]) simp
qed

theorem copyuvm_copies_witness:
  "\<exists>(s :: mstate) d0 d t b c. copyuvm d0 0x1000 s = Done d t \<and> translate (mem s) d0 False 0x123 = Some b \<and>
     translate (mem t) d False 0x123 = Some c \<and> mem t c = mem s b"
proof -
  obtain s :: mstate and xs d0 where s: "pgdir_ok s xs d0" "data_ok (kdata s)" "user_ok s xs d0 0x1000" "100 < length xs"
    using demo_grown by blast
  have "grow_pages 0 0x1000 = 1" by (simp add: grow_pages_def)
  then have len: "65 + 2 * grow_pages 0 0x1000 < length xs" using s(4) by simp
  have k: "(0x1000 :: uint) < KERNBASE" by (simp add: KERNBASE_def)
  have "(0x123 :: uint) < 0x1000" by simp
  then show ?thesis using copyuvm_copies [OF s(1,2) k s(3) len] by blast
qed

end
