(* ===== verification/Shrink.thy ===== *)
theory Shrink
  imports User_Memory
begin

text \<open>
  Giving memory back (vm.c, proc.c): \<open>deallocuvm\<close> clears the entries of the pages it is asked for and puts their frames on the
  free list, and \<open>growproc\<close> mistakes the size 0 that it returns for a failure.
\<close>

section \<open>Freeing a page\<close>

definition frame_of :: "memory \<Rightarrow> uint \<Rightarrow> uint \<Rightarrow> uint" where
  "frame_of m d va = p2v (PTE_ADDR (pte_of m d va))"

text \<open>The \<open>n\<close> pages from \<open>a\<close> on are mapped, each to a frame of its own that is neither free nor part of the page table.\<close>

definition own_pages :: "'z mstate_scheme \<Rightarrow> uint list \<Rightarrow> uint \<Rightarrow> uint \<Rightarrow> nat \<Rightarrow> bool" where
  "own_pages s xs d a n \<longleftrightarrow>
     (\<forall>va. in_range a n va \<longrightarrow> pte_of (mem s) d va AND PTE_P \<noteq> 0 \<and> page_ok s (frame_of (mem s) d va) \<and>
        \<not> pt_page s xs d (frame_of (mem s) d va)) \<and>
     (\<forall>va vb. in_range a n va \<longrightarrow> in_range a n vb \<longrightarrow> frame_of (mem s) d va = frame_of (mem s) d vb \<longrightarrow>
        PGROUNDDOWN va = PGROUNDDOWN vb)"

text \<open>\<open>kfree\<close> of a page that is not part of the page table.\<close>

lemma give_page:
  assumes ok: "pgdir_ok s xs d" and x: "page_ok s x" "\<not> pt_page s xs d x"
  shows "\<exists>t. kfree x s = Done () t \<and> mframe s t \<and> pgdir_ok t (x # xs) d \<and>
    (\<forall>p. pt_page t (x # xs) d p \<longleftrightarrow> p = x \<or> pt_page s xs d p) \<and>
    (\<forall>va. has_table (mem t) d va = has_table (mem s) d va \<and> table (mem t) d va = table (mem s) d va \<and>
       pte_of (mem t) d va = pte_of (mem s) d va) \<and>
    (\<forall>b. \<not> in_page x b \<longrightarrow> mem t b = mem s b)"
proof -
  have n: "x \<notin> set xs" "x \<noteq> d" using x(2) by (auto simp: pt_page_def)
  obtain t where t: "kfree x s = Done () t" "free_pages t (x # xs)" "mframe s t" "\<And>b. \<not> in_page x b \<Longrightarrow> mem t b = mem s b"
    using km.free_law [OF pgdir_okD(1) [OF ok] x(1) n(1)] by blast
  have al: "pg_aligned x" using x(1) by (simp add: page_ok_def)
  have same: "mem t b = mem s b" if "pt_page s xs d p" "in_page p b" for p b
    using that t(4) [of b] in_page_unique [OF al pt_page_aligned [OF ok that(1)]] x(2) by metis
  have e: "has_table (mem t) d va = has_table (mem s) d va" "table (mem t) d va = table (mem s) d va"
    "pte_of (mem t) d va = pte_of (mem s) d va" for va
    using same by (intro same_entries pgdir_okD(2) [OF ok]; auto simp: pt_page_def)+
  have xt: "table (mem s) d va \<noteq> x" if "has_table (mem s) d va" for va using that x(2) by (auto simp: pt_page_def)
  have old: "page_ok s (table (mem s) d va) \<and> table (mem s) d va \<notin> set (x # xs) \<and> table (mem s) d va \<noteq> d"
    if "has_table (mem s) d va" for va
    using pgdir_okD(5,6,7) [OF ok that] xt [OF that] by simp
  have "d \<notin> set (x # xs)" using pgdir_okD(3) [OF ok] n(2) by simp
  then have "pgdir_ok t (x # xs) d"
    unfolding pgdir_ok_def e(1,2) km.frame_okpg [OF t(3)] using t(2) pgdir_okD(4) [OF ok] old pgdir_okD(8) [OF ok] by blast
  moreover have "pt_page t (x # xs) d p \<longleftrightarrow> p = x \<or> pt_page s xs d p" for p unfolding pt_page_def e by auto
  ultimately show ?thesis using t(1,3,4) e by (intro exI [of _ t]) simp
qed

text \<open>The pages behind the first are still there when its frame is free and its entry clear.\<close>

lemma own_rest:
  fixes s :: "'z mstate_scheme"
  assumes a: "pg_aligned a" and n: "n < 2 ^ 20" and own: "own_pages s xs d a (Suc n)" and fr: "mframe s u"
    and pte: "\<And>va. pte_of (mem u) d va = (if PGROUNDDOWN va = a then 0 else pte_of (mem s) d va)"
    and pt: "\<And>p. pt_page u (frame_of (mem s) d a # xs) d p \<Longrightarrow> p = frame_of (mem s) d a \<or> pt_page s xs d p"
  shows "own_pages u (frame_of (mem s) d a # xs) d (a + PGSIZE) n"
proof -
  let ?x = "frame_of (mem s) d a"
  have r: "in_range a (Suc n) a" using in_range_Suc(1) [OF a n] PGROUNDDOWN_id [OF a] by simp
  have ne: "PGROUNDDOWN va \<noteq> a" "in_range a (Suc n) va" if "in_range (a + PGSIZE) n va" for va
    using in_range_Suc [OF a n, of va] that by blast+
  have inj: "PGROUNDDOWN va = PGROUNDDOWN vb"
    if "in_range a (Suc n) va" "in_range a (Suc n) vb" "frame_of (mem s) d va = frame_of (mem s) d vb" for va vb
    using own that unfolding own_pages_def by blast
  have f1: "frame_of (mem u) d va = frame_of (mem s) d va" if "in_range (a + PGSIZE) n va" for va
    using ne(1) [OF that] by (simp add: frame_of_def pte)
  have f2: "frame_of (mem s) d va \<noteq> ?x" if "in_range (a + PGSIZE) n va" for va
    using inj [OF ne(2) [OF that] r] ne(1) [OF that] unfolding PGROUNDDOWN_id [OF a] by blast
  show ?thesis
    unfolding own_pages_def km.frame_okpg [OF fr]
  proof (intro conjI allI impI)
    fix va assume v: "in_range (a + PGSIZE) n va"
    have "pte_of (mem s) d va AND PTE_P \<noteq> 0" using own ne(2) [OF v] unfolding own_pages_def by blast
    then show "pte_of (mem u) d va AND PTE_P \<noteq> 0" using ne(1) [OF v] by (simp add: pte)
    show "page_ok s (frame_of (mem u) d va)" using own ne(2) [OF v] unfolding own_pages_def f1 [OF v] by blast
    have "\<not> pt_page s xs d (frame_of (mem s) d va)" using own ne(2) [OF v] unfolding own_pages_def by blast
    then show "\<not> pt_page u (?x # xs) d (frame_of (mem u) d va)" unfolding f1 [OF v] using pt f2 [OF v] by blast
  next
    fix va vb assume v: "in_range (a + PGSIZE) n va" "in_range (a + PGSIZE) n vb" "frame_of (mem u) d va = frame_of (mem u) d vb"
    then show "PGROUNDDOWN va = PGROUNDDOWN vb"
      using inj [OF ne(2) [OF v(1)] ne(2) [OF v(2)]] unfolding f1 [OF v(1)] f1 [OF v(2)] by blast
  qed
qed

text \<open>One iteration of \<open>deallocuvm\<close>: the frame is freed, then the entry cleared.\<close>

lemma free_one:
  fixes s :: "'z mstate_scheme"
  assumes ok: "pgdir_ok s xs d" and a: "pg_aligned a" and n: "n < 2 ^ 20" and own: "own_pages s xs d a (Suc n)"
  defines "x \<equiv> frame_of (mem s) d a"
  shows "has_table (mem s) d a" "pte_of (mem s) d a AND PTE_P \<noteq> 0"
    and "\<exists>t u. kfree x s = Done () t \<and> u = upd_mem (st32 (table (mem s) d a + 4 * PTX a) 0) t \<and>
      pgdir_ok u (x # xs) d \<and> mframe s u \<and> own_pages u (x # xs) d (a + PGSIZE) n \<and> x \<notin> set xs \<and>
      (\<forall>va. pte_of (mem u) d va = (if PGROUNDDOWN va = a then 0 else pte_of (mem s) d va)) \<and>
      (\<forall>p. pt_page u (x # xs) d p \<longrightarrow> p = x \<or> pt_page s xs d p) \<and>
      (\<forall>b. \<not> in_page x b \<and> (\<forall>p. pt_page s xs d p \<longrightarrow> \<not> in_page p b) \<longrightarrow> mem u b = mem s b)"
proof -
  have r: "in_range a (Suc n) a" using in_range_Suc(1) [OF a n] PGROUNDDOWN_id [OF a] by simp
  then show pr: "pte_of (mem s) d a AND PTE_P \<noteq> 0" using own by (simp add: own_pages_def)
  then show h: "has_table (mem s) d a" by (auto simp: pte_of_def split: if_splits)
  have x: "page_ok s x" "\<not> pt_page s xs d x" using own r by (simp_all add: own_pages_def x_def)
  obtain t where t: "kfree x s = Done () t" "mframe s t" "pgdir_ok t (x # xs) d"
    "\<And>p. pt_page t (x # xs) d p \<longleftrightarrow> p = x \<or> pt_page s xs d p"
    "\<And>va. has_table (mem t) d va = has_table (mem s) d va" "\<And>va. table (mem t) d va = table (mem s) d va"
    "\<And>va. pte_of (mem t) d va = pte_of (mem s) d va" "\<And>b. \<not> in_page x b \<Longrightarrow> mem t b = mem s b"
    using give_page [OF ok x] by blast
  let ?u = "upd_mem (st32 (table (mem s) d a + 4 * PTX a) 0) t"
  have ht: "has_table (mem t) d a" using h t(5) by simp
  have u: "pgdir_ok ?u (x # xs) d" "pt_frame t (x # xs) d ?u (x # xs)"
    "\<And>va. pte_of (mem ?u) d va = (if PGROUNDDOWN va = a then 0 else pte_of (mem s) d va)"
    using store_pte [OF t(3) ht, of 0] unfolding t(6,7) PGROUNDDOWN_id [OF a] by blast+
  have fr: "mframe s ?u" using t(2) u(2) km.frame_trans unfolding pt_frame_def by blast
  have pt: "p = x \<or> pt_page s xs d p" if "pt_page ?u (x # xs) d p" for p using that u(2) t(4) unfolding pt_frame_def by blast
  have out: "mem ?u b = mem s b" if "\<not> in_page x b" "\<forall>p. pt_page s xs d p \<longrightarrow> \<not> in_page p b" for b
    using that u(2) t(4) t(8) [of b] unfolding pt_frame_def by metis
  have "own_pages ?u (x # xs) d (a + PGSIZE) n"
    unfolding x_def by (rule own_rest [OF a n own fr u(3)]) (use pt in \<open>simp add: x_def\<close>)
  moreover have "x \<notin> set xs" using x(2) by (simp add: pt_page_def)
  ultimately show "\<exists>t u. kfree x s = Done () t \<and> u = upd_mem (st32 (table (mem s) d a + 4 * PTX a) 0) t \<and>
      pgdir_ok u (x # xs) d \<and> mframe s u \<and> own_pages u (x # xs) d (a + PGSIZE) n \<and> x \<notin> set xs \<and>
      (\<forall>va. pte_of (mem u) d va = (if PGROUNDDOWN va = a then 0 else pte_of (mem s) d va)) \<and>
      (\<forall>p. pt_page u (x # xs) d p \<longrightarrow> p = x \<or> pt_page s xs d p) \<and>
      (\<forall>b. \<not> in_page x b \<and> (\<forall>p. pt_page s xs d p \<longrightarrow> \<not> in_page p b) \<longrightarrow> mem u b = mem s b)"
    using t(1) u(1,3) fr pt out by (intro exI [of _ t] exI [of _ ?u]) blast
qed

section \<open>Shrinking a process\<close>

text \<open>
  From \<open>s\<close> to \<open>t\<close> the page table \<open>d\<close> lost the \<open>n\<close> pages from \<open>a\<close> on: their entries are clear, and their frames are free beside
  the pages that were. No other entry changed, and no byte outside these frames, the free pages and the page table.
\<close>

definition freed_pages :: "'z mstate_scheme \<Rightarrow> uint list \<Rightarrow> uint \<Rightarrow> 'z mstate_scheme \<Rightarrow> uint list \<Rightarrow> uint \<Rightarrow> nat \<Rightarrow> bool" where
  "freed_pages s xs d t ys a n \<longleftrightarrow> pgdir_ok t ys d \<and> mframe s t \<and> length ys = length xs + n \<and>
     set ys = set xs \<union> frame_of (mem s) d ` {va. in_range a n va} \<and>
     (\<forall>va. pte_of (mem t) d va = (if in_range a n va then 0 else pte_of (mem s) d va)) \<and>
     (\<forall>b. (\<forall>p. pt_page s xs d p \<or> p \<in> frame_of (mem s) d ` {va. in_range a n va} \<longrightarrow> \<not> in_page p b) \<longrightarrow> mem t b = mem s b)"

lemma freed_0: "pgdir_ok s xs d \<Longrightarrow> freed_pages s xs d s xs a 0"
  by (simp add: freed_pages_def km.frame_refl)

lemma frame_of_page: "frame_of m d (PGROUNDDOWN va) = frame_of m d va"
  by (simp add: frame_of_def pte_of_page)

lemma freed_Suc:
  fixes s :: "'z mstate_scheme"
  assumes a: "pg_aligned a" and n: "n < 2 ^ 20"
    and u: "mframe s u" "\<And>va. pte_of (mem u) d va = (if PGROUNDDOWN va = a then 0 else pte_of (mem s) d va)"
      "\<And>p. pt_page u (frame_of (mem s) d a # xs) d p \<Longrightarrow> p = frame_of (mem s) d a \<or> pt_page s xs d p"
      "\<And>b. \<not> in_page (frame_of (mem s) d a) b \<Longrightarrow> (\<And>p. pt_page s xs d p \<Longrightarrow> \<not> in_page p b) \<Longrightarrow> mem u b = mem s b"
    and t: "freed_pages u (frame_of (mem s) d a # xs) d t ys (a + PGSIZE) n"
  shows "freed_pages s xs d t ys a (Suc n)"
proof -
  let ?x = "frame_of (mem s) d a" and ?R = "{va. in_range a (Suc n) va}" and ?Q = "{va. in_range (a + PGSIZE) n va}"
  have f: "frame_of (mem u) d va = frame_of (mem s) d va" if "va \<in> ?Q" for va
    using in_range_Suc(2) [OF a n] that by (simp add: frame_of_def u(2))
  have "frame_of (mem s) d va = ?x" if "PGROUNDDOWN va = a" for va using frame_of_page [of "mem s" d va] that by simp
  moreover have "a \<in> ?R" using in_range_Suc(1) [OF a n] PGROUNDDOWN_id [OF a] by simp
  ultimately have im: "frame_of (mem s) d ` ?R = insert ?x (frame_of (mem s) d ` ?Q)" using in_range_Suc(1) [OF a n] by auto
  have imu: "frame_of (mem u) d ` ?Q = frame_of (mem s) d ` ?Q" using f by (rule image_cong [OF refl])
  note t' = t [unfolded freed_pages_def imu]
  have pte: "pte_of (mem t) d va = (if in_range a (Suc n) va then 0 else pte_of (mem s) d va)" for va
    using t' in_range_Suc(1) [OF a n, of va] by (simp add: u(2))
  have out: "mem t b = mem s b" if h: "\<forall>p. pt_page s xs d p \<or> p \<in> frame_of (mem s) d ` ?R \<longrightarrow> \<not> in_page p b" for b
  proof -
    have "\<forall>p. pt_page u (?x # xs) d p \<or> p \<in> frame_of (mem s) d ` ?Q \<longrightarrow> \<not> in_page p b" using h u(3) unfolding im by blast
    then have "mem t b = mem u b" using t' by blast
    also have "\<dots> = mem s b" using h u(4) unfolding im by blast
    finally show ?thesis .
  qed
  have "mframe s t" "pgdir_ok t ys d" "length ys = length xs + Suc n" "set ys = set xs \<union> frame_of (mem s) d ` ?R"
    using t' u(1) km.frame_trans unfolding im by (blast, blast, simp, simp)
  then show ?thesis unfolding freed_pages_def using pte out by blast
qed

lemma deallocuvm_loop_spec:
  fixes s :: "'z mstate_scheme"
  assumes "pgdir_ok s xs d" "pg_aligned a" "grow_pages a oldsz \<le> f" "oldsz < KERNBASE"
    "own_pages s xs d a (grow_pages a oldsz)" "KERNBASE < kend s"
  shows "\<exists>t ys. deallocuvm_loop f d a oldsz s = Done () t \<and> freed_pages s xs d t ys a (grow_pages a oldsz)"
  using assms
proof (induction f arbitrary: a s xs)
  case 0
  then have "\<not> a < oldsz" using grow_pages_step(2) [of a oldsz] by auto
  then show ?case using freed_0 [OF 0(1)] grow_pages_0 by (auto simp: kret_eq)
next
  case (Suc f)
  show ?case
  proof (cases "a < oldsz")
    case False
    then show ?thesis using freed_0 [OF Suc.prems(1)] grow_pages_0 by (auto simp: kret_eq)
  next
    case True
    note g = grow_pages_step [OF True Suc.prems(4)]
    let ?n = "grow_pages (a + PGSIZE) oldsz" and ?x = "frame_of (mem s) d a" and ?e = "table (mem s) d a + 4 * PTX a"
    have n: "?n < 2 ^ 20" using g by simp
    note one = free_one [OF Suc.prems(1,2) n Suc.prems(5) [unfolded g(2)]]
    obtain t u where u: "kfree ?x s = Done () t" "u = upd_mem (st32 ?e 0) t" "pgdir_ok u (?x # xs) d" "mframe s u"
      "own_pages u (?x # xs) d (a + PGSIZE) ?n"
      "\<And>va. pte_of (mem u) d va = (if PGROUNDDOWN va = a then 0 else pte_of (mem s) d va)"
      "\<And>p. pt_page u (?x # xs) d p \<Longrightarrow> p = ?x \<or> pt_page s xs d p"
      "\<And>b. \<not> in_page ?x b \<Longrightarrow> (\<And>p. pt_page s xs d p \<Longrightarrow> \<not> in_page p b) \<Longrightarrow> mem u b = mem s b"
      using one(3) by blast
    have w: "walkpgdir d a False s = Done ?e s" "?e \<noteq> 0"
      using one(1) entry_nonzero [OF Suc.prems(1) one(1)] by (simp_all add: walk_lookup)
    have l: "kload ?e s = Done (pte_of (mem s) d a) s" using one(1) by (simp add: kload_def kop_simps pte_of_def)
    have "in_range a (grow_pages a oldsz) a"
      unfolding g(2) using in_range_Suc(1) [OF Suc.prems(2) n] PGROUNDDOWN_id [OF Suc.prems(2)] by simp
    then have "page_ok s ?x" using Suc.prems(5) unfolding own_pages_def by blast
    then have "kend s \<le> ?x" by (simp add: page_ok_def)
    then have "?x \<noteq> KERNBASE" using Suc.prems(6) by (metis not_le)
    then have nz: "PTE_ADDR (pte_of (mem s) d a) \<noteq> 0" by (auto simp: frame_of_def p2v_def)
    have e: "deallocuvm_loop (Suc f) d a oldsz s = deallocuvm_loop f d (a + PGSIZE) oldsz u"
      using True w l nz one(2) u(1,2) by (simp add: kop_simps kstore_def frame_of_def)
    have "KERNBASE < kend u" using Suc.prems(6) u(4) by (simp add: mframe_def)
    then obtain v ys where v: "deallocuvm_loop f d (a + PGSIZE) oldsz u = Done () v"
      "freed_pages u (?x # xs) d v ys (a + PGSIZE) ?n"
      using Suc.IH [OF u(3) aligned_add [OF Suc.prems(2)] _ Suc.prems(4) u(5)] Suc.prems(3) g(2) by auto
    then show ?thesis using freed_Suc [OF Suc.prems(2) n u(4,6,7,8)] unfolding e g(2) by blast
  qed
qed

lemma deallocuvm_all:
  fixes s :: "'z mstate_scheme"
  assumes "pgdir_ok s xs d" "0 < sz" "sz < KERNBASE" "own_pages s xs d 0 (grow_pages 0 sz)" "KERNBASE < kend s"
  shows "\<exists>t ys. deallocuvm d sz 0 s = Done 0 t \<and> freed_pages s xs d t ys 0 (grow_pages 0 sz)"
proof -
  have up: "PGROUNDUP 0 = 0" "pg_aligned 0" by (simp_all add: PGROUNDUP_def PGSIZE_def pg_aligned_def)
  obtain t ys where t: "deallocuvm_loop (unat (sz - 0) div 4096 + 1) d 0 sz s = Done () t" "freed_pages s xs d t ys 0 (grow_pages 0 sz)"
    using deallocuvm_loop_spec [OF assms(1) up(2) grow_pages_fuel assms(3-5)] by blast
  have "\<not> sz \<le> 0" using assms(2) by (simp add: not_le)
  then show ?thesis using t unfolding deallocuvm_def Let_def up(1) by (auto simp: kop_simps simp del: deallocuvm_loop.simps)
qed

lemma growproc_negative:
  fixes sz :: uint
  assumes "0 < sz" "sz < KERNBASE"
  shows "sint (- sz) < 0"
proof -
  have u: "0 < uint sz" "uint sz < 2 ^ 31" using assms by (simp_all add: KERNBASE_def word_less_def)
  then have "signed_take_bit 31 (uint sz) = uint sz" "signed_take_bit 31 (- uint sz) = - uint sz"
    by (intro signed_take_bit_int_eq_self; simp)+
  moreover from this have "sint sz = uint sz" by (simp add: sint_uint)
  ultimately have "sint (- sz) = - uint sz" by (simp add: sint_word_ariths)
  then show ?thesis using u(1) by simp
qed

section \<open>The property\<close>

text \<open>
  C38. \<open>growproc\<close> reports failure when it gives back all the memory of a process: \<open>deallocuvm\<close> returns the new
  size, which is 0, and \<open>growproc\<close> takes 0 as its failure value. The system call returns -1 and the process table is as before, with the
  old size of the process; but every page of the process is gone. None of its addresses can be read any more, and all of its
  frames are on the free list.
\<close>

theorem growproc_shrink_to_zero:
  fixes s :: "'z pstate_scheme"
  assumes "curproc s = Some i" "d = p_pgdir (ptable s i)" "sz = p_sz (ptable s i)" "0 < sz" "sz < KERNBASE"
    "pgdir_ok s xs d" "own_pages s xs d 0 (grow_pages 0 sz)" "KERNBASE < kend s"
  shows "\<exists>t ys. growproc (- sz) s = Done (- 1) t \<and> ptable t = ptable s \<and> p_sz (ptable t i) = sz \<and>
    (\<forall>va < sz. \<forall>w. translate (mem s) d False va \<noteq> None \<and> translate (mem t) d w va = None) \<and>
    free_pages t ys \<and> length ys = length xs + grow_pages 0 sz \<and>
    (\<forall>va < sz. frame_of (mem s) d va \<notin> set xs \<and> frame_of (mem s) d va \<in> set ys)"
proof -
  obtain t ys where t: "deallocuvm d sz 0 s = Done 0 t" "freed_pages s xs d t ys 0 (grow_pages 0 sz)"
    using deallocuvm_all [OF assms(6,4,5,7,8)] by blast
  have "growproc (- sz) s = Done (- 1) t"
    using growproc_negative [OF assms(4,5)] assms(1-4) t(1) by (simp add: growproc_def kop_simps word_neq_0_conv)
  moreover have "ptable t = ptable s" using t(2) by (cases s; cases t) (simp add: freed_pages_def mframe_def)
  moreover have r: "in_range 0 (grow_pages 0 sz) va" if "va < sz" for va using user_range(2) [OF assms(5) that] .
  then have "translate (mem s) d False va \<noteq> None" "translate (mem t) d w va = None"
    "frame_of (mem s) d va \<notin> set xs" "frame_of (mem s) d va \<in> set ys" if "va < sz" for va w
    using assms(7) t(2) r [OF that] unfolding own_pages_def freed_pages_def translate_pte Let_def pt_page_def by simp_all
  moreover have "free_pages t ys" "length ys = length xs + grow_pages 0 sz"
    using t(2) pgdir_okD(1) unfolding freed_pages_def by blast+
  ultimately show ?thesis using assms(3) by (intro exI [of _ t] exI [of _ ys]) simp
qed

text \<open>A process of one page.\<close>

lemma fresh_own:
  assumes "fresh_pages s xs d t ys a n (\<lambda>_. PTE_W OR PTE_U) C" "pgdir_ok s xs d"
  shows "own_pages t ys d a n"
proof -
  obtain h where h: "\<And>va. in_range a n va \<Longrightarrow> pte_of (mem t) d va = v2p (h (PGROUNDDOWN va)) OR (PTE_W OR PTE_U) OR PTE_P"
      "\<And>va. in_range a n va \<Longrightarrow> h (PGROUNDDOWN va) \<in> set xs \<and> \<not> pt_page t ys d (h (PGROUNDDOWN va))"
      "\<And>va vb. in_range a n va \<Longrightarrow> in_range a n vb \<Longrightarrow> h (PGROUNDDOWN va) = h (PGROUNDDOWN vb) \<Longrightarrow> PGROUNDDOWN va = PGROUNDDOWN vb"
    and fr: "mframe s t" using assms(1) unfolding fresh_pages_def by auto
  have x: "page_ok s (h (PGROUNDDOWN va))" if "in_range a n va" for va
    using h(2) [OF that] pgdir_okD(1) [OF assms(2)] by (auto simp: free_pages_def)
  have f: "frame_of (mem t) d va = h (PGROUNDDOWN va)" if "in_range a n va" for va
  proof -
    have "pg_aligned (v2p (h (PGROUNDDOWN va)))" using x [OF that] aligned_shift(1) by (auto simp: page_ok_def)
    then have "PTE_ADDR (pte_of (mem t) d va) = v2p (h (PGROUNDDOWN va))"
      unfolding h(1) [OF that] by (rule PTE_ADDR_flags) (auto simp: bit_or_iff flag_bits)
    then show ?thesis by (simp add: frame_of_def)
  qed
  have "pte_of (mem t) d va AND PTE_P \<noteq> 0" if "in_range a n va" for va
    unfolding h(1) [OF that] present_iff by (simp add: bit_or_iff flag_bits)
  then show ?thesis unfolding own_pages_def km.frame_okpg [OF fr] using x h(2,3) f by metis
qed

lemma space_cong:
  assumes "mem t = mem s" "freelist t = freelist s" "kend t = kend s"
  shows "pgdir_ok t xs d = pgdir_ok s xs d" "own_pages t xs d a n = own_pages s xs d a n"
  by (simp_all add: assms pgdir_ok_def own_pages_def free_pages_def page_ok_def pt_page_def)

theorem growproc_shrink_to_zero_witness:
  "\<exists>(s :: pstate) t. p_sz (ptable s 0) = 0x1000 \<and> translate (mem s) (p_pgdir (ptable s 0)) False 0x123 \<noteq> None \<and>
     growproc (- 0x1000) s = Done (- 1) t \<and> p_sz (ptable t 0) = 0x1000 \<and>
     translate (mem t) (p_pgdir (ptable t 0)) False 0x123 = None"
proof -
  obtain s0 :: mstate and xs d where s0: "pgdir_ok s0 xs d" "\<forall>va < KERNBASE. pte_of (mem s0) d va = 0" "300 < length xs" "KERNBASE < kend s0"
    using demo_space by blast
  have up: "PGROUNDUP 0 = 0" "grow_pages 0 0x1000 = 1" by (simp_all add: PGROUNDUP_def PGSIZE_def grow_pages_def)
  have "pte_of (mem s0) d va AND PTE_P = 0" if "in_range 0 (grow_pages 0 0x1000) va" for va
    using user_range(1) [OF _ that] s0(2) by (simp add: KERNBASE_def)
  then obtain s1 ys where s1: "fresh_pages s0 xs d s1 ys 0 (grow_pages 0 0x1000) (\<lambda>_. PTE_W OR PTE_U) (\<lambda>_ _. 0)"
    using allocuvm_spec [of s0 xs d 0 "0x1000"] s0(1,3) unfolding up(1) by (auto simp: up(2) KERNBASE_def)
  let ?s = "\<lparr>mem = mem s1, freelist = freelist s1, use_lock = False, kend = kend s1, kdata = kdata s1, kpgdir = 0, cr3 = 0,
     ptable = (\<lambda>_. zero_proc\<lparr>p_pgdir := d, p_sz := 0x1000\<rparr>), curproc = Some 0, initproc = None, nextpid = 1\<rparr> :: pstate"
  have "pgdir_ok s1 ys d" "KERNBASE < kend s1" using s1 s0(4) by (simp_all add: fresh_pages_def mframe_def)
  moreover have "own_pages s1 ys d 0 (grow_pages 0 0x1000)" by (rule fresh_own [OF s1 s0(1)])
  moreover have "mem ?s = mem s1" "freelist ?s = freelist s1" "kend ?s = kend s1" by simp_all
  note c = space_cong [OF this]
  ultimately have h: "pgdir_ok ?s ys d" "own_pages ?s ys d 0 (grow_pages 0 0x1000)" "KERNBASE < kend ?s" unfolding c by simp_all
  have p: "curproc ?s = Some 0" "d = p_pgdir (ptable ?s 0)" "0x1000 = p_sz (ptable ?s 0)" by simp_all
  have k: "(0 :: uint) < 0x1000" "(0x1000 :: uint) < KERNBASE" by (simp_all add: KERNBASE_def)
  obtain t where t: "growproc (- 0x1000) ?s = Done (- 1) t" "ptable t = ptable ?s"
    "\<forall>va < 0x1000. \<forall>w. translate (mem ?s) d False va \<noteq> None \<and> translate (mem t) d w va = None"
    using growproc_shrink_to_zero [OF p k h] by blast
  have "(0x123 :: uint) < 0x1000" by simp
  then have "translate (mem ?s) d False 0x123 \<noteq> None" "translate (mem t) d False 0x123 = None" using t(3) by blast+
  then show ?thesis using t(1,2) p(2,3) by (intro exI [of _ ?s] exI [of _ t]) simp
qed

end
