(* ===== verification/Ide.thy ===== *)
theory Ide
  imports Disk
begin

text \<open>
  The driver of the IDE disk (ide.c). Requests wait in a queue of buffers linked by \<open>qnext\<close>; the first one is the one the
  disk works on, and the interrupt handler completes it and starts the next.

  What the driver reads from the disk's ports are parameters: \<open>inb k\<close> is the result of the \<open>k\<close>-th read of the status register
  and \<open>insl k\<close> the block of the \<open>k\<close>-th data transfer. What it writes to the ports is collected in \<open>port_out\<close>. The lock
  \<open>idelock\<close> is held over each of the operations, which are therefore single steps; the interrupt controller calls of
  \<open>ideinit\<close> are not represented.
\<close>

section \<open>Data\<close>

definition IDE_BSY :: uchar where "IDE_BSY = 0x80"

definition IDE_DRDY :: uchar where "IDE_DRDY = 0x40"

definition IDE_DF :: uchar where "IDE_DF = 0x20"

definition IDE_ERR :: uchar where "IDE_ERR = 0x01"

definition IDE_CMD_READ :: uchar where "IDE_CMD_READ = 0x20"

definition IDE_CMD_WRITE :: uchar where "IDE_CMD_WRITE = 0x30"

datatype port_write = Outb ushort uchar | Outsl ushort "uchar list"

record idestate = bstate +
  idequeue :: "nat option"
  qnext :: "nat \<Rightarrow> nat option"
  havedisk1 :: bool
  port_out :: "port_write list"
  status_reads :: nat
  data_reads :: nat

section \<open>Operations\<close>

text \<open>The loop of \<open>idewait\<close>: the number of the first read that finds the disk ready.\<close>

partial_function (option) wait_ready :: "(nat \<Rightarrow> uchar) \<Rightarrow> nat \<Rightarrow> nat option" where
  "wait_ready inb k = (if inb k AND (IDE_BSY OR IDE_DRDY) = IDE_DRDY then Some k else wait_ready inb (Suc k))"

definition idewait :: "(nat \<Rightarrow> uchar) \<Rightarrow> bool \<Rightarrow> ('z idestate_scheme, cint) kop" where
  "idewait inb checkerr s = (case wait_ready inb (status_reads s) of
       None \<Rightarrow> Diverge
     | Some k \<Rightarrow> Done (if checkerr \<and> inb k AND (IDE_DF OR IDE_ERR) \<noteq> 0 then - 1 else 0) (s\<lparr>status_reads := Suc k\<rparr>))"

definition outb :: "ushort \<Rightarrow> uchar \<Rightarrow> ('z idestate_scheme, unit) kop" where
  "outb p v = kmodify (\<lambda>s. s\<lparr>port_out := port_out s @ [Outb p v]\<rparr>)"

definition outsl :: "ushort \<Rightarrow> uchar list \<Rightarrow> ('z idestate_scheme, unit) kop" where
  "outsl p d = kmodify (\<lambda>s. s\<lparr>port_out := port_out s @ [Outsl p d]\<rparr>)"

text \<open>The loop of \<open>ideinit\<close> that looks for disk 1: at most \<open>n\<close> reads of the status register.\<close>

fun probe_disk1 :: "(nat \<Rightarrow> uchar) \<Rightarrow> nat \<Rightarrow> nat \<Rightarrow> bool \<times> nat" where
  "probe_disk1 inb 0 k = (False, k)"
| "probe_disk1 inb (Suc n) k = (if inb k \<noteq> 0 then (True, Suc k) else probe_disk1 inb n (Suc k))"

definition ideinit_pio :: "(nat \<Rightarrow> uchar) \<Rightarrow> ('z idestate_scheme, unit) kop" where
  "ideinit_pio inb =
     kseq (idewait inb False)
     (kseq (outb 0x1f6 (0xe0 OR 0x10))
     (kseq (kmodify (\<lambda>s. case probe_disk1 inb 1000 (status_reads s) of (found, k) \<Rightarrow>
        s\<lparr>havedisk1 := havedisk1 s \<or> found, status_reads := k\<rparr>))
     (outb 0x1f6 0xe0)))"

definition idestart :: "(nat \<Rightarrow> uchar) \<Rightarrow> nat option \<Rightarrow> ('z idestate_scheme, unit) kop" where
  "idestart inb p = (case p of
       None \<Rightarrow> kpanic ''idestart''
     | Some b \<Rightarrow>
         kbind (kget (\<lambda>s. bufs s b)) (\<lambda>bb.
         kseq (idewait inb False)
         (kseq (outb 0x3f6 0)
         (kseq (outb 0x1f2 1)
         (kseq (outb 0x1f3 (ucast (b_sector bb AND 0xff)))
         (kseq (outb 0x1f4 (ucast (drop_bit 8 (b_sector bb) AND 0xff)))
         (kseq (outb 0x1f5 (ucast (drop_bit 16 (b_sector bb) AND 0xff)))
         (kseq (outb 0x1f6 (ucast (0xe0 OR push_bit 4 (b_dev bb AND 1) OR (drop_bit 24 (b_sector bb) AND 0x0f))))
         (if b_dirty bb then kseq (outb 0x1f7 IDE_CMD_WRITE) (outsl 0x1f0 (b_data bb))
          else outb 0x1f7 IDE_CMD_READ)))))))))"

definition ideintr :: "(nat \<Rightarrow> uchar) \<Rightarrow> (nat \<Rightarrow> uchar list) \<Rightarrow> ('z idestate_scheme, unit) kop" where
  "ideintr inb insl =
     kbind (kget idequeue) (\<lambda>p.
     case p of
       None \<Rightarrow> kret ()
     | Some b \<Rightarrow>
         kseq (kmodify (\<lambda>s. s\<lparr>idequeue := qnext s b\<rparr>))
         (kbind (kget (\<lambda>s. b_dirty (bufs s b))) (\<lambda>dirty.
         kseq (if dirty then kret ()
               else kbind (idewait inb True) (\<lambda>r.
                 kwhen (0 \<le> sint r)
                   (kmodify (\<lambda>s. (upd_buf b (\<lambda>bb. bb\<lparr>b_data := insl (data_reads s)\<rparr>) s)\<lparr>data_reads := Suc (data_reads s)\<rparr>))))
         (kseq (kmodify (upd_buf b (\<lambda>bb. bb\<lparr>b_valid := True, b_dirty := False\<rparr>)))
         (kseq (wakeup (ChBuf b))
         (kbind (kget idequeue) (\<lambda>q.
         kwhen (q \<noteq> None) (idestart inb q))))))))"

text \<open>The end of the queue that \<open>iderw\<close> looks for, from a buffer of the queue on.\<close>

partial_function (option) queue_end :: "(nat \<Rightarrow> nat option) \<Rightarrow> nat \<Rightarrow> nat option" where
  "queue_end q b = (case q b of None \<Rightarrow> Some b | Some c \<Rightarrow> queue_end q c)"

definition append_request :: "nat \<Rightarrow> ('z idestate_scheme, unit) kop" where
  "append_request b s =
     (let q = (qnext s)(b := None) in
      case idequeue s of
        None \<Rightarrow> Done () (s\<lparr>qnext := q, idequeue := Some b\<rparr>)
      | Some h \<Rightarrow> (case queue_end q h of
           None \<Rightarrow> Diverge
         | Some e \<Rightarrow> Done () (s\<lparr>qnext := q(e := Some b)\<rparr>)))"

text \<open>\<open>iderw\<close> up to its wait, and the wait, which is entered again after each wakeup.\<close>

definition iderw_request :: "(nat \<Rightarrow> uchar) \<Rightarrow> nat \<Rightarrow> ('z idestate_scheme, unit) kop" where
  "iderw_request inb b =
     kbind (kget (\<lambda>s. bufs s b)) (\<lambda>bb.
     kbind (kget havedisk1) (\<lambda>h.
     if \<not> b_busy bb then kpanic ''iderw: buf not busy''
     else if b_valid bb \<and> \<not> b_dirty bb then kpanic ''iderw: nothing to do''
     else if b_dev bb \<noteq> 0 \<and> \<not> h then kpanic ''iderw: ide disk 1 not present''
     else
       kseq (append_request b)
       (kbind (kget idequeue) (\<lambda>q.
       kwhen (q = Some b) (idestart inb q)))))"

definition iderw_wait :: "nat \<Rightarrow> ('z idestate_scheme, unit) kop" where
  "iderw_wait b =
     kbind (kget (\<lambda>s. bufs s b)) (\<lambda>bb.
     if b_valid bb \<and> \<not> b_dirty bb then kret () else sleep (ChBuf b))"

definition iderw_pio :: "(nat \<Rightarrow> uchar) \<Rightarrow> nat \<Rightarrow> ('z idestate_scheme, unit) kop" where
  "iderw_pio inb b = kseq (iderw_request inb b) (iderw_wait b)"

text \<open>The probe finds disk 1 exactly if one of its reads is not 0.\<close>

lemma probe_disk1_found: "fst (probe_disk1 inb n k) \<longleftrightarrow> (\<exists>j \<ge> k. j < k + n \<and> inb j \<noteq> 0)"
proof (induction n arbitrary: k)
  case (Suc n)
  show ?case
  proof (cases "inb k = 0")
    case True
    then have "(\<exists>j \<ge> k. j < k + Suc n \<and> inb j \<noteq> 0) \<longleftrightarrow> (\<exists>j \<ge> Suc k. j < Suc k + n \<and> inb j \<noteq> 0)"
      by (metis Suc_leD add_Suc add_Suc_right le_eq_less_or_eq less_eq_Suc_le)
    then show ?thesis using True Suc.IH by simp
  next
    case False
    then show ?thesis by (auto intro!: exI [of _ k])
  qed
qed simp

section \<open>What the port writes ask for\<close>

text \<open>
  The command protocol of the disk: sector number, drive and count are taken from the registers when a command is written;
  a write command is complete when its data has been transferred.
\<close>

datatype request = Read bool uint | Write bool uint "uchar list"

record taskfile =
  regs :: "ushort \<Rightarrow> uchar"
  write_pending :: bool
  requests :: "request list"

definition lba :: "(ushort \<Rightarrow> uchar) \<Rightarrow> uint" where
  "lba r = ucast (r 0x1f3) OR push_bit 8 (ucast (r 0x1f4)) OR push_bit 16 (ucast (r 0x1f5)) OR push_bit 24 (ucast (r 0x1f6 AND 0x0f))"

definition drive :: "(ushort \<Rightarrow> uchar) \<Rightarrow> bool" where
  "drive r = bit (r 0x1f6) 4"

fun ata_step :: "taskfile \<Rightarrow> port_write \<Rightarrow> taskfile" where
  "ata_step t (Outb p v) =
     (if p \<noteq> 0x1f7 then t\<lparr>regs := (regs t)(p := v)\<rparr>
      else if v = IDE_CMD_READ then t\<lparr>requests := requests t @ [Read (drive (regs t)) (lba (regs t))]\<rparr>
      else if v = IDE_CMD_WRITE then t\<lparr>write_pending := True\<rparr>
      else t)"
| "ata_step t (Outsl p d) =
     (if p = 0x1f0 \<and> write_pending t
      then t\<lparr>write_pending := False, requests := requests t @ [Write (drive (regs t)) (lba (regs t)) d]\<rparr>
      else t)"

definition ata :: "port_write list \<Rightarrow> taskfile" where
  "ata ws = foldl ata_step \<lparr>regs = (\<lambda>_. 0), write_pending = False, requests = []\<rparr> ws"

text \<open>What a buffer asks for. Sector numbers have 28 bits.\<close>

definition request_of :: "buf \<Rightarrow> request" where
  "request_of bb =
     (if b_dirty bb then Write (bit (b_dev bb) 0) (b_sector bb AND mask 28) (b_data bb)
      else Read (bit (b_dev bb) 0) (b_sector bb AND mask 28))"

section \<open>Starting a request\<close>

definition start_writes :: "buf \<Rightarrow> port_write list" where
  "start_writes bb =
     [Outb 0x3f6 0, Outb 0x1f2 1, Outb 0x1f3 (ucast (b_sector bb AND 0xff)),
      Outb 0x1f4 (ucast (drop_bit 8 (b_sector bb) AND 0xff)), Outb 0x1f5 (ucast (drop_bit 16 (b_sector bb) AND 0xff)),
      Outb 0x1f6 (ucast (0xe0 OR push_bit 4 (b_dev bb AND 1) OR (drop_bit 24 (b_sector bb) AND 0x0f)))] @
     (if b_dirty bb then [Outb 0x1f7 IDE_CMD_WRITE, Outsl 0x1f0 (b_data bb)] else [Outb 0x1f7 IDE_CMD_READ])"

lemma idestart_eq:
  "wait_ready inb (status_reads s) = Some k \<Longrightarrow>
   idestart inb (Some b) s = Done () (s\<lparr>status_reads := Suc k, port_out := port_out s @ start_writes (bufs s b)\<rparr>)"
  by (simp add: idestart_def idewait_def outb_def outsl_def start_writes_def kop_simps)

lemma byte_bits:
  "bit (0xff :: uint) n \<longleftrightarrow> n < 8" "bit (0x0f :: uint) n \<longleftrightarrow> n < 4" "bit (0x0f :: uchar) n \<longleftrightarrow> n < 4"
  "bit (0xe0 :: uint) n \<longleftrightarrow> 5 \<le> n \<and> n < 8"
proof -
  have e: "(0xff :: uint) = mask 8" "(0x0f :: uint) = mask 4" "(0x0f :: uchar) = mask 4" "(0xe0 :: uint) = push_bit 5 (mask 3)"
    by (simp_all add: mask_eq_exp_minus_1)
  show "bit (0xff :: uint) n \<longleftrightarrow> n < 8" "bit (0x0f :: uint) n \<longleftrightarrow> n < 4" "bit (0x0f :: uchar) n \<longleftrightarrow> n < 4"
    "bit (0xe0 :: uint) n \<longleftrightarrow> 5 \<le> n \<and> n < 8"
    unfolding e bit_push_bit_iff bit_mask_iff by (auto simp: possible_bit_def)
qed

lemma byte_of: "bit (ucast (drop_bit k x AND 0xff) :: uchar) n \<longleftrightarrow> n < 8 \<and> bit (x :: uint) (k + n)"
  unfolding bit_unsigned_iff bit_and_iff byte_bits bit_drop_bit_eq by (auto simp: possible_bit_def)

lemma drive_byte:
  "bit (ucast (0xe0 OR push_bit 4 (d AND 1) OR (drop_bit 24 x AND 0x0f)) :: uchar) n \<longleftrightarrow>
   5 \<le> n \<and> n < 8 \<or> n = 4 \<and> bit (d :: uint) 0 \<or> n < 4 \<and> bit (x :: uint) (24 + n)"
  unfolding bit_unsigned_iff bit_or_iff bit_and_iff byte_bits bit_drop_bit_eq bit_push_bit_iff bit_1_iff
  by (auto simp: possible_bit_def)

lemma lba_writes:
  fixes x :: uint
  assumes "r 0x1f3 = ucast (drop_bit 0 x AND 0xff)" "r 0x1f4 = ucast (drop_bit 8 x AND 0xff)"
    "r 0x1f5 = ucast (drop_bit 16 x AND 0xff)" "r 0x1f6 = ucast (0xe0 OR push_bit 4 (d AND 1) OR (drop_bit 24 x AND 0x0f))"
  shows "lba r = x AND mask 28" "drive r = bit d 0"
proof -
  have r: "bit (r 0x1f3) n \<longleftrightarrow> n < 8 \<and> bit x (0 + n)" "bit (r 0x1f4) n \<longleftrightarrow> n < 8 \<and> bit x (8 + n)"
    "bit (r 0x1f5) n \<longleftrightarrow> n < 8 \<and> bit x (16 + n)"
    "bit (r 0x1f6) n \<longleftrightarrow> 5 \<le> n \<and> n < 8 \<or> n = 4 \<and> bit d 0 \<or> n < 4 \<and> bit x (24 + n)" for n
    unfolding assms by (rule byte_of byte_of byte_of drive_byte)+
  show "lba r = x AND mask 28"
  proof (rule bit_word_eqI)
    fix n assume "n < LENGTH(32)"
    then have "n < 32" by simp
    then consider "n < 8" | "8 \<le> n" "n < 16" | "16 \<le> n" "n < 24" | "24 \<le> n" "n < 28" | "28 \<le> n" by linarith
    then show "bit (lba r) n = bit (x AND mask 28) n"
      unfolding lba_def bit_or_iff bit_push_bit_iff bit_unsigned_iff bit_and_iff r byte_bits bit_mask_iff
      using \<open>n < 32\<close> by cases (auto simp: possible_bit_def)
  qed
  show "drive r = bit d 0" unfolding drive_def r by auto
qed

lemma ata_start:
  assumes "\<not> write_pending t"
  shows "requests (foldl ata_step t (start_writes bb)) = requests t @ [request_of bb] \<and>
    \<not> write_pending (foldl ata_step t (start_writes bb))"
proof -
  define v where "v = (ucast (0xe0 OR push_bit 4 (b_dev bb AND 1) OR (drop_bit 24 (b_sector bb) AND 0x0f)) :: uchar)"
  define r where "r = (regs t)(0x3f6 := 0, 0x1f2 := 1, 0x1f3 := ucast (b_sector bb AND 0xff),
      0x1f4 := ucast (drop_bit 8 (b_sector bb) AND 0xff), 0x1f5 := ucast (drop_bit 16 (b_sector bb) AND 0xff), 0x1f6 := v)"
  have "r 0x1f3 = ucast (drop_bit 0 (b_sector bb) AND 0xff)" "r 0x1f4 = ucast (drop_bit 8 (b_sector bb) AND 0xff)"
    "r 0x1f5 = ucast (drop_bit 16 (b_sector bb) AND 0xff)" "r 0x1f6 = v" by (simp_all add: r_def)
  note l = lba_writes [OF this [unfolded v_def]]
  show ?thesis unfolding start_writes_def v_def [symmetric] using assms
    by (simp add: request_of_def r_def [symmetric] IDE_CMD_READ_def IDE_CMD_WRITE_def l)
qed

section \<open>The queue\<close>

text \<open>The buffers on the linked queue, from the one a pointer names on.\<close>

fun qchain :: "(nat \<Rightarrow> nat option) \<Rightarrow> nat option \<Rightarrow> nat list \<Rightarrow> bool" where
  "qchain q p [] \<longleftrightarrow> p = None"
| "qchain q p (b # bs) \<longleftrightarrow> p = Some b \<and> qchain q (q b) bs"

lemma qchain_upd [simp]: "b \<notin> set bs \<Longrightarrow> qchain (q(b := v)) p bs = qchain q p bs"
  by (induction bs arbitrary: p) auto

lemma queue_end_last: "qchain q (Some h) (h # bs) \<Longrightarrow> queue_end q h = Some (last (h # bs))"
proof (induction bs arbitrary: h)
  case Nil
  then show ?case by (subst queue_end.simps) simp
next
  case (Cons c cs)
  then show ?case by (subst queue_end.simps) simp
qed

lemma qchain_snoc:
  assumes "qchain q p bs" "distinct bs" "b \<notin> set bs" "bs \<noteq> []" "q b = None"
  shows "qchain (q(last bs := Some b)) p (bs @ [b])"
  using assms
proof (induction bs arbitrary: p)
  case (Cons c cs)
  show ?case
  proof (cases "cs = []")
    case True
    then show ?thesis using Cons.prems by auto
  next
    case False
    then have "last cs \<noteq> c" using Cons.prems(2) last_in_set by fastforce
    then show ?thesis using Cons False by simp
  qed
qed simp

lemma append_request_eq:
  assumes "qchain (qnext s) (idequeue s) bs" "distinct bs" "b \<notin> set bs"
  shows "\<exists>q p. append_request b s = Done () (s\<lparr>qnext := q, idequeue := p\<rparr>) \<and> qchain q p (bs @ [b]) \<and>
    (p = Some b \<longleftrightarrow> bs = [])"
proof (cases bs)
  case Nil
  then show ?thesis using assms(1) by (auto simp: append_request_def Let_def)
next
  case (Cons h cs)
  let ?q = "(qnext s)(b := None)"
  have c: "qchain ?q (Some h) (h # cs)" "idequeue s = Some h" using assms Cons by auto
  have "qchain (?q(last bs := Some b)) (Some h) (bs @ [b])"
    using qchain_snoc [of ?q "Some h" bs b] c assms(2,3) Cons by auto
  moreover have "append_request b s = Done () (s\<lparr>qnext := ?q(last bs := Some b), idequeue := Some h\<rparr>)"
    using queue_end_last [OF c(1)] c(2) Cons by (simp add: append_request_def Let_def)
  moreover have "h \<noteq> b" using assms(3) Cons by auto
  ultimately show ?thesis using Cons by blast
qed

section \<open>Runs of the driver\<close>

text \<open>The disk becomes ready again and again.\<close>

definition responsive :: "(nat \<Rightarrow> uchar) \<Rightarrow> bool" where
  "responsive inb \<longleftrightarrow> (\<forall>k. \<exists>j \<ge> k. inb j AND (IDE_BSY OR IDE_DRDY) = IDE_DRDY)"

lemma wait_ready_returns:
  assumes "responsive inb"
  shows "\<exists>k. wait_ready inb n = Some k"
proof -
  obtain j where "n \<le> j" "inb j AND (IDE_BSY OR IDE_DRDY) = IDE_DRDY" using assms unfolding responsive_def by blast
  then show ?thesis
  proof (induction "j - n" arbitrary: n)
    case 0
    then show ?case by (subst wait_ready.simps) simp
  next
    case (Suc m)
    then have "m = j - Suc n" "Suc n \<le> j" by simp_all
    then show ?case using Suc by (subst wait_ready.simps) auto
  qed
qed

text \<open>
  A run: requests of buffers that are not waiting, interrupts, anything the owner of a buffer does to it while it is not
  waiting, and anything that happens to the processes, going to sleep in \<open>iderw\<close> among it. \<open>rs\<close> are the requests made, with the buffer and what it asked for; the first \<open>k\<close> are served.
\<close>

inductive ide_run :: "(nat \<Rightarrow> uchar) \<Rightarrow> (nat \<Rightarrow> uchar list) \<Rightarrow> idestate \<Rightarrow> (nat \<times> request) list \<Rightarrow> nat \<Rightarrow> bool"
  for inb insl where
  start: "idequeue s = None \<Longrightarrow> requests (ata (port_out s)) = [] \<Longrightarrow> \<not> write_pending (ata (port_out s)) \<Longrightarrow> ide_run inb insl s [] 0"
| request: "ide_run inb insl s rs k \<Longrightarrow> b \<notin> set (map fst (drop k rs)) \<Longrightarrow> iderw_request inb b s = Done () t \<Longrightarrow>
    ide_run inb insl t (rs @ [(b, request_of (bufs s b))]) k"
| interrupt: "ide_run inb insl s rs k \<Longrightarrow> ideintr inb insl s = Done () t \<Longrightarrow>
    ide_run inb insl t rs (if idequeue s = None then k else Suc k)"
| owner: "ide_run inb insl s rs k \<Longrightarrow> b \<notin> set (map fst (drop k rs)) \<Longrightarrow> ide_run inb insl (upd_buf b f s) rs k"
| procs: "ide_run inb insl s rs k \<Longrightarrow> ide_run inb insl (s\<lparr>ptable := pt, curproc := c\<rparr>) rs k"

text \<open>The state of the driver when the requests \<open>bs\<close> wait and \<open>cs\<close> have been given to the disk.\<close>

definition ide_inv :: "'z idestate_scheme \<Rightarrow> (nat \<times> request) list \<Rightarrow> request list \<Rightarrow> bool" where
  "ide_inv s ws cs \<longleftrightarrow> qchain (qnext s) (idequeue s) (map fst ws) \<and> distinct (map fst ws) \<and>
     (\<forall>(b, r) \<in> set ws. request_of (bufs s b) = r \<and> \<not> (b_valid (bufs s b) \<and> \<not> b_dirty (bufs s b))) \<and>
     requests (ata (port_out s)) = cs \<and> \<not> write_pending (ata (port_out s))"

lemma ata_append: "ata (ws @ vs) = foldl ata_step (ata ws) vs"
  by (simp add: ata_def)

lemma idestart_inv:
  assumes "responsive inb" "ide_inv s ws cs"
  shows "\<exists>t. idestart inb (Some b) s = Done () t \<and> ide_inv t ws (cs @ [request_of (bufs s b)]) \<and> bufs t = bufs s \<and>
    idequeue t = idequeue s \<and> ptable t = ptable s"
proof -
  obtain k where "wait_ready inb (status_reads s) = Some k" using wait_ready_returns [OF assms(1)] by blast
  then show ?thesis using assms(2) ata_start [of "ata (port_out s)" "bufs s b"] by (simp add: idestart_eq ide_inv_def ata_append)
qed

lemma request_inv:
  assumes r: "responsive inb" and i: "ide_inv s ws cs" and b: "b \<notin> set (map fst ws)"
    and ok: "b_busy (bufs s b)" "\<not> (b_valid (bufs s b) \<and> \<not> b_dirty (bufs s b))" "b_dev (bufs s b) = 0 \<or> havedisk1 s"
  shows "\<exists>t. iderw_request inb b s = Done () t \<and> bufs t = bufs s \<and>
    ide_inv t (ws @ [(b, request_of (bufs s b))]) (cs @ (if ws = [] then [request_of (bufs s b)] else []))"
proof -
  obtain q p where qp: "append_request b s = Done () (s\<lparr>qnext := q, idequeue := p\<rparr>)" "qchain q p (map fst ws @ [b])"
    "p = Some b \<longleftrightarrow> map fst ws = []"
    using append_request_eq [of s "map fst ws" b] i b unfolding ide_inv_def by blast
  let ?s = "s\<lparr>qnext := q, idequeue := p\<rparr>"
  have inv: "ide_inv ?s (ws @ [(b, request_of (bufs s b))]) cs"
    using i b qp(2) ok(2) by (auto simp: ide_inv_def)
  have e: "iderw_request inb b s = kwhen (p = Some b) (idestart inb p) ?s"
    using ok qp(1) by (auto simp: iderw_request_def kop_simps)
  show ?thesis
  proof (cases "ws = []")
    case True
    then have p: "p = Some b" using qp(3) by simp
    obtain t where "idestart inb p ?s = Done () t" "ide_inv t (ws @ [(b, request_of (bufs s b))]) (cs @ [request_of (bufs s b)])" "bufs t = bufs s"
      using idestart_inv [OF r inv, of b] unfolding p by auto
    then show ?thesis using True p unfolding e by (auto simp: kop_simps)
  next
    case False
    then have "p \<noteq> Some b" using qp(3) by simp
    then show ?thesis using False inv unfolding e by (auto simp: kop_simps)
  qed
qed

lemma request_guards: "iderw_request inb b s = Done () t \<Longrightarrow>
  b_busy (bufs s b) \<and> \<not> (b_valid (bufs s b) \<and> \<not> b_dirty (bufs s b)) \<and> (b_dev (bufs s b) = 0 \<or> havedisk1 s)"
  by (auto simp: iderw_request_def kop_simps split: if_splits)

text \<open>The interrupt handler: what it does to the request being served, then the wakeup and the start of the next one.\<close>

definition served :: "(nat \<Rightarrow> uchar) \<Rightarrow> (nat \<Rightarrow> uchar list) \<Rightarrow> nat \<Rightarrow> 'z idestate_scheme \<Rightarrow> buf" where
  "served inb insl b s =
     (let valid = (\<lambda>bb. bb\<lparr>b_valid := True, b_dirty := False\<rparr>) in
      case wait_ready inb (status_reads s) of
        None \<Rightarrow> valid (bufs s b)
      | Some k \<Rightarrow> if b_dirty (bufs s b) \<or> inb k AND (IDE_DF OR IDE_ERR) \<noteq> 0 then valid (bufs s b)
          else valid ((bufs s b)\<lparr>b_data := insl (data_reads s)\<rparr>))"

lemma ide_inv_frame:
  assumes "ide_inv s ws cs" "qnext t = qnext s" "idequeue t = idequeue s" "port_out t = port_out s"
    "\<And>c. c \<in> fst ` set ws \<Longrightarrow> bufs t c = bufs s c"
  shows "ide_inv t ws cs"
proof -
  have "bufs t (fst x) = bufs s (fst x)" if "x \<in> set ws" for x using assms(5) that by blast
  then show ?thesis using assms(1-4) by (simp add: ide_inv_def case_prod_beta)
qed

lemma intr_inv:
  fixes s :: "'z idestate_scheme"
  assumes r: "responsive inb" and i: "ide_inv s ((b, q) # ws) cs"
  shows "\<exists>t. ideintr inb insl s = Done () t \<and> bufs t = (bufs s)(b := served inb insl b s) \<and>
    ptable t = ptable (wakeup1 (ChBuf b) s) \<and> ide_inv t ws (cs @ map snd (take 1 ws))"
proof -
  obtain k where k: "wait_ready inb (status_reads s) = Some k" using wait_ready_returns [OF r] by blast
  have h: "idequeue s = Some b" "b \<notin> fst ` set ws" using i by (auto simp: ide_inv_def)
  define u where "u = wakeup1 (ChBuf b) (upd_buf b (\<lambda>_. served inb insl b s)
     (if b_dirty (bufs s b) then s\<lparr>idequeue := qnext s b\<rparr>
      else if inb k AND (IDE_DF OR IDE_ERR) \<noteq> 0 then s\<lparr>idequeue := qnext s b, status_reads := Suc k\<rparr>
      else s\<lparr>idequeue := qnext s b, status_reads := Suc k, data_reads := Suc (data_reads s)\<rparr>))"
  have u: "bufs u = (bufs s)(b := served inb insl b s)" "qnext u = qnext s" "idequeue u = qnext s b" "port_out u = port_out s"
    "ptable u = ptable (wakeup1 (ChBuf b) s)"
    by (simp_all add: u_def wakeup1_def upd_buf_def cong: if_cong)
  have e: "ideintr inb insl s = kwhen (idequeue u \<noteq> None) (idestart inb (idequeue u)) u"
  proof (cases "b_dirty (bufs s b)")
    case True
    then show ?thesis using h(1) k by (simp add: ideintr_def kop_simps u_def served_def upd_buf_def wakeup1_def cong: if_cong)
  next
    case False
    then show ?thesis using h(1) k
      by (cases "inb k AND (IDE_DF OR IDE_ERR) = 0")
        (simp_all add: ideintr_def idewait_def kop_simps u_def served_def upd_buf_def wakeup1_def cong: if_cong)
  qed
  have "ide_inv (s\<lparr>idequeue := qnext s b\<rparr>) ws cs" using i h(1) by (simp add: ide_inv_def)
  then have inv: "ide_inv u ws cs" by (rule ide_inv_frame) (use u h(2) in auto)
  show ?thesis
  proof (cases ws)
    case Nil
    then have "idequeue u = None" using inv by (simp add: ide_inv_def)
    then show ?thesis using inv u(1,5) Nil unfolding e by (simp add: kop_simps)
  next
    case (Cons w vs)
    then have q: "idequeue u = Some (fst w)" "request_of (bufs u (fst w)) = snd w" using inv by (auto simp: ide_inv_def)
    then show ?thesis using idestart_inv [OF r inv, of "fst w"] u(1,5) Cons unfolding e by (auto simp: kop_simps)
  qed
qed

lemma intr_idle: "idequeue s = None \<Longrightarrow> ideintr inb insl s = Done () s"
  by (simp add: ideintr_def kop_simps)

lemma ide_run_inv:
  assumes "ide_run inb insl s rs k" "responsive inb"
  shows "k \<le> length rs \<and> ide_inv s (drop k rs) (map snd (take (Suc k) rs))"
  using assms(1)
proof induction
  case (start s)
  then show ?case by (simp add: ide_inv_def)
next
  case (request s rs k b t)
  let ?r = "(b, request_of (bufs s b))"
  have "ide_inv t (drop k rs @ [?r]) (map snd (take (Suc k) rs) @ (if drop k rs = [] then [snd ?r] else []))"
    using request_inv [OF assms(2) conjunct2 [OF request.IH] request.hyps(2)] request_guards [OF request.hyps(3)] request.hyps(3) by auto
  moreover have "map snd (take (Suc k) rs) @ (if drop k rs = [] then [snd ?r] else []) = map snd (take (Suc k) (rs @ [?r]))"
    using request.IH by auto
  ultimately show ?case using request.IH by simp
next
  case (interrupt s rs k t)
  show ?case
  proof (cases "idequeue s")
    case None
    then show ?thesis using interrupt intr_idle [OF None, of inb insl] by auto
  next
    case (Some b)
    then have l: "k < length rs" using interrupt.IH by (cases "drop k rs") (auto simp: ide_inv_def)
    then have d: "drop k rs = (fst (rs ! k), snd (rs ! k)) # drop (Suc k) rs" by (simp add: Cons_nth_drop_Suc)
    have "ide_inv t (drop (Suc k) rs) (map snd (take (Suc k) rs) @ map snd (take 1 (drop (Suc k) rs)))"
      using intr_inv [OF assms(2) conjunct2 [OF interrupt.IH, unfolded d], of insl] interrupt.hyps(2) by auto
    moreover have "take (Suc k) rs @ take 1 (drop (Suc k) rs) = take (Suc (Suc k)) rs"
      by (metis One_nat_def Suc_eq_plus1 take_add)
    ultimately show ?thesis using Some l by (simp flip: map_append)
  qed
next
  case (owner s rs k b f)
  have "c \<noteq> b" if "c \<in> fst ` set (drop k rs)" for c using owner.hyps(2) that by (metis list.set_map)
  then have "ide_inv (upd_buf b f s) (drop k rs) (map snd (take (Suc k) rs))"
    by (intro ide_inv_frame [OF conjunct2 [OF owner.IH]]) (simp_all add: upd_buf_def)
  then show ?case using owner.IH by simp
next
  case (procs s rs k pt c)
  then show ?case by (auto intro: ide_inv_frame [where s = s])
qed

lemma request_data: "request_of bb = Write d n xs \<Longrightarrow> b_dirty bb \<and> b_data bb = xs" "request_of bb = Read d n \<Longrightarrow> \<not> b_dirty bb"
  by (auto simp: request_of_def split: if_splits)

lemma served_eq:
  assumes "request_of (bufs s b) = q" "wait_ready inb (status_reads s) = Some j"
  shows "served inb insl b s = (bufs s b)\<lparr>b_valid := True, b_dirty := False,
    b_data := (case q of Write d n xs \<Rightarrow> xs
               | Read d n \<Rightarrow> if inb j AND (IDE_DF OR IDE_ERR) = 0 then insl (data_reads s) else b_data (bufs s b))\<rparr>"
proof (cases q)
  case (Read d n)
  then show ?thesis using assms request_data(2) [of "bufs s b" d n] by (simp add: served_def)
next
  case (Write d n xs)
  then show ?thesis using assms request_data(1) [of "bufs s b" d n xs] by (simp add: served_def)
qed

text \<open>
  The request \<open>q\<close> of the buffer is complete: the buffer is valid and clean, with the data written or the block
  transferred (unless the disk reported an error), the other buffers are as before, the processes that slept for it can run and
  the wait of \<open>iderw\<close> is over.
\<close>

definition completed :: "(nat \<Rightarrow> uchar) \<Rightarrow> (nat \<Rightarrow> uchar list) \<Rightarrow> 'z idestate_scheme \<Rightarrow> nat \<times> request \<Rightarrow> 'z idestate_scheme \<Rightarrow> bool" where
  "completed inb insl s = (\<lambda>(b, q) t. \<exists>j. wait_ready inb (status_reads s) = Some j \<and>
     bufs t = (bufs s)(b := (bufs s b)\<lparr>b_valid := True, b_dirty := False,
       b_data := (case q of Write d n xs \<Rightarrow> xs
         | Read d n \<Rightarrow> if inb j AND (IDE_DF OR IDE_ERR) = 0 then insl (data_reads s) else b_data (bufs s b))\<rparr>) \<and>
     (\<forall>i < NPROC. p_state (ptable s i) = SLEEPING \<and> p_chan (ptable s i) = Some (ChBuf b) \<longrightarrow> p_state (ptable t i) = RUNNABLE) \<and>
     iderw_wait b t = Done () t)"

lemma intr_completes:
  assumes "responsive inb" "ide_inv s (w # ws) cs"
  shows "\<exists>t. ideintr inb insl s = Done () t \<and> completed inb insl s w t"
proof -
  obtain b q where w: "w = (b, q)" by (cases w)
  obtain j where j: "wait_ready inb (status_reads s) = Some j" using wait_ready_returns [OF assms(1)] by blast
  obtain t where t: "ideintr inb insl s = Done () t" "bufs t = (bufs s)(b := served inb insl b s)"
    "ptable t = ptable (wakeup1 (ChBuf b) s)"
    using intr_inv [OF assms(1) assms(2) [unfolded w], of insl] by blast
  have q: "request_of (bufs s b) = q" using assms(2) unfolding w by (simp add: ide_inv_def)
  have "completed inb insl s w t" unfolding completed_def w prod.case
    by (intro exI [of _ j]) (use t j in \<open>simp add: served_eq [OF q j] iderw_wait_def wakeup1_def kop_simps\<close>)
  then show ?thesis using t(1) by blast
qed

lemma waiting_sleeps: "ide_inv s ws cs \<Longrightarrow> b \<in> fst ` set ws \<Longrightarrow> iderw_wait b s = sleep (ChBuf b) s"
  by (auto simp: ide_inv_def iderw_wait_def kop_simps)

definition demo_ide :: idestate where
  "demo_ide = \<lparr>mem = (\<lambda>_. 0), freelist = 0, use_lock = False, kend = 0, kdata = 0, kpgdir = 0, cr3 = 0,
     ptable = (\<lambda>_. zero_proc), curproc = None, initproc = None, nextpid = 1,
     memdisk = (\<lambda>_. []), disksize = 0, wtrace = [],
     bufs = (\<lambda>b. \<lparr>b_busy = True, b_valid = False, b_dirty = (b = 0), b_dev = 0, b_sector = 5 + of_nat b, b_prev = 0, b_next = 0,
       b_data = replicate 512 9\<rparr>),
     idequeue = None, qnext = (\<lambda>_. None), havedisk1 = False, port_out = [], status_reads = 0, data_reads = 0\<rparr>"

text \<open>
  C12. The IDE driver serves requests in order, one at a time, whatever the interleaving of requests and interrupts, if the
  disk becomes ready again and again. The commands that the port writes amount to are what the first \<open>k + 1\<close> requests
  asked for when they were made, where \<open>k\<close> is the number of requests served: sector (28 bits), drive and data. A request
  for another buffer is accepted without a wait for the queue. The process of a waiting buffer sleeps. An
  interrupt with a request outstanding returns, completes exactly the oldest one (a write keeps its data, a read takes the block
  transferred unless the disk reports an error), makes the processes that sleep for it runnable, and the wait
  of \<open>iderw\<close> then ends (\<open>completed\<close>).
\<close>

theorem ide_fifo:
  fixes s :: idestate
  assumes "ide_run inb insl s rs k" "responsive inb"
  shows "requests (ata (port_out s)) = map snd (take (Suc k) rs) \<and>
    (\<forall>b. b \<notin> fst ` set (drop k rs) \<and> b_busy (bufs s b) \<and> \<not> (b_valid (bufs s b) \<and> \<not> b_dirty (bufs s b)) \<and>
       (b_dev (bufs s b) = 0 \<or> havedisk1 s) \<longrightarrow> (\<exists>t. iderw_request inb b s = Done () t \<and> bufs t = bufs s)) \<and>
    (\<forall>b \<in> fst ` set (drop k rs). iderw_wait b s = sleep (ChBuf b) s) \<and>
    (k < length rs \<longrightarrow> (\<exists>t. ideintr inb insl s = Done () t \<and> completed inb insl s (rs ! k) t))"
proof -
  have inv: "ide_inv s (drop k rs) (map snd (take (Suc k) rs))" using ide_run_inv [OF assms] by simp
  have "\<exists>t. iderw_request inb b s = Done () t \<and> bufs t = bufs s"
    if "b \<notin> fst ` set (drop k rs)" "b_busy (bufs s b)" "\<not> (b_valid (bufs s b) \<and> \<not> b_dirty (bufs s b))"
      "b_dev (bufs s b) = 0 \<or> havedisk1 s" for b
    using request_inv [OF assms(2) inv _ that(2-4)] that(1) by auto
  moreover have "\<exists>t. ideintr inb insl s = Done () t \<and> completed inb insl s (rs ! k) t" if "k < length rs"
    using intr_completes [OF assms(2), of s "rs ! k" "drop (Suc k) rs"] inv that by (simp add: Cons_nth_drop_Suc)
  ultimately show ?thesis using waiting_sleeps [OF inv] inv unfolding ide_inv_def by blast
qed

theorem ide_fifo_witness:
  "\<exists>(s :: idestate) t. ide_run (\<lambda>_. 0x40) (\<lambda>_. replicate 512 7) s [(0, Write False 5 (replicate 512 9)), (1, Read False 6)] 0 \<and>
     requests (ata (port_out s)) = [Write False 5 (replicate 512 9)] \<and>
     ideintr (\<lambda>_. 0x40) (\<lambda>_. replicate 512 7) s = Done () t \<and> b_valid (bufs t 0) \<and> \<not> b_dirty (bufs t 0)"
proof -
  let ?inb = "\<lambda>_ :: nat. 0x40 :: uchar" and ?insl = "\<lambda>_ :: nat. replicate 512 7 :: uchar list"
  let ?r0 = "(0 :: nat, Write False 5 (replicate 512 9))" and ?r1 = "(1 :: nat, Read False 6)"
  have resp: "responsive ?inb" by (auto simp: responsive_def IDE_BSY_def IDE_DRDY_def)
  have r: "request_of (bufs demo_ide 0) = snd ?r0" "request_of (bufs demo_ide 1) = snd ?r1"
    by (simp_all add: demo_ide_def request_of_def mask_eq_exp_minus_1)
  have run0: "ide_run ?inb ?insl demo_ide [] 0" by (rule ide_run.start) (simp_all add: demo_ide_def ata_def)
  obtain s1 where s1: "iderw_request ?inb 0 demo_ide = Done () s1" "bufs s1 = bufs demo_ide"
    using ide_fifo [OF run0 resp] by (auto simp: demo_ide_def)
  have run1: "ide_run ?inb ?insl s1 [?r0] 0" using ide_run.request [OF run0 _ s1(1)] r(1) by simp
  obtain s2 where s2: "iderw_request ?inb 1 s1 = Done () s2" "bufs s2 = bufs s1"
    using ide_fifo [OF run1 resp] s1(2) by (auto simp: demo_ide_def)
  have run2: "ide_run ?inb ?insl s2 [?r0, ?r1] 0" using ide_run.request [OF run1 _ s2(1)] r(2) s1(2) by simp
  note f = ide_fifo [OF run2 resp]
  have q: "requests (ata (port_out s2)) = [snd ?r0]" using conjunct1 [OF f] by simp
  obtain t where t: "ideintr ?inb ?insl s2 = Done () t" "completed ?inb ?insl s2 ?r0 t"
    using f [THEN conjunct2, THEN conjunct2, THEN conjunct2] by auto
  have v: "b_valid (bufs t 0)" "\<not> b_dirty (bufs t 0)" using t(2) by (auto simp: completed_def)
  show ?thesis by (rule exI [of _ s2], rule exI [of _ t], intro conjI run2 t(1) v q [unfolded snd_conv])
qed

end
