(* ===== verification/Spinlock.thy ===== *)
theory Spinlock
  imports Mmu
begin

text \<open>
  Spin locks (spinlock.c): the lock and the interrupt state of a processor, and \<open>acquire\<close> and \<open>release\<close> as the sequences of
  memory accesses they are, interleaved between any number of processors. What the other theories take for
  granted, that the part of an operation between \<open>acquire\<close> and \<open>release\<close> is one step, rests on the properties here.
\<close>

section \<open>Data\<close>

text \<open>\<open>struct spinlock\<close>; \<open>lk_cpu\<close> is \<open>None\<close> for the null pointer.\<close>

record spinlock =
  locked :: uint
  lk_name :: string
  lk_cpu :: "nat option"
  pcs :: "uint list"

text \<open>The fields of \<open>struct cpu\<close> for interrupts, and the interrupt flag of the processor's \<open>eflags\<close>.\<close>

record cpu =
  ncli :: int
  intena :: bool
  eflags_if :: bool

section \<open>Operations\<close>

definition initlock :: "string \<Rightarrow> spinlock \<Rightarrow> spinlock" where
  "initlock name lk = lk\<lparr>lk_name := name, locked := 0, lk_cpu := None\<rparr>"

definition holding :: "nat \<Rightarrow> spinlock \<Rightarrow> bool" where
  "holding c lk \<longleftrightarrow> locked lk \<noteq> 0 \<and> lk_cpu lk = Some c"

definition pushcli :: "cpu \<Rightarrow> cpu" where
  "pushcli p =
     (let eflags = eflags_if p;
          p = p\<lparr>eflags_if := False\<rparr>;
          n = ncli p;
          p = p\<lparr>ncli := n + 1\<rparr>
      in if n = 0 then p\<lparr>intena := eflags\<rparr> else p)"

text \<open>\<open>popcli\<close>; \<open>Inl\<close> is the panic.\<close>

definition popcli :: "cpu \<Rightarrow> string + cpu" where
  "popcli p =
     (if eflags_if p then Inl ''popcli - interruptible''
      else
        let p = p\<lparr>ncli := ncli p - 1\<rparr> in
        if ncli p < 0 then Inl ''popcli''
        else if ncli p = 0 \<and> intena p then Inr (p\<lparr>eflags_if := True\<rparr>)
        else Inr p)"

text \<open>The instruction \<open>xchg\<close> on the lock word: the old value, and the lock with the new one.\<close>

definition xchg :: "uint \<Rightarrow> spinlock \<Rightarrow> uint \<times> spinlock" where
  "xchg v lk = (locked lk, lk\<lparr>locked := v\<rparr>)"

text \<open>
  \<open>getcallerpcs\<close>: the chain of saved frame pointers, at most ten. The
  first frame pointer is two words below the argument. \<open>n\<close> entries are left to fill.
\<close>

fun getcallerpcs_loop :: "nat \<Rightarrow> memory \<Rightarrow> uint \<Rightarrow> uint list" where
  "getcallerpcs_loop 0 stk ebp = []"
| "getcallerpcs_loop (Suc n) stk ebp =
     (if ebp = 0 \<or> ebp < KERNBASE \<or> ebp = 0xffffffff then replicate (Suc n) 0
      else ld32 stk (ebp + 4) # getcallerpcs_loop n stk (ld32 stk ebp))"

definition getcallerpcs :: "memory \<Rightarrow> uint \<Rightarrow> uint list" where
  "getcallerpcs stk v = getcallerpcs_loop 10 stk (v - 8)"

section \<open>Processors in parallel\<close>

text \<open>
  Where a processor is. \<open>Running\<close> is code that calls neither function; the other points are the accesses of \<open>acquire\<close>
  (\<open>holding\<close> reads \<open>locked\<close> and then \<open>cpu\<close>; the exchange; the two assignments) and of \<open>release\<close>, in the order of the code.
\<close>

datatype point =
    Running
  | AcqLocked nat | AcqCpu nat | Spin nat | SetCpu nat | SetPcs nat
  | RelLocked nat | RelCpu nat | ClearPcs nat | ClearCpu nat | RelXchg nat | RelPop
  | Panicked string

text \<open>
  The locks, the processors, and for each processor the locks that an exchange of its \<open>acquire\<close> has got and none of its
  \<open>release\<close> has given back.
\<close>

record machine =
  locks :: "nat \<Rightarrow> spinlock"
  cpus :: "nat \<Rightarrow> cpu"
  at :: "nat \<Rightarrow> point"
  held :: "nat \<Rightarrow> nat list"

definition goto :: "nat \<Rightarrow> point \<Rightarrow> machine \<Rightarrow> machine" where
  "goto c p m = m\<lparr>at := (at m)(c := p)\<rparr>"

definition set_lock :: "nat \<Rightarrow> spinlock \<Rightarrow> machine \<Rightarrow> machine" where
  "set_lock l lk m = m\<lparr>locks := (locks m)(l := lk)\<rparr>"

definition set_cpu :: "nat \<Rightarrow> cpu \<Rightarrow> machine \<Rightarrow> machine" where
  "set_cpu c p m = m\<lparr>cpus := (cpus m)(c := p)\<rparr>"

text \<open>The access processor \<open>c\<close> makes next inside \<open>acquire\<close>; \<open>stk\<close> and \<open>v\<close> are the memory and its stack pointer for \<open>getcallerpcs\<close>.\<close>

fun acquire_step :: "memory \<Rightarrow> uint \<Rightarrow> nat \<Rightarrow> point \<Rightarrow> machine \<Rightarrow> machine" where
  "acquire_step stk v c (AcqLocked l) m = goto c (if locked (locks m l) \<noteq> 0 then AcqCpu l else Spin l) m"
| "acquire_step stk v c (AcqCpu l) m = goto c (if lk_cpu (locks m l) = Some c then Panicked ''acquire'' else Spin l) m"
| "acquire_step stk v c (Spin l) m =
     (case xchg 1 (locks m l) of
        (old, lk) \<Rightarrow>
          if old \<noteq> 0 then set_lock l lk m
          else goto c (SetCpu l) (set_lock l lk m)\<lparr>held := (held m)(c := l # held m c)\<rparr>)"
| "acquire_step stk v c (SetCpu l) m = goto c (SetPcs l) (set_lock l ((locks m l)\<lparr>lk_cpu := Some c\<rparr>) m)"
| "acquire_step stk v c (SetPcs l) m = goto c Running (set_lock l ((locks m l)\<lparr>pcs := getcallerpcs stk v\<rparr>) m)"
| "acquire_step stk v c p m = m"

text \<open>The same for \<open>release\<close>.\<close>

fun release_step :: "nat \<Rightarrow> point \<Rightarrow> machine \<Rightarrow> machine" where
  "release_step c (RelLocked l) m = goto c (if locked (locks m l) = 0 then Panicked ''release'' else RelCpu l) m"
| "release_step c (RelCpu l) m = goto c (if lk_cpu (locks m l) \<noteq> Some c then Panicked ''release'' else ClearPcs l) m"
| "release_step c (ClearPcs l) m = goto c (ClearCpu l) (set_lock l ((locks m l)\<lparr>pcs := (pcs (locks m l))[0 := 0]\<rparr>) m)"
| "release_step c (ClearCpu l) m = goto c (RelXchg l) (set_lock l ((locks m l)\<lparr>lk_cpu := None\<rparr>) m)"
| "release_step c (RelXchg l) m =
     goto c RelPop (set_lock l (snd (xchg 0 (locks m l))) m)\<lparr>held := (held m)(c := remove1 l (held m c))\<rparr>"
| "release_step c RelPop m =
     (case popcli (cpus m c) of
        Inl msg \<Rightarrow> goto c (Panicked msg) m
      | Inr p \<Rightarrow> goto c Running (set_cpu c p m))"
| "release_step c p m = m"

definition in_acquire :: "point \<Rightarrow> bool" where
  "in_acquire p \<longleftrightarrow> (\<exists>l. p \<in> {AcqLocked l, AcqCpu l, Spin l, SetCpu l, SetPcs l})"

definition in_release :: "point \<Rightarrow> bool" where
  "in_release p \<longleftrightarrow> p = RelPop \<or> (\<exists>l. p \<in> {RelLocked l, RelCpu l, ClearPcs l, ClearCpu l, RelXchg l})"

text \<open>
  One step of one processor. Running code may call \<open>acquire\<close> (whose \<open>pushcli\<close> touches the processor only) or \<open>release\<close>, on any lock,
  and may turn interrupts on and off where no \<open>pushcli\<close> is pending.
\<close>

inductive lstep :: "nat \<Rightarrow> machine \<Rightarrow> machine \<Rightarrow> bool" where
  call_acquire: "at m c = Running \<Longrightarrow> lstep c m (goto c (AcqLocked l) (set_cpu c (pushcli (cpus m c)) m))"
| call_release: "at m c = Running \<Longrightarrow> lstep c m (goto c (RelLocked l) m)"
| acquiring: "in_acquire (at m c) \<Longrightarrow> lstep c m (acquire_step stk v c (at m c) m)"
| releasing: "in_release (at m c) \<Longrightarrow> lstep c m (release_step c (at m c) m)"
| sti_cli: "at m c = Running \<Longrightarrow> ncli (cpus m c) = 0 \<Longrightarrow> lstep c m (set_cpu c ((cpus m c)\<lparr>eflags_if := b\<rparr>) m)"

text \<open>After \<open>initlock\<close> of every lock, with no processor inside a lock operation.\<close>

definition lock_boot :: "machine \<Rightarrow> bool" where
  "lock_boot m \<longleftrightarrow> (\<forall>l. \<exists>name lk. locks m l = initlock name lk) \<and> (\<forall>c. at m c = Running \<and> held m c = [] \<and> ncli (cpus m c) = 0)"

inductive lreach :: "machine \<Rightarrow> bool" where
  boot: "lock_boot m \<Longrightarrow> lreach m"
| step: "lreach m \<Longrightarrow> lstep c m m' \<Longrightarrow> lreach m'"

section \<open>The invariant\<close>

text \<open>How far \<open>ncli\<close> is ahead of the number of locks held, at a point.\<close>

fun pending :: "point \<Rightarrow> int" where
  "pending (AcqLocked l) = 1"
| "pending (AcqCpu l) = 1"
| "pending (Spin l) = 1"
| "pending RelPop = 1"
| "pending p = 0"

text \<open>Nobody has the lock; or \<open>c\<close> has it, alone, and its name is in the lock but for one access at each end.\<close>

definition lock_free :: "machine \<Rightarrow> nat \<Rightarrow> bool" where
  "lock_free m l \<longleftrightarrow> locked (locks m l) = 0 \<and> lk_cpu (locks m l) = None \<and> (\<forall>d. l \<notin> set (held m d))"

definition unnamed :: "nat \<Rightarrow> point \<Rightarrow> bool" where
  "unnamed l p \<longleftrightarrow> p = SetCpu l \<or> p = RelXchg l"

definition lock_owned :: "machine \<Rightarrow> nat \<Rightarrow> nat \<Rightarrow> bool" where
  "lock_owned m l c \<longleftrightarrow> locked (locks m l) \<noteq> 0 \<and> (\<forall>d. l \<in> set (held m d) \<longleftrightarrow> d = c) \<and>
     lk_cpu (locks m l) = (if unnamed l (at m c) then None else Some c)"

definition lock_ok :: "machine \<Rightarrow> nat \<Rightarrow> bool" where
  "lock_ok m l \<longleftrightarrow> lock_free m l \<or> (\<exists>c. lock_owned m l c)"

definition point_ok :: "machine \<Rightarrow> nat \<Rightarrow> bool" where
  "point_ok m c \<longleftrightarrow> distinct (held m c) \<and>
     (\<forall>l. at m c \<in> {SetCpu l, SetPcs l, ClearPcs l, ClearCpu l, RelXchg l} \<longrightarrow> l \<in> set (held m c)) \<and>
     (\<forall>l. at m c = Spin l \<longrightarrow> l \<notin> set (held m c))"

definition cli_ok :: "machine \<Rightarrow> nat \<Rightarrow> bool" where
  "cli_ok m c \<longleftrightarrow> (\<exists>msg. at m c = Panicked msg) \<or> ncli (cpus m c) = int (length (held m c)) + pending (at m c) \<and>
     (ncli (cpus m c) > 0 \<longrightarrow> \<not> eflags_if (cpus m c))"

definition lock_inv :: "machine \<Rightarrow> bool" where
  "lock_inv m \<longleftrightarrow> (\<forall>l. lock_ok m l) \<and> (\<forall>c. point_ok m c) \<and> (\<forall>c. cli_ok m c)"

lemmas machine_ops = goto_def set_lock_def set_cpu_def xchg_def

lemma boot_inv: "lock_boot m \<Longrightarrow> lock_inv m"
proof -
  assume b: "lock_boot m"
  have "lock_free m l" for l
  proof -
    obtain name lk where "locks m l = initlock name lk" using b unfolding lock_boot_def by blast
    then show ?thesis using b by (simp add: lock_free_def initlock_def lock_boot_def)
  qed
  then show ?thesis using b by (simp add: lock_inv_def lock_ok_def point_ok_def cli_ok_def lock_boot_def)
qed

lemma pushcli_simps:
  "ncli (pushcli p) = ncli p + 1" "eflags_if (pushcli p) = False"
  by (simp_all add: pushcli_def Let_def)

lemma lock_ok_cases:
  assumes "lock_ok m l"
  obtains (free) "lock_free m l" | (owned) c where "lock_owned m l c"
  using assms by (auto simp: lock_ok_def)

text \<open>A step keeps what it does not touch.\<close>

lemma lock_ok_frame:
  assumes "lock_ok m l" "locked (locks m' l) = locked (locks m l)" "lk_cpu (locks m' l) = lk_cpu (locks m l)"
    "\<And>d. l \<in> set (held m' d) \<longleftrightarrow> l \<in> set (held m d)" "\<And>d. unnamed l (at m' d) \<longleftrightarrow> unnamed l (at m d)"
  shows "lock_ok m' l"
  using assms by (auto simp: lock_ok_def lock_free_def lock_owned_def)

lemma lock_ok_held: "lock_ok m l \<Longrightarrow> l \<in> set (held m c) \<Longrightarrow> lock_owned m l c"
  by (auto simp: lock_ok_def lock_free_def lock_owned_def)

lemma lock_ok_zero: "lock_ok m l \<Longrightarrow> locked (locks m l) = 0 \<Longrightarrow> lock_free m l"
  by (auto simp: lock_ok_def lock_owned_def)

lemma acquire_step_lock:
  assumes i: "\<And>l. lock_ok m l" and p: "point_ok m c" and a: "in_acquire (at m c)"
  shows "lock_ok (acquire_step stk v c (at m c) m) k"
proof (cases "at m c")
  case (Spin l)
  show ?thesis
  proof (cases "k = l \<and> locked (locks m l) = 0")
    case True
    then have "lock_free m l" using i lock_ok_zero by blast
    then have "lock_owned (acquire_step stk v c (at m c) m) l c"
      using True Spin by (simp add: lock_free_def lock_owned_def machine_ops unnamed_def)
    then show ?thesis using True by (auto simp: lock_ok_def)
  next
    case False
    show ?thesis
    proof (cases "locked (locks m l) = 0")
      case True
      then show ?thesis using Spin False
        by (intro lock_ok_frame [OF i]) (simp_all add: machine_ops unnamed_def)
    next
      case False
      then have "lock_owned m l d \<Longrightarrow> lock_owned (acquire_step stk v c (at m c) m) l d" for d
        using Spin by (simp add: lock_owned_def machine_ops)
      moreover have "\<not> lock_free m l" using False by (simp add: lock_free_def)
      ultimately have l: "lock_ok (acquire_step stk v c (at m c) m) l" using i [of l] by (auto simp: lock_ok_def)
      have "k \<noteq> l \<Longrightarrow> lock_ok (acquire_step stk v c (at m c) m) k"
        using Spin False by (intro lock_ok_frame [OF i]) (simp_all add: machine_ops unnamed_def)
      with l show ?thesis by blast
    qed
  qed
next
  case (SetCpu l)
  show ?thesis
  proof (cases "k = l")
    case True
    have "lock_owned m l c" using i p SetCpu by (intro lock_ok_held) (auto simp: point_ok_def)
    then have "lock_owned (acquire_step stk v c (at m c) m) l c"
      using SetCpu by (simp add: lock_owned_def machine_ops unnamed_def)
    then show ?thesis using True by (auto simp: lock_ok_def)
  next
    case False
    then show ?thesis using SetCpu by (intro lock_ok_frame [OF i]) (simp_all add: machine_ops unnamed_def)
  qed
qed (use a in \<open>(intro lock_ok_frame [OF i]; simp add: machine_ops unnamed_def in_acquire_def)+\<close>)

lemma release_step_lock:
  assumes i: "\<And>l. lock_ok m l" and p: "point_ok m c" and a: "in_release (at m c)"
  shows "lock_ok (release_step c (at m c) m) k"
proof (cases "at m c")
  case (ClearCpu l)
  show ?thesis
  proof (cases "k = l")
    case True
    have "lock_owned m l c" using i p ClearCpu by (intro lock_ok_held) (auto simp: point_ok_def)
    then have "lock_owned (release_step c (at m c) m) l c"
      using ClearCpu by (simp add: lock_owned_def machine_ops unnamed_def)
    then show ?thesis using True by (auto simp: lock_ok_def)
  next
    case False
    then show ?thesis using ClearCpu by (intro lock_ok_frame [OF i]) (simp_all add: machine_ops unnamed_def)
  qed
next
  case (RelXchg l)
  show ?thesis
  proof (cases "k = l")
    case True
    have "lock_owned m l c" "distinct (held m c)" using i p RelXchg by (auto intro!: lock_ok_held simp: point_ok_def)
    then have "lock_free (release_step c (at m c) m) l"
      using RelXchg by (simp add: lock_owned_def lock_free_def machine_ops unnamed_def)
    then show ?thesis using True by (simp add: lock_ok_def)
  next
    case False
    then show ?thesis using RelXchg by (intro lock_ok_frame [OF i]) (simp_all add: machine_ops unnamed_def in_set_remove1)
  qed
next
  case RelPop
  then show ?thesis by (intro lock_ok_frame [OF i]) (simp_all add: machine_ops unnamed_def split: sum.split)
qed (use a in \<open>(intro lock_ok_frame [OF i]; simp add: machine_ops unnamed_def in_release_def)+\<close>)

text \<open>What the lock word and the name in the lock tell a processor about itself.\<close>

lemma lock_ok_named: "lock_ok m l \<Longrightarrow> lk_cpu (locks m l) = Some c \<Longrightarrow> l \<in> set (held m c)"
  by (auto simp: lock_ok_def lock_free_def lock_owned_def split: if_splits)

lemma lock_ok_unheld: "lock_ok m l \<Longrightarrow> locked (locks m l) = 0 \<Longrightarrow> l \<notin> set (held m c)"
  using lock_ok_zero by (auto simp: lock_free_def)

lemma lock_ok_not_named:
  "lock_ok m l \<Longrightarrow> lk_cpu (locks m l) \<noteq> Some c \<Longrightarrow> \<not> unnamed l (at m c) \<Longrightarrow> l \<notin> set (held m c)"
  by (auto dest: lock_ok_held simp: lock_owned_def)

lemma acquire_step_point:
  assumes "\<And>l. lock_ok m l" "point_ok m c" "in_acquire (at m c)"
  shows "point_ok (acquire_step stk v c (at m c) m) c"
  using assms lock_ok_unheld [OF assms(1)] lock_ok_not_named [OF assms(1), of _ c]
  by (cases "at m c") (auto simp: point_ok_def machine_ops unnamed_def in_acquire_def)

lemma release_step_point:
  assumes "\<And>l. lock_ok m l" "point_ok m c" "in_release (at m c)"
  shows "point_ok (release_step c (at m c) m) c"
  using assms lock_ok_named [OF assms(1), of _ c]
  by (cases "at m c") (auto simp: point_ok_def machine_ops in_release_def split: sum.split)

lemma acquire_step_cli:
  assumes "cli_ok m c" "in_acquire (at m c)"
  shows "cli_ok (acquire_step stk v c (at m c) m) c"
  using assms by (cases "at m c") (auto simp: cli_ok_def machine_ops in_acquire_def)

text \<open>The \<open>popcli\<close> of a \<open>release\<close> never panics.\<close>

lemma popcli_returns:
  assumes "ncli p > 0" "\<not> eflags_if p"
  obtains q where "popcli p = Inr q" "ncli q = ncli p - 1" "ncli q > 0 \<Longrightarrow> \<not> eflags_if q"
proof (cases "ncli p = 1 \<and> intena p")
  case True
  with assms that [of "p\<lparr>ncli := 0, eflags_if := True\<rparr>"] show ?thesis by (simp add: popcli_def)
next
  case False
  with assms that [of "p\<lparr>ncli := ncli p - 1\<rparr>"] show ?thesis by (auto simp: popcli_def Let_def)
qed

lemma release_step_cli:
  assumes "cli_ok m c" "point_ok m c" "in_release (at m c)"
  shows "cli_ok (release_step c (at m c) m) c"
proof (cases "at m c")
  case RelPop
  then have "ncli (cpus m c) > 0" "\<not> eflags_if (cpus m c)" "ncli (cpus m c) = int (length (held m c)) + 1"
    using assms(1) by (auto simp: cli_ok_def)
  then show ?thesis using RelPop by - (erule (1) popcli_returns, auto simp: cli_ok_def machine_ops)
next
  case (RelXchg l)
  then have "l \<in> set (held m c)" using assms(2) by (simp add: point_ok_def)
  then have "int (length (remove1 l (held m c))) = int (length (held m c)) - 1"
    by (simp add: length_remove1) (metis length_pos_if_in_set of_nat_diff One_nat_def Suc_leI of_nat_1)
  then show ?thesis using RelXchg assms(1) by (auto simp: cli_ok_def machine_ops)
qed (use assms in \<open>auto simp: cli_ok_def machine_ops in_release_def\<close>)

text \<open>A step of one processor is not seen in the points, the held locks and the interrupt state of another.\<close>

lemma lstep_other:
  assumes "lstep c m m'" "d \<noteq> c"
  shows "at m' d = at m d" "held m' d = held m d" "cpus m' d = cpus m d"
proof -
  have a: "at (acquire_step stk v c p m) d = at m d \<and> held (acquire_step stk v c p m) d = held m d \<and>
      cpus (acquire_step stk v c p m) d = cpus m d" for stk v p
    using assms(2) by (cases p) (auto simp: machine_ops)
  have r: "at (release_step c p m) d = at m d \<and> held (release_step c p m) d = held m d \<and>
      cpus (release_step c p m) d = cpus m d" for p
    using assms(2) by (cases p) (auto simp: machine_ops split: sum.split)
  have "at m' d = at m d \<and> held m' d = held m d \<and> cpus m' d = cpus m d"
    using assms(1) by cases (use assms(2) in \<open>simp_all add: a r, simp_all add: machine_ops\<close>)
  then show "at m' d = at m d" "held m' d = held m d" "cpus m' d = cpus m d" by simp_all
qed

lemma lstep_self:
  assumes s: "lstep c m m'" and l: "\<And>l. lock_ok m l" and p: "point_ok m c" and k: "cli_ok m c"
  shows "lock_ok m' l" "point_ok m' c" "cli_ok m' c"
proof -
  have "lock_ok m' l \<and> point_ok m' c \<and> cli_ok m' c"
    using s
  proof cases
    case (call_acquire l')
    then show ?thesis using p k
      by (auto intro!: lock_ok_frame [OF l] simp: machine_ops unnamed_def point_ok_def cli_ok_def pushcli_simps split: if_splits)
  next
    case (call_release l')
    then show ?thesis using p k
      by (auto intro!: lock_ok_frame [OF l] simp: machine_ops unnamed_def point_ok_def cli_ok_def split: if_splits)
  next
    case (acquiring stk v)
    then show ?thesis using l p k by (simp add: acquire_step_lock acquire_step_point acquire_step_cli)
  next
    case releasing
    then show ?thesis using l p k by (simp add: release_step_lock release_step_point release_step_cli)
  next
    case (sti_cli b)
    then show ?thesis using p k
      by (auto intro!: lock_ok_frame [OF l] simp: machine_ops unnamed_def point_ok_def cli_ok_def split: if_splits)
  qed
  then show "lock_ok m' l" "point_ok m' c" "cli_ok m' c" by simp_all
qed

lemma lstep_inv:
  assumes "lstep c m m'" "lock_inv m"
  shows "lock_inv m'"
proof -
  have i: "lock_ok m l" "point_ok m d" "cli_ok m d" for l d using assms(2) by (simp_all add: lock_inv_def)
  have "point_ok m' d \<and> cli_ok m' d" for d
  proof (cases "d = c")
    case True
    then show ?thesis using lstep_self [OF assms(1) i] by simp
  next
    case False
    then show ?thesis using i(2,3) [of d] by (simp add: point_ok_def cli_ok_def lstep_other [OF assms(1)])
  qed
  then show ?thesis using lstep_self(1) [OF assms(1) i] by (simp add: lock_inv_def)
qed

lemma lreach_inv: "lreach m \<Longrightarrow> lock_inv m"
  by (induction rule: lreach.induct) (auto intro: boot_inv lstep_inv)


section \<open>Properties\<close>

text \<open>
  C10. Mutual exclusion. In every state that any interleaving of the accesses of \<open>acquire\<close> and \<open>release\<close> on any number of
  processors reaches, no lock is held by two processors, a held lock has its word set and no other lock has,
  and a processor that holds a lock, or spins for one, has interrupts off.
\<close>

theorem spinlock_mutual_exclusion:
  assumes "lreach m"
  shows "(\<forall>c d l. l \<in> set (held m c) \<and> l \<in> set (held m d) \<longrightarrow> c = d) \<and>
    (\<forall>l. locked (locks m l) \<noteq> 0 \<longleftrightarrow> (\<exists>c. l \<in> set (held m c))) \<and>
    (\<forall>c l. (l \<in> set (held m c) \<or> at m c = Spin l) \<and> (\<forall>msg. at m c \<noteq> Panicked msg) \<longrightarrow> \<not> eflags_if (cpus m c))"
proof -
  have i: "lock_ok m l" "cli_ok m c" for l c using lreach_inv [OF assms] by (simp_all add: lock_inv_def)
  have "c = d" if "l \<in> set (held m c)" "l \<in> set (held m d)" for c d l
    using lock_ok_held [OF i(1) that(1)] that(2) by (simp add: lock_owned_def)
  moreover have "locked (locks m l) \<noteq> 0 \<longleftrightarrow> (\<exists>c. l \<in> set (held m c))" for l
    using i(1) [of l] by (auto simp: lock_ok_def lock_free_def lock_owned_def)
  moreover have "\<not> eflags_if (cpus m c)"
    if "l \<in> set (held m c) \<or> at m c = Spin l" "\<forall>msg. at m c \<noteq> Panicked msg" for c l
  proof -
    have "0 \<le> pending (at m c)" by (cases "at m c") simp_all
    moreover have "held m c \<noteq> [] \<or> pending (at m c) = 1" using that(1) by auto
    ultimately have "0 < int (length (held m c)) + pending (at m c)"
      by (cases "held m c") auto
    then show ?thesis using i(2) [of c] that(2) by (auto simp: cli_ok_def)
  qed
  ultimately show ?thesis by blast
qed

text \<open>Two processors at boot: both call \<open>acquire\<close> on lock 0 and the first gets it.\<close>

definition boot_machine :: machine where
  "boot_machine = \<lparr>locks = (\<lambda>_. \<lparr>locked = 0, lk_name = ''l'', lk_cpu = None, pcs = replicate 10 0\<rparr>),
     cpus = (\<lambda>_. \<lparr>ncli = 0, intena = False, eflags_if = True\<rparr>), at = (\<lambda>_. Running), held = (\<lambda>_. [])\<rparr>"

definition got_machine :: machine where
  "got_machine =
     (let m = boot_machine;
          m = goto 0 (AcqLocked 0) (set_cpu 0 (pushcli (cpus m 0)) m);
          m = goto 3 (AcqLocked 0) (set_cpu 3 (pushcli (cpus m 3)) m);
          m = acquire_step (\<lambda>_. 0) 0 0 (at m 0) m;
          m = acquire_step (\<lambda>_. 0) 0 3 (at m 3) m
      in acquire_step (\<lambda>_. 0) 0 0 (at m 0) m)"

lemma boot_machine_reach: "lreach boot_machine"
  by (rule lreach.boot)
    (auto simp: lock_boot_def boot_machine_def initlock_def intro!: exI [of _ "''l''"] exI [of _ "\<lparr>locked = 0, lk_name = ''l'', lk_cpu = None, pcs = replicate 10 0\<rparr>"])

lemma got_machine_reach: "lreach got_machine"
proof -
  define m1 where "m1 = goto 0 (AcqLocked 0) (set_cpu 0 (pushcli (cpus boot_machine 0)) boot_machine)"
  define m2 where "m2 = goto 3 (AcqLocked 0) (set_cpu 3 (pushcli (cpus m1 3)) m1)"
  define m3 where "m3 = acquire_step (\<lambda>_. 0) 0 0 (at m2 0) m2"
  define m4 where "m4 = acquire_step (\<lambda>_. 0) 0 3 (at m3 3) m3"
  note m = m1_def m2_def m3_def m4_def boot_machine_def machine_ops
  have "lreach m1" unfolding m1_def
    by (rule lreach.step [OF boot_machine_reach], rule lstep.call_acquire) (simp add: boot_machine_def)
  then have "lreach m2" unfolding m2_def by (rule lreach.step [OF _ lstep.call_acquire]) (simp add: m)
  then have "lreach m3" unfolding m3_def by (rule lreach.step [OF _ lstep.acquiring]) (simp add: m in_acquire_def)
  then have "lreach m4" unfolding m4_def by (rule lreach.step [OF _ lstep.acquiring]) (simp add: m in_acquire_def)
  then have "lreach (acquire_step (\<lambda>_. 0) 0 0 (at m4 0) m4)"
    by (rule lreach.step [OF _ lstep.acquiring]) (simp add: m in_acquire_def)
  then show ?thesis by (simp only: got_machine_def Let_def m1_def m2_def m3_def m4_def)
qed

lemma got_machine_simps:
  "held got_machine 0 = [0]" "at got_machine 3 = Spin 0" "at got_machine 0 = SetCpu 0" "held got_machine 3 = []"
  by (simp_all add: got_machine_def boot_machine_def machine_ops Let_def)

theorem spinlock_mutual_exclusion_witness:
  "lreach got_machine \<and> at got_machine 3 = Spin 0 \<and> 0 \<in> set (held got_machine 0) \<and> locked (locks got_machine 0) \<noteq> 0 \<and>
   \<not> eflags_if (cpus got_machine 3)"
proof -
  from spinlock_mutual_exclusion [OF got_machine_reach]
  have "locked (locks got_machine 0) \<noteq> 0 \<longleftrightarrow> (\<exists>c. 0 \<in> set (held got_machine c))"
    "(0 \<in> set (held got_machine 3) \<or> at got_machine 3 = Spin 0) \<and> (\<forall>msg. at got_machine 3 \<noteq> Panicked msg) \<longrightarrow> \<not> eflags_if (cpus got_machine 3)"
    by (blast, blast)
  moreover have "\<exists>c. 0 \<in> set (held got_machine c)" by (rule exI [of _ 0]) (simp add: got_machine_simps)
  ultimately show ?thesis by (simp add: got_machine_simps got_machine_reach)
qed

text \<open>What the tests of a reachable machine find.\<close>

lemma lreach_tests:
  assumes "lreach m"
  shows "\<not> unnamed l (at m c) \<Longrightarrow> lk_cpu (locks m l) = Some c \<longleftrightarrow> l \<in> set (held m c)"
    and "l \<in> set (held m c) \<Longrightarrow> locked (locks m l) \<noteq> 0"
    and "at m c = RelPop \<Longrightarrow> at (release_step c RelPop m) c = Running"
proof -
  have i: "lock_ok m l" "cli_ok m c" for l c using lreach_inv [OF assms] by (simp_all add: lock_inv_def)
  show "lk_cpu (locks m l) = Some c \<longleftrightarrow> l \<in> set (held m c)" if "\<not> unnamed l (at m c)"
    using lock_ok_named [OF i(1)] lock_ok_not_named [OF i(1) _ that] by blast
  show "locked (locks m l) \<noteq> 0" if "l \<in> set (held m c)"
    using lock_ok_held [OF i(1) that] by (simp add: lock_owned_def)
  show "at (release_step c RelPop m) c = Running" if "at m c = RelPop"
  proof -
    have "ncli (cpus m c) > 0" "\<not> eflags_if (cpus m c)" using i(2) [of c] that by (auto simp: cli_ok_def)
    then show ?thesis by - (erule (1) popcli_returns, simp add: machine_ops)
  qed
qed

lemma lstep_panic:
  assumes r: "lreach m" and s: "lstep c m m'" and p: "at m' c = Panicked msg"
  shows "\<exists>l. at m c = AcqCpu l \<and> l \<in> set (held m c) \<or> (at m c = RelLocked l \<or> at m c = RelCpu l) \<and> l \<notin> set (held m c)"
  using s
proof cases
  case (acquiring stk v)
  then obtain l where "at m c = AcqCpu l" "lk_cpu (locks m l) = Some c"
    using p by (auto simp: machine_ops in_acquire_def split: if_splits)
  then show ?thesis using lreach_tests(1) [OF r, of l c] by (auto simp: unnamed_def)
next
  case releasing
  then consider l where "at m c = RelLocked l" "locked (locks m l) = 0" | l where "at m c = RelCpu l" "lk_cpu (locks m l) \<noteq> Some c"
    using p lreach_tests(3) [OF r, of c] by (fastforce simp: machine_ops in_release_def split: if_splits)
  then show ?thesis using lreach_tests(1,2) [OF r] by cases (auto simp: unnamed_def)
qed (use p in \<open>auto simp: machine_ops\<close>)

text \<open>
  C27. The panics of the lock functions are exactly the misuses. A processor enters a panic only in \<open>acquire\<close> of a lock it
  holds or in \<open>release\<close> of one it does not hold, never in \<open>popcli\<close>. \<open>acquire\<close> of a lock it holds passes the first test and
  panics in the second. \<open>release\<close> of a lock it does not hold panics in the first test if the lock is free, and otherwise goes on to the
  second test, still without the lock, and panics there; of a lock it holds it passes both tests. A step of a processor
  leaves the other processors where they are, with the locks they hold.
\<close>

theorem spinlock_panics_on_misuse:
  assumes r: "lreach m" and s: "lstep c m m'"
  shows "(at m c = AcqLocked l \<longrightarrow> held m' c = held m c \<and>
       (at m' c = AcqCpu l \<or> at m' c = Spin l \<and> l \<notin> set (held m c))) \<and>
    (at m c = AcqCpu l \<longrightarrow> at m' c = (if l \<in> set (held m c) then Panicked ''acquire'' else Spin l)) \<and>
    (at m c = RelLocked l \<longrightarrow> held m' c = held m c \<and>
       (at m' c = RelCpu l \<or> at m' c = Panicked ''release'' \<and> l \<notin> set (held m c)) \<and>
       (locked (locks m l) = 0 \<longrightarrow> at m' c = Panicked ''release'')) \<and>
    (at m c = RelCpu l \<longrightarrow> at m' c = (if l \<in> set (held m c) then ClearPcs l else Panicked ''release'')) \<and>
    (at m c = RelPop \<longrightarrow> at m' c = Running) \<and>
    (at m' c = Panicked msg \<longrightarrow> (\<exists>l. at m c = AcqCpu l \<and> l \<in> set (held m c) \<or>
       (at m c = RelLocked l \<or> at m c = RelCpu l) \<and> l \<notin> set (held m c))) \<and>
    (\<forall>d. d \<noteq> c \<longrightarrow> at m' d = at m d \<and> held m' d = held m d)"
proof -
  have tests: "(at m c = AcqLocked l \<longrightarrow> held m' c = held m c \<and> (at m' c = AcqCpu l \<or> at m' c = Spin l \<and> l \<notin> set (held m c))) \<and>
    (at m c = AcqCpu l \<longrightarrow> at m' c = (if l \<in> set (held m c) then Panicked ''acquire'' else Spin l)) \<and>
    (at m c = RelLocked l \<longrightarrow> held m' c = held m c \<and> (at m' c = RelCpu l \<or> at m' c = Panicked ''release'' \<and> l \<notin> set (held m c)) \<and>
       (locked (locks m l) = 0 \<longrightarrow> at m' c = Panicked ''release'')) \<and>
    (at m c = RelCpu l \<longrightarrow> at m' c = (if l \<in> set (held m c) then ClearPcs l else Panicked ''release'')) \<and>
    (at m c = RelPop \<longrightarrow> at m' c = Running)"
    using s by cases (use lreach_tests [OF r] in \<open>auto simp: machine_ops in_acquire_def in_release_def unnamed_def\<close>)
  then show ?thesis using lstep_panic [OF r s] lstep_other(1,2) [OF s] by blast
qed

text \<open>Processor 2 calls \<open>release\<close> on the lock that processor 0 has.\<close>

definition misuse_machine :: machine where
  "misuse_machine = (let m = goto 2 (RelLocked 0) got_machine in release_step 2 (at m 2) m)"

lemma misuse_machine_simps: "at misuse_machine 2 = RelCpu 0" "held misuse_machine 2 = []"
  by (simp_all add: misuse_machine_def got_machine_def boot_machine_def machine_ops Let_def)

lemma misuse_machine_reach: "lreach misuse_machine"
proof -
  have "lreach (goto 2 (RelLocked 0) got_machine)"
    by (rule lreach.step [OF got_machine_reach lstep.call_release])
      (simp add: got_machine_def boot_machine_def machine_ops Let_def)
  then show ?thesis unfolding misuse_machine_def Let_def
    by (rule lreach.step [OF _ lstep.releasing]) (simp add: goto_def in_release_def)
qed

theorem spinlock_panics_on_misuse_witness:
  "lreach misuse_machine \<and> at misuse_machine 2 = RelCpu 0 \<and> 0 \<notin> set (held misuse_machine 2) \<and>
   at (release_step 2 (RelCpu 0) misuse_machine) 2 = Panicked ''release'' \<and>
   at (release_step 3 (RelLocked 0) (goto 3 (RelLocked 0) boot_machine)) 3 = Panicked ''release''"
proof -
  let ?m = "goto 3 (RelLocked 0) boot_machine"
  have "lreach ?m" by (rule lreach.step [OF boot_machine_reach lstep.call_release]) (simp add: boot_machine_def)
  moreover have a: "at ?m 3 = RelLocked 0" by (simp add: goto_def)
  moreover have "lstep 3 ?m (release_step 3 (at ?m 3) ?m)" by (rule lstep.releasing) (simp add: a in_release_def)
  moreover have "locked (locks ?m 0) = 0" by (simp add: goto_def boot_machine_def)
  ultimately have free: "at (release_step 3 (RelLocked 0) ?m) 3 = Panicked ''release''"
    using spinlock_panics_on_misuse [of ?m 3 _ 0] by metis
  have "lstep 2 misuse_machine (release_step 2 (at misuse_machine 2) misuse_machine)"
    by (rule lstep.releasing) (simp add: misuse_machine_simps in_release_def)
  then have s: "lstep 2 misuse_machine (release_step 2 (RelCpu 0) misuse_machine)" by (simp only: misuse_machine_simps)
  show ?thesis using free spinlock_panics_on_misuse [OF misuse_machine_reach s, of 0]
    by (simp add: misuse_machine_simps misuse_machine_reach del: release_step.simps)
qed

section \<open>Nested interrupt disabling\<close>

text \<open>A sequence of \<open>pushcli\<close> (\<open>True\<close>) and \<open>popcli\<close> (\<open>False\<close>) on one processor.\<close>

fun run_cli :: "bool list \<Rightarrow> cpu \<Rightarrow> string + cpu" where
  "run_cli [] p = Inr p"
| "run_cli (True # ops) p = run_cli ops (pushcli p)"
| "run_cli (False # ops) p = (case popcli p of Inl msg \<Rightarrow> Inl msg | Inr p \<Rightarrow> run_cli ops p)"

fun depth :: "bool list \<Rightarrow> int" where
  "depth [] = 0"
| "depth (b # ops) = (if b then 1 else - 1) + depth ops"

lemma depth_append: "depth (xs @ ys) = depth xs + depth ys"
  by (induction xs) simp_all

lemma run_cli_append: "run_cli (xs @ ys) p = (case run_cli xs p of Inl msg \<Rightarrow> Inl msg | Inr q \<Rightarrow> run_cli ys q)"
  by (induction xs p rule: run_cli.induct) (simp_all split: sum.split)

text \<open>
  \<open>pushcli\<close> and \<open>popcli\<close> nest. From a processor with no \<open>pushcli\<close> pending, any sequence of them with no more \<open>popcli\<close> than
  \<open>pushcli\<close> in any of its prefixes returns without panic; the count is the number of calls not yet undone, interrupts
  are off while it is positive, and are as they were at the start when it is back at zero.
\<close>

lemma pushcli_popcli_nest:
  assumes "ncli p = 0" "\<forall>k \<le> length ops. 0 \<le> depth (take k ops)"
  shows "\<exists>q. run_cli ops p = Inr q \<and> ncli q = depth ops \<and> (0 < depth ops \<longrightarrow> \<not> eflags_if q \<and> intena q = eflags_if p) \<and>
    (depth ops = 0 \<longrightarrow> eflags_if q = eflags_if p)"
  using assms(2)
proof (induction ops rule: rev_induct)
  case Nil
  then show ?case using assms(1) by simp
next
  case (snoc b ops)
  have pre: "\<forall>k \<le> length ops. 0 \<le> depth (take k ops)"
  proof (intro allI impI)
    fix k assume "k \<le> length ops"
    then show "0 \<le> depth (take k ops)" using snoc.prems [rule_format, of k] by simp
  qed
  from snoc.IH [OF this] obtain q where q: "run_cli ops p = Inr q" "ncli q = depth ops"
    "0 < depth ops \<longrightarrow> \<not> eflags_if q \<and> intena q = eflags_if p" "depth ops = 0 \<longrightarrow> eflags_if q = eflags_if p" by blast
  have d: "0 \<le> depth ops" using pre [rule_format, of "length ops"] by simp
  have e: "0 \<le> depth (ops @ [b])" using snoc.prems [rule_format, of "Suc (length ops)"] by simp
  show ?case
  proof (cases b)
    case True
    with q d show ?thesis by (auto simp: run_cli_append depth_append pushcli_def Let_def)
  next
    case False
    then have "0 < depth ops" using e by (simp add: depth_append)
    with q False show ?thesis by (auto simp: run_cli_append depth_append popcli_def Let_def)
  qed
qed

end
