(* ===== verification/Ulib.thy ===== *)
theory Ulib
  imports Memory
begin

text \<open>
  The library of the user programs (ulib.c, printf.c). A string that is only read is a list of bytes without its NUL; an
  array that a function may leave, or that it writes, is memory or a list that ends where the array does.
\<close>

section \<open>Strings\<close>

definition str_bytes :: "string \<Rightarrow> uchar list" where "str_bytes = map of_char"

definition newline :: uchar where "newline = 0x0A"

text \<open>\<open>strcpy\<close>: the store, then the test of the byte stored. Source and target are in the same memory and may overlap.\<close>

partial_function (option) strcpy :: "uint \<Rightarrow> uint \<Rightarrow> memory \<Rightarrow> memory option" where
  "strcpy s t m = (if m t = 0 then Some (m(s := m t)) else strcpy (s + 1) (t + 1) (m(s := m t)))"

fun strcmp :: "uchar list \<Rightarrow> uchar list \<Rightarrow> cint" where
  "strcmp (p # ps) (q # qs) = (if p = q then strcmp ps qs else ucast p - ucast q)"
| "strcmp (p # ps) [] = ucast p"
| "strcmp [] (q # qs) = - ucast q"
| "strcmp [] [] = 0"

partial_function (option) ustrlen_from :: "memory \<Rightarrow> uint \<Rightarrow> cint \<Rightarrow> cint option" where
  "ustrlen_from m s n = (if m (s + n) = 0 then Some n else ustrlen_from m s (n + 1))"

definition umemset :: "uint \<Rightarrow> uchar \<Rightarrow> nat \<Rightarrow> memory \<Rightarrow> memory" where
  "umemset dst c n m = stosb dst c n m"

text \<open>
  \<open>strchr(s, c)\<close> on the bytes from \<open>s\<close> to the end of the array: \<open>None\<close> when it runs off the array, \<open>Some None\<close> for
  the null pointer, \<open>Some (Some k)\<close> for the address \<open>s + k\<close>.
\<close>

fun strchr_list :: "uchar \<Rightarrow> uchar list \<Rightarrow> nat option option" where
  "strchr_list c [] = None"
| "strchr_list c (x # xs) =
     (if x = 0 then Some None
      else if x = c then Some (Some 0)
      else map_option (map_option Suc) (strchr_list c xs))"

text \<open>
  \<open>gets\<close>: \<open>room\<close> is \<open>max - 1 - i\<close>, \<open>input\<close> what descriptor 0 delivers. The bytes stored in front of the NUL, and the input left.
\<close>

fun gets_loop :: "nat \<Rightarrow> uchar list \<Rightarrow> uchar list \<times> uchar list" where
  "gets_loop 0 input = ([], input)"
| "gets_loop (Suc room) [] = ([], [])"
| "gets_loop (Suc room) (c # input) =
     (if c = newline \<or> c = 0x0D then ([c], input)
      else (case gets_loop room input of (cs, rest) \<Rightarrow> (c # cs, rest)))"

definition gets :: "int \<Rightarrow> uchar list \<Rightarrow> uchar list \<times> uchar list" where
  "gets n input = gets_loop (nat (n - 1)) input"

text \<open>\<open>stat\<close> over the three system calls it makes on the state \<open>'w\<close> of the system.\<close>

definition ustat :: "('n \<Rightarrow> 'w \<Rightarrow> cint \<times> 'w) \<Rightarrow> (cint \<Rightarrow> 'w \<Rightarrow> cint \<times> 't option \<times> 'w) \<Rightarrow> (cint \<Rightarrow> 'w \<Rightarrow> 'w) \<Rightarrow>
    'n \<Rightarrow> 'w \<Rightarrow> cint \<times> 't option \<times> 'w" where
  "ustat sys_open sys_fstat sys_close n w =
     (case sys_open n w of (fd, w) \<Rightarrow>
        if sint fd < 0 then (- 1, None, w)
        else case sys_fstat fd w of (r, st, w) \<Rightarrow> (r, st, sys_close fd w))"

fun atoi_loop :: "cint \<Rightarrow> uchar list \<Rightarrow> cint" where
  "atoi_loop n [] = n"
| "atoi_loop n (c # cs) = (if 0x30 \<le> c \<and> c \<le> 0x39 then atoi_loop (n * 10 + ucast c - 0x30) cs else n)"

definition atoi :: "uchar list \<Rightarrow> cint" where
  "atoi s = atoi_loop 0 s"

text \<open>The user \<open>memmove\<close> copies upwards whatever the ranges are.\<close>

definition umemmove :: "uint \<Rightarrow> uint \<Rightarrow> int \<Rightarrow> memory \<Rightarrow> memory" where
  "umemmove vdst vsrc n m = copy_up vdst vsrc (nat n) m"

section \<open>Formatted output\<close>

definition udigits :: "uchar list" where "udigits = str_bytes ''0123456789ABCDEF''"

function uprintint_digits :: "uint \<Rightarrow> uint \<Rightarrow> uchar list" where
  "uprintint_digits base x =
     (if base \<le> 1 then []
      else udigits ! unat (x mod base) # (if x div base = 0 then [] else uprintint_digits base (x div base)))"
  by pat_completeness auto

termination
proof (relation "measure (\<lambda>(base, x). unat x)", goal_cases)
  case (2 base x)
  have "1 < unat base" using 2 by (simp add: word_less_nat_alt not_le)
  moreover have "unat x \<noteq> 0" using 2 by (auto simp: unat_eq_zero)
  ultimately show ?case by (simp add: unat_div)
qed simp

declare uprintint_digits.simps [simp del]

text \<open>The characters \<open>printint\<close> writes, in order.\<close>

definition uprintint :: "cint \<Rightarrow> uint \<Rightarrow> bool \<Rightarrow> uchar list" where
  "uprintint xx base sg =
     (let neg = (sg \<and> sint xx < 0); x = (if neg then - xx else xx)
      in rev (uprintint_digits base x @ (if neg then [0x2D] else [])))"

text \<open>An argument of \<open>printf\<close>: a number, or a pointer to a string with its characters.\<close>

datatype uarg = UNum uint | UStr "uchar list option"

text \<open>
  The characters \<open>printf\<close> writes; the state is whether the last character was an unconsumed \<open>%\<close>. \<open>None\<close>: it takes
  an argument it was not given.
\<close>

fun printf_loop :: "bool \<Rightarrow> uchar list \<Rightarrow> uarg list \<Rightarrow> uchar list option" where
  "printf_loop st [] ap = Some []"
| "printf_loop False (c # fmt) ap =
     (if c = of_char CHR ''%'' then printf_loop True fmt ap else map_option (Cons c) (printf_loop False fmt ap))"
| "printf_loop True (c # fmt) ap =
     (if c = of_char CHR ''d'' then
        (case ap of UNum x # ap \<Rightarrow> map_option (append (uprintint x 10 True)) (printf_loop False fmt ap) | _ \<Rightarrow> None)
      else if c = of_char CHR ''x'' \<or> c = of_char CHR ''p'' then
        (case ap of UNum x # ap \<Rightarrow> map_option (append (uprintint x 16 False)) (printf_loop False fmt ap) | _ \<Rightarrow> None)
      else if c = of_char CHR ''s'' then
        (case ap of
           UStr s # ap \<Rightarrow>
             map_option (append (case s of None \<Rightarrow> str_bytes ''(null)'' | Some s \<Rightarrow> s)) (printf_loop False fmt ap)
         | _ \<Rightarrow> None)
      else if c = of_char CHR ''c'' then
        (case ap of UNum x # ap \<Rightarrow> map_option (Cons (ucast x)) (printf_loop False fmt ap) | _ \<Rightarrow> None)
      else if c = of_char CHR ''%'' then map_option (Cons c) (printf_loop False fmt ap)
      else map_option (\<lambda>r. of_char CHR ''%'' # c # r) (printf_loop False fmt ap))"

definition printf :: "string \<Rightarrow> uarg list \<Rightarrow> uchar list option" where
  "printf fmt ap = printf_loop False (str_bytes fmt) ap"

section \<open>Lemmas\<close>

lemma strcmp_eq_0:
  "0 \<notin> set p \<Longrightarrow> 0 \<notin> set q \<Longrightarrow> strcmp p q = 0 \<longleftrightarrow> p = q"
proof (induction p q rule: strcmp.induct)
  case (1 p ps q qs)
  then show ?case by (auto simp: ucast_uchar_inj)
next
  case (2 p ps)
  then show ?case using ucast_uchar_inj [of p 0] by auto
next
  case (3 q qs)
  then show ?case using ucast_uchar_inj [of q 0] by auto
qed simp

lemma strchr_list_less: "strchr_list c xs = Some (Some k) \<Longrightarrow> k < length xs"
  by (induction xs arbitrary: k) (auto split: if_splits)

lemma strchr_list_NUL:
  "0 \<notin> set xs \<Longrightarrow> strchr_list c (xs @ 0 # ys) =
   Some (if c \<in> set xs then Some (length (takeWhile (\<lambda>x. x \<noteq> c) xs)) else None)"
  by (induction xs) auto

lemma gets_loop_stream: "gets_loop room input = (cs, rest) \<Longrightarrow> input = cs @ rest \<and> length cs \<le> room"
  by (induction room input arbitrary: cs rest rule: gets_loop.induct) (auto split: if_splits prod.splits)

text \<open>What the user \<open>memmove\<close> does when the target does not start inside the source.\<close>

lemma umemmove_eq:
  "unat (vsrc - vdst) + nat n \<le> 2 ^ 32 \<Longrightarrow>
   umemmove vdst vsrc n m b = (if unat (b - vdst) < nat n then m (vsrc + (b - vdst)) else m b)"
  unfolding umemmove_def by (rule copy_up_eq)

text \<open>And when it does: the first byte is copied all over the target.\<close>

lemma umemmove_smears: "umemmove 1 0 2 m 2 = m 0"
  by (simp add: umemmove_def numeral_2_eq_2)

lemma udigit: "k < 10 \<Longrightarrow> udigits ! k = of_nat (0x30 + k)"
proof -
  have "\<forall>k\<in>set [0..<10]. udigits ! k = of_nat (0x30 + k)" by code_simp
  then show "k < 10 \<Longrightarrow> ?thesis" by simp
qed

lemma atoi_loop_append:
  "\<forall>c\<in>set cs. 0x30 \<le> c \<and> c \<le> 0x39 \<Longrightarrow> atoi_loop n (cs @ ds) = atoi_loop (atoi_loop n cs) ds"
  by (induction cs arbitrary: n) auto


lemma uprintint_digits_atoi:
  "(\<forall>c\<in>set (uprintint_digits 10 x). 0x30 \<le> c \<and> c \<le> 0x39) \<and> atoi_loop 0 (rev (uprintint_digits 10 x)) = x"
proof (induction "10 :: uint" x rule: uprintint_digits.induct)
  case (1 x)
  let ?d = "udigits ! unat (x mod 10)"
  have "unat (x mod 10) < 10" by (simp add: unat_mod)
  then obtain k where k: "unat (x mod 10) = k" "k < 10" by blast
  then have d: "?d = of_nat (0x30 + k)" by (simp only: udigit)
  have k1: "x mod 10 = of_nat k" unfolding k(1) [symmetric] by simp
  have u: "unat ?d = 0x30 + k" unfolding d using k(2) by (simp add: unsigned_of_nat take_bit_eq_mod del: of_nat_add)
  have c: "ucast ?d = (of_nat (0x30 + k) :: uint)" unfolding u [symmetric] by simp
  have r: "0x30 \<le> ?d \<and> ?d \<le> 0x39" using u k(2) by (simp add: word_le_nat_alt)
  have ten: "\<not> (10 :: uint) \<le> 1" by (simp add: not_le word_less_nat_alt)
  then have e: "uprintint_digits 10 x = ?d # (if x div 10 = 0 then [] else uprintint_digits 10 (x div 10))"
    by (subst uprintint_digits.simps) simp
  have x: "(x div 10) * 10 + x mod 10 = x" by (rule div_mult_mod_eq)
  show ?case
  proof (cases "x div 10 = 0")
    case True
    then show ?thesis using e r c k1 x by simp
  next
    case False
    from 1 [OF ten False] show ?thesis using e r c k1 x False by (simp add: atoi_loop_append)
  qed
qed

text \<open>
  C28. \<open>atoi\<close> reads back what \<open>printf\<close> writes with \<open>%d\<close>: the decimal digits of every non-negative \<open>int\<close> give the number
  again, whatever non-digit follows them. A negative number is read as 0: \<open>atoi\<close> knows no sign.
\<close>

theorem atoi_reads_printf:
  assumes "rest = [] \<or> \<not> (0x30 \<le> hd rest \<and> hd rest \<le> 0x39)"
  shows "\<exists>out. printf ''%d'' [UNum x] = Some out \<and> atoi (out @ rest) = (if sint x < 0 then 0 else x)"
proof -
  have p: "printf ''%d'' [UNum x] = Some (uprintint x 10 True)"
    by (simp add: printf_def str_bytes_def)
  have stop: "atoi_loop n rest = n" for n using assms by (cases rest) auto
  show ?thesis
    unfolding p using uprintint_digits_atoi [of x] stop
    by (auto simp: uprintint_def Let_def atoi_def atoi_loop_append)
qed

theorem atoi_reads_printf_witness:
  "\<exists>out. printf ''%d'' [UNum 4096] = Some out \<and> atoi (out @ [newline]) = 4096"
  using atoi_reads_printf [of "[newline]" 4096] by (simp add: newline_def)

end
