(* ===== verification/Shell.thy ===== *)
theory Shell
  imports Ulib
begin

text \<open>
  The shell (sh.c): tokens, the recursive descent parser with all its panics, the termination of the words by NUL bytes,
  and what \<open>runcmd\<close> and the main loop do with a command. The command line is a list of bytes without NUL; a pointer into it
  is an index, and the byte at its end is the NUL. \<open>malloc\<close> is taken to succeed.
\<close>

section \<open>Commands and tokens\<close>

definition MAXARGS :: nat where "MAXARGS = 10"

text \<open>
  \<open>struct cmd\<close> and its variants. A word is the pair of pointers to its start and behind its end, as in \<open>argv\<close> and \<open>eargv\<close>,
  whose entries up to the null pointer are the list.
\<close>

datatype cmd =
    EXEC "(nat \<times> nat) list"
  | REDIR cmd nat nat uint int
  | PIPE cmd cmd
  | LIST cmd cmd
  | BACK cmd

definition whitespace :: "uchar list" where "whitespace = [0x20, 0x09, 0x0D, 0x0A, 0x0B]"

definition symbols :: "uchar list" where "symbols = str_bytes ''<|>&;()''"

text \<open>The byte at a pointer; the line is followed by its NUL.\<close>

definition byte_at :: "uchar list \<Rightarrow> nat \<Rightarrow> uchar" where
  "byte_at l i = (if i < length l then l ! i else 0)"

text \<open>The loop that moves a pointer over bytes with a property, up to \<open>es\<close>.\<close>

function advance :: "(uchar \<Rightarrow> bool) \<Rightarrow> uchar list \<Rightarrow> nat \<Rightarrow> nat" where
  "advance P l s = (if s < length l \<and> P (byte_at l s) then advance P l (s + 1) else s)"
  by pat_completeness auto

termination
  by (relation "measure (\<lambda>(P, l, s). length l - s)") auto

declare advance.simps [simp del]

definition blank :: "uchar \<Rightarrow> bool" where
  "blank c \<longleftrightarrow> c \<in> set whitespace"

definition word_char :: "uchar \<Rightarrow> bool" where
  "word_char c \<longleftrightarrow> c \<notin> set whitespace \<and> c \<notin> set symbols"

text \<open>\<open>gettoken\<close>: the token, \<open>q\<close>, \<open>eq\<close> and the new \<open>ps\<close>.\<close>

definition gettoken :: "uchar list \<Rightarrow> nat \<Rightarrow> uchar \<times> nat \<times> nat \<times> nat" where
  "gettoken l ps =
     (let s = advance blank l ps; q = s; c = byte_at l s;
          (ret, s) =
            (if c = 0 then (c, s)
             else if c \<in> set (str_bytes ''|();&<'') then (c, s + 1)
             else if c = of_char CHR ''>'' then
               (if byte_at l (s + 1) = of_char CHR ''>'' then (of_char CHR ''+'', s + 2) else (c, s + 1))
             else (of_char CHR ''a'', advance word_char l s))
      in (ret, q, s, advance blank l s))"

definition peek :: "uchar list \<Rightarrow> nat \<Rightarrow> string \<Rightarrow> nat \<times> bool" where
  "peek l ps toks =
     (let s = advance blank l ps in (s, byte_at l s \<noteq> 0 \<and> byte_at l s \<in> set (str_bytes toks)))"

section \<open>Lemmas on tokens\<close>

lemma advance_step: "s < length l \<and> P (byte_at l s) \<Longrightarrow> advance P l s = advance P l (s + 1)"
  by (subst advance.simps) simp

lemma advance_stay: "\<not> (s < length l \<and> P (byte_at l s)) \<Longrightarrow> advance P l s = s"
  by (subst advance.simps) (simp only: if_False)

lemma advance_bounds: "s \<le> advance P l s \<and> (s \<le> length l \<longrightarrow> advance P l s \<le> length l)"
proof (induction P l s rule: advance.induct)
  case (1 P l s)
  then show ?case by (cases "s < length l \<and> P (byte_at l s)") (auto simp: advance_step advance_stay)
qed

lemma advance_ge: "s \<le> advance P l s"
  using advance_bounds by blast

lemma advance_le: "s \<le> length l \<Longrightarrow> advance P l s \<le> length l"
  using advance_bounds by blast

lemma advance_all: "s \<le> i \<Longrightarrow> i < advance P l s \<Longrightarrow> i < length l \<and> P (l ! i)"
proof (induction P l s rule: advance.induct)
  case (1 P l s)
  show ?case
  proof (cases "s < length l \<and> P (byte_at l s)")
    case True
    then show ?thesis using 1 advance_step [of s l P, OF True] by (cases "i = s") (auto simp: byte_at_def)
  next
    case False
    then show ?thesis using "1.prems" by (simp add: advance_stay)
  qed
qed

lemma advance_stops: "advance P l s < length l \<Longrightarrow> \<not> P (l ! advance P l s)"
proof (induction P l s rule: advance.induct)
  case (1 P l s)
  show ?case
  proof (cases "s < length l \<and> P (byte_at l s)")
    case True
    then show ?thesis using 1 by (simp add: advance_step)
  next
    case False
    then show ?thesis using "1.prems" by (auto simp: advance_stay byte_at_def)
  qed
qed

lemma byte_at_less: "byte_at l i \<noteq> 0 \<Longrightarrow> i < length l"
  by (auto simp: byte_at_def split: if_splits)

text \<open>Where \<open>gettoken\<close> leaves the pointers: inside the line, and further on unless it is at the end.\<close>

lemma gettoken_bounds:
  assumes "gettoken l ps = (t, q, eq, ps')" "ps \<le> length l"
  shows "ps \<le> q" "q \<le> eq" "eq \<le> ps'" "ps' \<le> length l" "t \<noteq> 0 \<Longrightarrow> ps < ps'"
proof -
  let ?s = "advance blank l ps"
  have s: "ps \<le> ?s" "?s \<le> length l" using assms(2) by (simp_all add: advance_ge advance_le)
  have q: "q = ?s" using assms(1) by (auto simp: gettoken_def Let_def split: prod.splits if_splits)
  have e: "ps' = advance blank l eq" using assms(1) by (auto simp: gettoken_def Let_def split: prod.splits if_splits)
  have w: "?s < advance word_char l ?s" if "byte_at l ?s \<noteq> 0" "\<not> byte_at l ?s \<in> set (str_bytes ''|();&<'')" "byte_at l ?s \<noteq> of_char CHR ''>''"
  proof -
    have "?s < length l" using that(1) by (rule byte_at_less)
    moreover have "\<not> blank (byte_at l ?s)" using advance_stops calculation by (simp add: byte_at_def)
    then have "word_char (byte_at l ?s)" using that(2,3) by (auto simp: word_char_def blank_def symbols_def str_bytes_def)
    ultimately have "advance word_char l ?s = advance word_char l (?s + 1)" by (simp add: advance_step)
    then show ?thesis using advance_ge [of "?s + 1" word_char l] by simp
  qed
  have "?s \<le> eq \<and> eq \<le> length l \<and> (t \<noteq> 0 \<longrightarrow> ?s < eq)"
  proof (cases "byte_at l ?s = 0")
    case True
    then show ?thesis using assms(1) s by (auto simp: gettoken_def Let_def)
  next
    case nz: False
    then have "?s < length l" by (rule byte_at_less)
    moreover have "byte_at l (?s + 1) = of_char CHR ''>'' \<Longrightarrow> ?s + 1 < length l"
      by (rule byte_at_less) simp
    ultimately show ?thesis using assms(1) nz w advance_le [of ?s l word_char]
      by (auto simp: gettoken_def Let_def split: if_splits)
  qed
  then show "ps \<le> q" "q \<le> eq" "eq \<le> ps'" "ps' \<le> length l" "t \<noteq> 0 \<Longrightarrow> ps < ps'"
    using s q e advance_ge [of eq blank l] advance_le [of eq l blank] by auto
qed

lemma peek_bounds:
  assumes "peek l ps toks = (ps', b)" "ps \<le> length l"
  shows "ps \<le> ps'" "ps' \<le> length l" "b \<Longrightarrow> byte_at l ps' \<noteq> 0 \<and> \<not> blank (byte_at l ps')"
proof -
  have p: "ps' = advance blank l ps" "b \<longleftrightarrow> byte_at l ps' \<noteq> 0 \<and> byte_at l ps' \<in> set (str_bytes toks)"
    using assms(1) by (auto simp: peek_def Let_def)
  then show "ps \<le> ps'" "ps' \<le> length l" using assms(2) by (simp_all add: advance_ge advance_le)
  show "byte_at l ps' \<noteq> 0 \<and> \<not> blank (byte_at l ps')" if b
  proof -
    have "byte_at l ps' \<noteq> 0" using that p by simp
    moreover from this have "ps' < length l" by (rule byte_at_less)
    then have "\<not> blank (byte_at l ps')" using advance_stops [of blank l ps] p(1) by (simp add: byte_at_def)
    ultimately show ?thesis by simp
  qed
qed

text \<open>After a successful \<open>peek\<close> there is a token.\<close>

lemma gettoken_after_peek:
  assumes "byte_at l ps \<noteq> 0" "\<not> blank (byte_at l ps)" "gettoken l ps = (t, q, eq, ps')"
  shows "t \<noteq> 0" "ps < ps'"
proof -
  have "advance blank l ps = ps" using assms(2) by (intro advance_stay) simp
  then show "t \<noteq> 0" using assms by (auto simp: gettoken_def Let_def split: if_splits)
  moreover have "ps \<le> length l" using byte_at_less [OF assms(1)] by simp
  ultimately show "ps < ps'" using gettoken_bounds(5) [OF assms(3)] by blast
qed

section \<open>The parser\<close>

text \<open>A parse ends with a value and a pointer, in \<open>panic\<close>, or, for the fuelled functions, out of fuel.\<close>

datatype 'a presult = POk 'a nat | PPanic string | PFuel

fun pbind :: "'a presult \<Rightarrow> ('a \<Rightarrow> nat \<Rightarrow> 'b presult) \<Rightarrow> 'b presult" where
  "pbind (POk x s) f = f x s"
| "pbind (PPanic m) f = PPanic m"
| "pbind PFuel f = PFuel"

lemma pbind_cong [fundef_cong]:
  "r = r' \<Longrightarrow> (\<And>x s. r' = POk x s \<Longrightarrow> f x s = g x s) \<Longrightarrow> pbind r f = pbind r' g"
  by (cases r') auto

text \<open>
  A redirection: the word, the mode (\<open>O_RDONLY\<close>, or \<open>O_WRONLY|O_CREATE\<close>, for \<open>>>\<close> as well) and the descriptor. The code wraps the
  command in a \<open>redircmd\<close> for each while it goes on filling \<open>argv\<close> of the \<open>execcmd\<close> inside; here the redirections are
  collected in order and wrapped around the finished command.
\<close>

type_synonym redir = "nat \<times> nat \<times> uint \<times> int"

definition redir_of :: "uchar \<Rightarrow> nat \<Rightarrow> nat \<Rightarrow> redir" where
  "redir_of tok q eq = (if tok = of_char CHR ''<'' then (q, eq, 0, 0) else (q, eq, 0x201, 1))"

definition wrap :: "redir list \<Rightarrow> cmd \<Rightarrow> cmd" where
  "wrap rs c = foldl (\<lambda>c (q, eq, mode, fd). REDIR c q eq mode fd) c rs"

lemma peek_token:
  assumes "peek l ps toks = (ps1, True)" "gettoken l ps1 = (t, q, eq, ps2)"
  shows "ps \<le> ps1" "ps1 < ps2" "ps2 \<le> length l" "t \<noteq> 0" "ps < length l"
proof -
  have "ps1 = advance blank l ps" "byte_at l ps1 \<noteq> 0" using assms(1) by (auto simp: peek_def Let_def)
  moreover from this have "ps1 < length l" by (blast intro: byte_at_less)
  ultimately have p: "ps \<le> ps1" "ps1 < length l" "byte_at l ps1 \<noteq> 0" by (simp_all add: advance_ge)
  then have "\<not> blank (byte_at l ps1)" using peek_bounds(3) [OF assms(1)] by simp
  from gettoken_after_peek [OF p(3) this assms(2)] gettoken_bounds(4) [OF assms(2)] p
  show "ps \<le> ps1" "ps1 < ps2" "ps2 \<le> length l" "t \<noteq> 0" "ps < length l" by simp_all
qed

lemma redir_advances:
  assumes "(ps1, True) = peek l ps toks" "(tok, q1, eq1, ps2) = gettoken l ps1" "(t, q, eq, ps3) = gettoken l ps2"
  shows "length l - ps3 < length l - ps"
  using peek_token [OF assms(1) [symmetric] assms(2) [symmetric]] gettoken_bounds [OF assms(3) [symmetric]] by simp

function parseredirs :: "uchar list \<Rightarrow> redir list \<Rightarrow> nat \<Rightarrow> redir list presult" where
  "parseredirs l rs ps =
     (case peek l ps ''<>'' of (ps1, b) \<Rightarrow>
        if \<not> b then POk rs ps1
        else
          case gettoken l ps1 of (tok, _, _, ps2) \<Rightarrow>
          case gettoken l ps2 of (t, q, eq, ps3) \<Rightarrow>
          if t \<noteq> of_char CHR ''a'' then PPanic ''missing file for redirection''
          else parseredirs l (rs @ [redir_of tok q eq]) ps3)"
  by pat_completeness auto

termination
  by (relation "measure (\<lambda>(l, rs, ps). length l - ps)") (auto intro: redir_advances)

declare parseredirs.simps [simp del]

text \<open>The loop of \<open>parseexec\<close>: the words so far, and the redirections so far.\<close>

function parse_args :: "uchar list \<Rightarrow> (nat \<times> nat) list \<Rightarrow> redir list \<Rightarrow> nat \<Rightarrow> ((nat \<times> nat) list \<times> redir list) presult" where
  "parse_args l argv rs ps =
     (case peek l ps ''|)&;'' of (ps1, b) \<Rightarrow>
        if b then POk (argv, rs) ps1
        else
          case gettoken l ps1 of (tok, q, eq, ps2) \<Rightarrow>
          if tok = 0 then POk (argv, rs) ps2
          else if tok \<noteq> of_char CHR ''a'' then PPanic ''syntax''
          else if length argv + 1 \<ge> MAXARGS then PPanic ''too many args''
          else pbind (parseredirs l rs ps2) (\<lambda>rs ps3. parse_args l (argv @ [(q, eq)]) rs ps3))"
  by pat_completeness auto

termination
  by (relation "measure (\<lambda>(l, argv, rs, ps). MAXARGS - length argv)") auto

declare parse_args.simps [simp del]

lemma token_advances:
  assumes "(ps1, True) = peek l ps toks" "(t, q, eq, ps2) = gettoken l ps1"
  shows "length l - ps2 < length l - ps"
  using peek_token [OF assms(1) [symmetric] assms(2) [symmetric]] by simp

text \<open>The loop of \<open>parseline\<close> over \<open>&\<close>.\<close>

function parse_backs :: "uchar list \<Rightarrow> cmd \<Rightarrow> nat \<Rightarrow> cmd \<times> nat" where
  "parse_backs l c ps =
     (case peek l ps ''&'' of (ps1, b) \<Rightarrow>
        if b then (case gettoken l ps1 of (_, _, _, ps2) \<Rightarrow> parse_backs l (BACK c) ps2) else (c, ps1))"
  by pat_completeness auto

termination
  by (relation "measure (\<lambda>(l, c, ps). length l - ps)") (auto intro: token_advances)

declare parse_backs.simps [simp del]

fun parseline :: "nat \<Rightarrow> uchar list \<Rightarrow> nat \<Rightarrow> cmd presult"
  and parsepipe :: "nat \<Rightarrow> uchar list \<Rightarrow> nat \<Rightarrow> cmd presult"
  and parseexec :: "nat \<Rightarrow> uchar list \<Rightarrow> nat \<Rightarrow> cmd presult"
  and parseblock :: "nat \<Rightarrow> uchar list \<Rightarrow> nat \<Rightarrow> cmd presult" where
  "parseline 0 l ps = PFuel"
| "parseline (Suc n) l ps =
     pbind (parsepipe n l ps) (\<lambda>c ps.
     case parse_backs l c ps of (c, ps) \<Rightarrow>
     case peek l ps '';'' of (ps, b) \<Rightarrow>
     if b then
       case gettoken l ps of (_, _, _, ps) \<Rightarrow>
       pbind (parseline n l ps) (\<lambda>d ps. POk (LIST c d) ps)
     else POk c ps)"
| "parsepipe 0 l ps = PFuel"
| "parsepipe (Suc n) l ps =
     pbind (parseexec n l ps) (\<lambda>c ps.
     case peek l ps ''|'' of (ps, b) \<Rightarrow>
     if b then
       case gettoken l ps of (_, _, _, ps) \<Rightarrow>
       pbind (parsepipe n l ps) (\<lambda>d ps. POk (PIPE c d) ps)
     else POk c ps)"
| "parseexec 0 l ps = PFuel"
| "parseexec (Suc n) l ps =
     (case peek l ps ''('' of (ps, b) \<Rightarrow>
      if b then parseblock n l ps
      else
        pbind (parseredirs l [] ps) (\<lambda>rs ps.
        pbind (parse_args l [] rs ps) (\<lambda>(argv, rs) ps.
        POk (wrap rs (EXEC argv)) ps)))"
| "parseblock 0 l ps = PFuel"
| "parseblock (Suc n) l ps =
     (case peek l ps ''('' of (ps, b) \<Rightarrow>
      if \<not> b then PPanic ''parseblock''
      else
        case gettoken l ps of (_, _, _, ps) \<Rightarrow>
        pbind (parseline n l ps) (\<lambda>c ps.
        case peek l ps '')'' of (ps, b) \<Rightarrow>
        if \<not> b then PPanic ''syntax - missing )''
        else
          case gettoken l ps of (_, _, _, ps) \<Rightarrow>
          pbind (parseredirs l [] ps) (\<lambda>rs ps. POk (wrap rs c) ps)))"

text \<open>\<open>nulterminate\<close>: a NUL behind every word, in the buffer that holds the line and its NUL.\<close>

fun nulterminate :: "cmd \<Rightarrow> uchar list \<Rightarrow> uchar list" where
  "nulterminate (EXEC argv) b = foldl (\<lambda>b (q, eq). b[eq := 0]) b argv"
| "nulterminate (REDIR c q eq mode fd) b = (nulterminate c b)[eq := 0]"
| "nulterminate (PIPE c d) b = nulterminate d (nulterminate c b)"
| "nulterminate (LIST c d) b = nulterminate d (nulterminate c b)"
| "nulterminate (BACK c) b = nulterminate c b"

text \<open>\<open>parsecmd\<close>: the command and the buffer. Each level of the parser has taken a character when it is entered again.\<close>

definition parse_fuel :: "uchar list \<Rightarrow> nat" where
  "parse_fuel l = 4 * length l + 4"

definition parsecmd :: "uchar list \<Rightarrow> (cmd \<times> uchar list) presult" where
  "parsecmd l =
     pbind (parseline (parse_fuel l) l 0) (\<lambda>c ps.
     case peek l ps '''' of (ps, _) \<Rightarrow>
     if ps \<noteq> length l then PPanic ''syntax''
     else POk (c, nulterminate c (l @ [0])) ps)"

section \<open>What the parser returns\<close>

text \<open>A word: a maximal run of characters that are neither blank nor symbols.\<close>

definition word_ok :: "uchar list \<Rightarrow> nat \<times> nat \<Rightarrow> bool" where
  "word_ok l w \<longleftrightarrow> (case w of (q, eq) \<Rightarrow> q < eq \<and> eq \<le> length l \<and> (\<forall>k. q \<le> k \<and> k < eq \<longrightarrow> word_char (l ! k)) \<and>
     (eq < length l \<longrightarrow> \<not> word_char (l ! eq)))"

fun cmd_ok :: "uchar list \<Rightarrow> cmd \<Rightarrow> bool" where
  "cmd_ok l (EXEC argv) \<longleftrightarrow> length argv < MAXARGS \<and> (\<forall>w \<in> set argv. word_ok l w)"
| "cmd_ok l (REDIR c q eq mode fd) \<longleftrightarrow> cmd_ok l c \<and> word_ok l (q, eq) \<and> fd \<in> {0, 1}"
| "cmd_ok l (PIPE c d) \<longleftrightarrow> cmd_ok l c \<and> cmd_ok l d"
| "cmd_ok l (LIST c d) \<longleftrightarrow> cmd_ok l c \<and> cmd_ok l d"
| "cmd_ok l (BACK c) \<longleftrightarrow> cmd_ok l c"

definition redir_ok :: "uchar list \<Rightarrow> redir \<Rightarrow> bool" where
  "redir_ok l r \<longleftrightarrow> (case r of (q, eq, mode, fd) \<Rightarrow> word_ok l (q, eq) \<and> fd \<in> {0, 1})"

fun pres :: "('a \<Rightarrow> nat \<Rightarrow> bool) \<Rightarrow> 'a presult \<Rightarrow> bool" where
  "pres P (POk x s) = P x s"
| "pres P (PPanic m) = True"
| "pres P PFuel = False"

lemma pres_bind: "pres P r \<Longrightarrow> (\<And>x s. P x s \<Longrightarrow> pres Q (f x s)) \<Longrightarrow> pres Q (pbind r f)"
  by (cases r) auto

lemma gettoken_word:
  assumes "gettoken l ps = (of_char CHR ''a'', q, eq, ps')" "ps \<le> length l"
  shows "word_ok l (q, eq)"
proof -
  let ?s = "advance blank l ps"
  have c: "byte_at l ?s \<noteq> 0" "\<not> byte_at l ?s \<in> set (str_bytes ''|();&<'')" "byte_at l ?s \<noteq> of_char CHR ''>''"
    and e: "q = ?s" "eq = advance word_char l ?s"
    using assms(1) by (auto simp: gettoken_def Let_def str_bytes_def split: if_splits)
  have s: "?s < length l" using c(1) by (rule byte_at_less)
  moreover have "\<not> blank (byte_at l ?s)" using advance_stops s by (simp add: byte_at_def)
  then have "word_char (byte_at l ?s)" using c by (auto simp: word_char_def blank_def symbols_def str_bytes_def)
  ultimately have "eq = advance word_char l (?s + 1)" unfolding e by (simp add: advance_step)
  then have "q < eq" using advance_ge [of "?s + 1" word_char l] e(1) by simp
  moreover have "eq \<le> length l" unfolding e(2) by (rule advance_le) (use s in simp)
  moreover have "word_char (l ! k)" if "q \<le> k" "k < eq" for k using advance_all that unfolding e by blast
  moreover have "eq < length l \<Longrightarrow> \<not> word_char (l ! eq)" unfolding e by (rule advance_stops)
  ultimately show ?thesis by (simp add: word_ok_def)
qed

lemma parseredirs_ok:
  "ps \<le> length l \<Longrightarrow> \<forall>r \<in> set rs. redir_ok l r \<Longrightarrow>
   pres (\<lambda>rs' ps'. ps \<le> ps' \<and> ps' \<le> length l \<and> (\<forall>r \<in> set rs'. redir_ok l r)) (parseredirs l rs ps)"
proof (induction l rs ps rule: parseredirs.induct)
  case (1 l rs ps)
  obtain ps1 b where p: "peek l ps ''<>'' = (ps1, b)" by fastforce
  obtain tok q1 eq1 ps2 where g: "gettoken l ps1 = (tok, q1, eq1, ps2)" by (metis prod_cases4)
  obtain t q eq ps3 where h: "gettoken l ps2 = (t, q, eq, ps3)" by (metis prod_cases4)
  show ?case
  proof (cases "b \<and> t = of_char CHR ''a''")
    case True
    then have p': "peek l ps ''<>'' = (ps1, True)" using p by simp
    note k = peek_token [OF p' g]
    note m = gettoken_bounds [OF h k(3)]
    have w: "word_ok l (q, eq)" using gettoken_word [of l ps2 q eq ps3] h k(3) True by simp
    then have r: "\<forall>r \<in> set (rs @ [redir_of tok q eq]). redir_ok l r"
      using "1.prems"(2) by (auto simp: redir_ok_def redir_of_def)
    have "pres (\<lambda>rs' ps'. ps3 \<le> ps' \<and> ps' \<le> length l \<and> (\<forall>r \<in> set rs'. redir_ok l r))
        (parseredirs l (rs @ [redir_of tok q eq]) ps3)"
      using True m r by (intro "1.IH" [OF p' [symmetric] _ g [symmetric] refl refl h [symmetric] refl refl]) simp_all
    then show ?thesis using p' g h True k m
      by (subst parseredirs.simps) (cases "parseredirs l (rs @ [redir_of tok q eq]) ps3"; auto)
  next
    case False
    then show ?thesis using p g h "1.prems" peek_bounds [OF p "1.prems"(1)]
      by (subst parseredirs.simps) auto
  qed
qed

lemma parse_args_ok:
  "ps \<le> length l \<Longrightarrow> length argv < MAXARGS \<Longrightarrow> \<forall>w \<in> set argv. word_ok l w \<Longrightarrow> \<forall>r \<in> set rs. redir_ok l r \<Longrightarrow>
   pres (\<lambda>(argv', rs') ps'. ps \<le> ps' \<and> ps' \<le> length l \<and> length argv' < MAXARGS \<and>
     (\<forall>w \<in> set argv'. word_ok l w) \<and> (\<forall>r \<in> set rs'. redir_ok l r)) (parse_args l argv rs ps)"
proof (induction l argv rs ps rule: parse_args.induct)
  case (1 l argv rs ps)
  obtain ps1 b where p: "peek l ps ''|)&;'' = (ps1, b)" by fastforce
  obtain tok q eq ps2 where g: "gettoken l ps1 = (tok, q, eq, ps2)" by (metis prod_cases4)
  note k = peek_bounds [OF p "1.prems"(1)]
  note m = gettoken_bounds [OF g k(2)]
  show ?case
  proof (cases "\<not> b \<and> tok = of_char CHR ''a'' \<and> length argv + 1 < MAXARGS")
    case True
    then have w: "word_ok l (q, eq)" using gettoken_word [of l ps1 q eq ps2] g k(2) by simp
    have IH: "pres (\<lambda>(argv', rs') ps'. ps3 \<le> ps' \<and> ps' \<le> length l \<and> length argv' < MAXARGS \<and>
        (\<forall>w \<in> set argv'. word_ok l w) \<and> (\<forall>r \<in> set rs'. redir_ok l r)) (parse_args l (argv @ [(q, eq)]) rs1 ps3)"
      if "parseredirs l rs ps2 = POk rs1 ps3" "ps3 \<le> length l" "\<forall>r \<in> set rs1. redir_ok l r" for rs1 ps3
      using True w that "1.prems" by (intro "1.IH" [OF p [symmetric] _ g [symmetric] refl refl]) auto
    have "pres (\<lambda>rs' ps'. ps2 \<le> ps' \<and> ps' \<le> length l \<and> (\<forall>r \<in> set rs'. redir_ok l r)) (parseredirs l rs ps2)"
      using m "1.prems" by (intro parseredirs_ok) simp_all
    then show ?thesis
    proof (cases "parseredirs l rs ps2")
      case (POk rs1 ps3)
      then have o: "ps2 \<le> ps3" "ps3 \<le> length l" "\<forall>r \<in> set rs1. redir_ok l r"
        using \<open>pres _ (parseredirs l rs ps2)\<close> by simp_all
      from IH [OF POk o(2,3)] show ?thesis using p g True POk k m o
        by (subst parse_args.simps) (cases "parse_args l (argv @ [(q, eq)]) rs1 ps3"; auto)
    next
      case (PPanic msg)
      then show ?thesis using p g True by (subst parse_args.simps) auto
    qed simp
  next
    case False
    then show ?thesis using p g k m "1.prems" by (subst parse_args.simps) (auto simp: not_less)
  qed
qed

lemma parse_backs_ok:
  "ps \<le> length l \<Longrightarrow> cmd_ok l c \<Longrightarrow> parse_backs l c ps = (c', ps') \<Longrightarrow> ps \<le> ps' \<and> ps' \<le> length l \<and> cmd_ok l c'"
proof (induction l c ps rule: parse_backs.induct)
  case (1 l c ps)
  obtain ps1 b where p: "peek l ps ''&'' = (ps1, b)" by fastforce
  obtain tok q eq ps2 where g: "gettoken l ps1 = (tok, q, eq, ps2)" by (metis prod_cases4)
  note k = peek_bounds [OF p "1.prems"(1)]
  note m = gettoken_bounds [OF g k(2)]
  show ?case
  proof (cases b)
    case True
    then have "parse_backs l (BACK c) ps2 = (c', ps')" using "1.prems"(3) p g by (simp add: parse_backs.simps [of l c ps])
    then have "ps2 \<le> ps' \<and> ps' \<le> length l \<and> cmd_ok l c'"
      using True m "1.prems" by (intro "1.IH" [OF p [symmetric] _ g [symmetric] refl refl]) simp_all
    then show ?thesis using k m by auto
  next
    case False
    then show ?thesis using "1.prems" p k by (simp add: parse_backs.simps [of l c ps])
  qed
qed

lemma peek_token_if:
  assumes "peek l ps toks = (ps1, b)" b "gettoken l ps1 = (t, q, eq, ps2)"
  shows "ps \<le> ps1" "ps1 < ps2" "ps2 \<le> length l"
  using peek_token [of l ps toks ps1 t q eq ps2] assms by simp_all

lemma wrap_ok: "cmd_ok l c \<Longrightarrow> \<forall>r \<in> set rs. redir_ok l r \<Longrightarrow> cmd_ok l (wrap rs c)"
  unfolding wrap_def by (induction rs arbitrary: c) (auto simp: redir_ok_def)

text \<open>Within its fuel each function of the parser returns a good command and has moved on, or panics.\<close>

abbreviation parsed :: "uchar list \<Rightarrow> nat \<Rightarrow> cmd presult \<Rightarrow> bool" where
  "parsed l ps r \<equiv> pres (\<lambda>c ps'. ps \<le> ps' \<and> ps' \<le> length l \<and> cmd_ok l c) r"

lemma parsed_mono: "parsed l ps r \<Longrightarrow> ps0 \<le> ps \<Longrightarrow> parsed l ps0 r"
  by (cases r) auto

lemma parseline_step:
  assumes ps: "ps \<le> length l" and pipe: "parsed l ps (parsepipe n l ps)"
    and line: "\<And>ps'. ps < ps' \<Longrightarrow> ps' \<le> length l \<Longrightarrow> parsed l ps' (parseline n l ps')"
  shows "parsed l ps (parseline (Suc n) l ps)"
  unfolding parseline.simps
proof (rule pres_bind [OF pipe], elim conjE)
  fix c ps1 assume c: "ps \<le> ps1" "ps1 \<le> length l" "cmd_ok l c"
  obtain c2 ps2 where b: "parse_backs l c ps1 = (c2, ps2)" by fastforce
  note k = parse_backs_ok [OF c(2,3) b]
  obtain ps3 t where p: "peek l ps2 '';'' = (ps3, t)" by fastforce
  obtain tok q eq ps4 where g: "gettoken l ps3 = (tok, q, eq, ps4)" by (metis prod_cases4)
  show "parsed l ps (case parse_backs l c ps1 of (c, ps) \<Rightarrow> case peek l ps '';'' of (ps, b) \<Rightarrow>
     if b then case gettoken l ps of (_, _, _, ps) \<Rightarrow> pbind (parseline n l ps) (\<lambda>d. POk (LIST c d)) else POk c ps)"
  proof (cases t)
    case True
    then have m: "ps2 \<le> ps3" "ps3 < ps4" "ps4 \<le> length l" using peek_token_if [OF p _ g] by simp_all
    then have "parsed l ps4 (parseline n l ps4)" using c k by (intro line) simp_all
    then have "parsed l ps (pbind (parseline n l ps4) (\<lambda>d. POk (LIST c2 d)))"
      by (rule pres_bind) (use c k m in auto)
    then show ?thesis using True b p g by simp
  next
    case False
    then show ?thesis using b p k c peek_bounds [OF p] by auto
  qed
qed

lemma parsepipe_step:
  assumes ps: "ps \<le> length l" and exec: "parsed l ps (parseexec n l ps)"
    and pipe: "\<And>ps'. ps < ps' \<Longrightarrow> ps' \<le> length l \<Longrightarrow> parsed l ps' (parsepipe n l ps')"
  shows "parsed l ps (parsepipe (Suc n) l ps)"
  unfolding parsepipe.simps
proof (rule pres_bind [OF exec], elim conjE)
  fix c ps2 assume c: "ps \<le> ps2" "ps2 \<le> length l" "cmd_ok l c"
  obtain ps3 t where p: "peek l ps2 ''|'' = (ps3, t)" by fastforce
  obtain tok q eq ps4 where g: "gettoken l ps3 = (tok, q, eq, ps4)" by (metis prod_cases4)
  show "parsed l ps (case peek l ps2 ''|'' of (ps, b) \<Rightarrow>
     if b then case gettoken l ps of (_, _, _, ps) \<Rightarrow> pbind (parsepipe n l ps) (\<lambda>d. POk (PIPE c d)) else POk c ps)"
  proof (cases t)
    case True
    then have m: "ps2 \<le> ps3" "ps3 < ps4" "ps4 \<le> length l" using peek_token_if [OF p _ g] by simp_all
    then have "parsed l ps4 (parsepipe n l ps4)" using c by (intro pipe) simp_all
    then have "parsed l ps (pbind (parsepipe n l ps4) (\<lambda>d. POk (PIPE c d)))"
      by (rule pres_bind) (use c m in auto)
    then show ?thesis using True p g by simp
  next
    case False
    then show ?thesis using p c peek_bounds [OF p] by auto
  qed
qed

lemma parseexec_step:
  assumes ps: "ps \<le> length l"
    and block: "\<And>ps'. ps \<le> ps' \<Longrightarrow> ps' \<le> length l \<Longrightarrow> parsed l ps' (parseblock n l ps')"
  shows "parsed l ps (parseexec (Suc n) l ps)"
proof -
  obtain ps1 t where p: "peek l ps ''('' = (ps1, t)" by fastforce
  note k = peek_bounds [OF p ps]
  have "parsed l ps (pbind (parseredirs l [] ps1) (\<lambda>rs ps. pbind (parse_args l [] rs ps) (\<lambda>(argv, rs) ps. POk (wrap rs (EXEC argv)) ps)))"
  proof (rule pres_bind [OF parseredirs_ok [of ps1 l "[]"]])
    fix rs ps2 assume "ps1 \<le> ps2 \<and> ps2 \<le> length l \<and> (\<forall>r \<in> set rs. redir_ok l r)"
    then have r: "ps1 \<le> ps2" "ps2 \<le> length l" "\<forall>r \<in> set rs. redir_ok l r" by simp_all
    show "parsed l ps (pbind (parse_args l [] rs ps2) (\<lambda>(argv, rs) ps. POk (wrap rs (EXEC argv)) ps))"
      by (rule pres_bind [OF parse_args_ok]) (use r k in \<open>auto simp: MAXARGS_def intro!: wrap_ok\<close>)
  qed (use k in simp_all)
  moreover have "parsed l ps (parseblock n l ps1)" using block [of ps1] k by (intro parsed_mono [of ps1 l _ ps]) simp_all
  ultimately show ?thesis using p by simp
qed

lemma parseblock_step:
  assumes ps: "ps \<le> length l"
    and line: "\<And>ps'. ps < ps' \<Longrightarrow> ps' \<le> length l \<Longrightarrow> parsed l ps' (parseline n l ps')"
  shows "parsed l ps (parseblock (Suc n) l ps)"
proof -
  obtain ps1 t where p: "peek l ps ''('' = (ps1, t)" by fastforce
  obtain tok q eq ps2 where g: "gettoken l ps1 = (tok, q, eq, ps2)" by (metis prod_cases4)
  show ?thesis
  proof (cases t)
    case True
    then have m: "ps \<le> ps1" "ps1 < ps2" "ps2 \<le> length l" using peek_token_if [OF p _ g] by simp_all
    then have l: "parsed l ps2 (parseline n l ps2)" by (intro line) simp_all
    have "parsed l ps (pbind (parseline n l ps2) (\<lambda>c ps. case peek l ps '')'' of (ps, b) \<Rightarrow>
        if \<not> b then PPanic ''syntax - missing )''
        else case gettoken l ps of (_, _, _, ps) \<Rightarrow> pbind (parseredirs l [] ps) (\<lambda>rs ps. POk (wrap rs c) ps)))"
    proof (rule pres_bind [OF l], elim conjE)
      fix c ps3 assume c: "ps2 \<le> ps3" "ps3 \<le> length l" "cmd_ok l c"
      obtain ps4 t' where p': "peek l ps3 '')'' = (ps4, t')" by fastforce
      obtain tok' q' eq' ps5 where g': "gettoken l ps4 = (tok', q', eq', ps5)" by (metis prod_cases4)
      show "parsed l ps (case peek l ps3 '')'' of (ps, b) \<Rightarrow> if \<not> b then PPanic ''syntax - missing )''
          else case gettoken l ps of (_, _, _, ps) \<Rightarrow> pbind (parseredirs l [] ps) (\<lambda>rs ps. POk (wrap rs c) ps))"
      proof (cases t')
        case True
        then have m': "ps3 \<le> ps4" "ps4 < ps5" "ps5 \<le> length l" using peek_token_if [OF p' _ g'] by simp_all
        have "parsed l ps (pbind (parseredirs l [] ps5) (\<lambda>rs ps. POk (wrap rs c) ps))"
          by (rule pres_bind [OF parseredirs_ok]) (use m m' c in \<open>auto intro: wrap_ok\<close>)
        then show ?thesis using True p' g' by simp
      qed (use p' in simp)
    qed
    then show ?thesis using True p g by simp
  qed (use p in simp)
qed

lemma parser_ok:
  "(\<forall>ps. ps \<le> length l \<longrightarrow> 4 * (length l - ps) + 4 \<le> n \<longrightarrow> parsed l ps (parseline n l ps)) \<and>
   (\<forall>ps. ps \<le> length l \<longrightarrow> 4 * (length l - ps) + 3 \<le> n \<longrightarrow> parsed l ps (parsepipe n l ps)) \<and>
   (\<forall>ps. ps \<le> length l \<longrightarrow> 4 * (length l - ps) + 2 \<le> n \<longrightarrow> parsed l ps (parseexec n l ps)) \<and>
   (\<forall>ps. ps \<le> length l \<longrightarrow> 4 * (length l - ps) + 1 \<le> n \<longrightarrow> parsed l ps (parseblock n l ps))"
proof (induction n)
  case (Suc n)
  then have
    line: "\<And>ps. ps \<le> length l \<Longrightarrow> 4 * (length l - ps) + 4 \<le> n \<Longrightarrow> parsed l ps (parseline n l ps)" and
    pipe: "\<And>ps. ps \<le> length l \<Longrightarrow> 4 * (length l - ps) + 3 \<le> n \<Longrightarrow> parsed l ps (parsepipe n l ps)" and
    exec: "\<And>ps. ps \<le> length l \<Longrightarrow> 4 * (length l - ps) + 2 \<le> n \<Longrightarrow> parsed l ps (parseexec n l ps)" and
    block: "\<And>ps. ps \<le> length l \<Longrightarrow> 4 * (length l - ps) + 1 \<le> n \<Longrightarrow> parsed l ps (parseblock n l ps)" by blast+
  show ?case
    by (intro conjI allI impI parseline_step parsepipe_step parseexec_step parseblock_step line pipe exec block; linarith)
qed simp

section \<open>Running a command\<close>

text \<open>
  What a process of the shell does, as the tree of its system calls: \<open>ExecOr\<close>, \<open>OpenOr\<close>, \<open>PipeOr\<close> and \<open>Fork\<close> have a
  branch for the failure of the call (\<open>exec\<close> returns only then). \<open>DupEnd\<close> and \<open>CloseEnd\<close> are on the ends of the pipe made
  last by the process: \<open>p[1]\<close> for \<open>True\<close>, \<open>p[0]\<close> for \<open>False\<close>.
\<close>

datatype prog =
    Exit
  | ExecOr "uchar list" "uchar list list" prog
  | Write nat "uchar list" prog
  | Close nat prog
  | OpenOr "uchar list" uint prog prog
  | PipeOr prog prog
  | DupEnd bool prog
  | CloseEnd bool prog
  | Fork prog prog prog
  | Wait prog

definition sh_panic :: "string \<Rightarrow> prog" where
  "sh_panic s = Write 2 (str_bytes s @ [newline]) Exit"

definition fork1 :: "prog \<Rightarrow> prog \<Rightarrow> prog" where
  "fork1 child parent = Fork child parent (sh_panic ''fork'')"

text \<open>The string at a pointer into the buffer.\<close>

definition cstr_at :: "uchar list \<Rightarrow> nat \<Rightarrow> uchar list" where
  "cstr_at b q = takeWhile (\<lambda>c. c \<noteq> 0) (drop q b)"

fun runcmd :: "uchar list \<Rightarrow> cmd \<Rightarrow> prog" where
  "runcmd b (EXEC argv) =
     (case argv of
        [] \<Rightarrow> Exit
      | w # _ \<Rightarrow>
          ExecOr (cstr_at b (fst w)) (map (\<lambda>w. cstr_at b (fst w)) argv)
            (Write 2 (str_bytes ''exec '' @ cstr_at b (fst w) @ str_bytes '' failed'' @ [newline]) Exit))"
| "runcmd b (REDIR c q eq mode fd) =
     Close (nat fd)
       (OpenOr (cstr_at b q) mode (runcmd b c)
          (Write 2 (str_bytes ''open '' @ cstr_at b q @ str_bytes '' failed'' @ [newline]) Exit))"
| "runcmd b (LIST c d) = fork1 (runcmd b c) (Wait (runcmd b d))"
| "runcmd b (PIPE c d) =
     PipeOr
       (fork1 (Close 1 (DupEnd True (CloseEnd False (CloseEnd True (runcmd b c)))))
       (fork1 (Close 0 (DupEnd False (CloseEnd False (CloseEnd True (runcmd b d)))))
       (CloseEnd False (CloseEnd True (Wait (Wait Exit))))))
       (sh_panic ''pipe'')"
| "runcmd b (BACK c) = fork1 (runcmd b c) Exit"

text \<open>
  \<open>main\<close> reads lines of at most 99 bytes with \<open>getcmd\<close>; a line \<open>cd ...\<close> loses its last byte and is a \<open>chdir\<close> of the
  shell itself, any other is parsed and run by a child.
\<close>

datatype shell_act = Chdir "uchar list" | Child "(cmd \<times> uchar list) presult"

definition shell_line :: "uchar list \<Rightarrow> shell_act" where
  "shell_line buf = (if take 3 buf = str_bytes ''cd '' then Chdir (drop 3 (butlast buf)) else Child (parsecmd buf))"

lemma gets_shorter: "(line, rest) = gets n input \<Longrightarrow> takeWhile P line \<noteq> [] \<Longrightarrow> length rest < length input"
  using gets_loop_stream [of "nat (n - 1)" input line rest] by (cases line) (auto simp: gets_def)

function shell_main :: "uchar list \<Rightarrow> shell_act list" where
  "shell_main input =
     (case gets 100 input of (line, rest) \<Rightarrow>
        let buf = takeWhile (\<lambda>c. c \<noteq> 0) line in
        if buf = [] then [] else shell_line buf # shell_main rest)"
  by pat_completeness auto

termination
  by (relation "measure length") (auto intro: gets_shorter)

section \<open>The descriptors of the programs that are run\<close>

text \<open>What a descriptor is open on; a pipe is known by its number.\<close>

datatype opened = Inherited nat | Named "uchar list" uint | ReadEnd nat | WriteEnd nat

type_synonym fds = "nat \<Rightarrow> opened option"

text \<open>The lowest free descriptor, as \<open>fdalloc\<close> of the kernel gives it; there is always one here.\<close>

definition lowest :: "fds \<Rightarrow> nat" where
  "lowest f = (case first_slot NOFILE (\<lambda>i. f i = None) of None \<Rightarrow> NOFILE | Some i \<Rightarrow> i)"

text \<open>
  The programs that are executed when every call succeeds, with their descriptors; \<open>n\<close> counts the pipes made, \<open>r\<close> and \<open>w\<close>
  are the ends of the last one.
\<close>

fun leaves :: "prog \<Rightarrow> nat \<Rightarrow> fds \<Rightarrow> nat \<Rightarrow> nat \<Rightarrow> nat \<times> (uchar list list \<times> fds) list" where
  "leaves Exit n f r w = (n, [])"
| "leaves (ExecOr path argv p) n f r w = (n, [(argv, f)])"
| "leaves (Write fd x p) n f r w = leaves p n f r w"
| "leaves (Close fd p) n f r w = leaves p n (f(fd := None)) r w"
| "leaves (OpenOr name mode p q) n f r w = leaves p n (f(lowest f := Some (Named name mode))) r w"
| "leaves (PipeOr p q) n f r w =
     (let r = lowest f; f1 = f(r := Some (ReadEnd n)); w = lowest f1
      in leaves p (n + 1) (f1(w := Some (WriteEnd n))) r w)"
| "leaves (DupEnd e p) n f r w = leaves p n (f(lowest f := f (if e then w else r))) r w"
| "leaves (CloseEnd e p) n f r w = leaves p n (f((if e then w else r) := None)) r w"
| "leaves (Fork child parent p) n f r w =
     (case leaves child n f r w of (n, xs) \<Rightarrow> case leaves parent n f r w of (n, ys) \<Rightarrow> (n, xs @ ys))"
| "leaves (Wait p) n f r w = leaves p n f r w"

definition std_fds :: "fds \<Rightarrow> bool" where
  "std_fds f \<longleftrightarrow> (\<forall>i. f i \<noteq> None \<longleftrightarrow> i < 3)"

fun std_redirs :: "cmd \<Rightarrow> bool" where
  "std_redirs (EXEC argv) \<longleftrightarrow> True"
| "std_redirs (REDIR c q eq mode fd) \<longleftrightarrow> fd \<in> {0, 1} \<and> std_redirs c"
| "std_redirs (PIPE c d) \<longleftrightarrow> std_redirs c \<and> std_redirs d"
| "std_redirs (LIST c d) \<longleftrightarrow> std_redirs c \<and> std_redirs d"
| "std_redirs (BACK c) \<longleftrightarrow> std_redirs c"

lemma lowest_eq: "i < NOFILE \<Longrightarrow> f i = None \<Longrightarrow> (\<And>j. j < i \<Longrightarrow> f j \<noteq> None) \<Longrightarrow> lowest f = i"
proof -
  assume "i < NOFILE" "f i = None" "\<And>j. j < i \<Longrightarrow> f j \<noteq> None"
  then have "first_slot NOFILE (\<lambda>i. f i = None) = Some i" by (simp add: first_slot_Some)
  then show ?thesis by (simp add: lowest_def)
qed

lemma std_fds_D: "std_fds f \<Longrightarrow> \<not> i < 3 \<Longrightarrow> f i = None" "std_fds f \<Longrightarrow> i < 3 \<Longrightarrow> \<exists>y. f i = Some y"
  unfolding std_fds_def by blast+

lemma lowest_std:
  assumes "std_fds f"
  shows "lowest (f(0 := None)) = 0" "lowest (f(1 := None)) = 1" "lowest f = 3" "lowest (f(3 := Some x)) = 4"
    "lowest (f(3 := Some x, 4 := Some y, 0 := None)) = 0" "lowest (f(3 := Some x, 4 := Some y, 1 := None)) = 1"
proof -
  have f: "f 3 = None" "f 4 = None" "\<And>j. j < 3 \<Longrightarrow> \<exists>y. f j = Some y"
    using assms by (simp_all add: std_fds_D)
  show "lowest (f(0 := None)) = 0" "lowest (f(1 := None)) = 1" "lowest f = 3" "lowest (f(3 := Some x)) = 4"
    "lowest (f(3 := Some x, 4 := Some y, 0 := None)) = 0" "lowest (f(3 := Some x, 4 := Some y, 1 := None)) = 1"
    using f by (auto intro!: lowest_eq simp: NOFILE_def)
qed

lemma std_fds_upd: "std_fds f \<Longrightarrow> i < 3 \<Longrightarrow> std_fds (f(i := Some x))"
  by (auto simp: std_fds_def)

lemma leaves_std:
  assumes "std_redirs c" "std_fds f"
  shows "\<forall>x \<in> set (snd (leaves (runcmd b c) n f r w)). std_fds (snd x)"
  using assms
proof (induction c arbitrary: n f r w)
  case (EXEC argv)
  then show ?case by (auto split: list.split)
next
  case (REDIR c q eq mode fd)
  let ?g = "f(nat fd := Some (Named (cstr_at b q) mode))"
  have k: "nat fd = 0 \<or> nat fd = 1" using REDIR.prems by auto
  then have "lowest (f(nat fd := None)) = nat fd" using lowest_std [OF REDIR.prems(2)] by auto
  then have "leaves (runcmd b (REDIR c q eq mode fd)) n f r w = leaves (runcmd b c) n ?g r w" by simp
  moreover have s: "std_fds ?g" using k REDIR.prems by (intro std_fds_upd) auto
  have "\<forall>x \<in> set (snd (leaves (runcmd b c) n ?g r w)). std_fds (snd x)"
    by (rule REDIR.IH [OF _ s]) (use REDIR.prems in simp)
  ultimately show ?case by (simp only:)
next
  case (PIPE c d)
  let ?f = "f(3 := Some (ReadEnd n), 4 := Some (WriteEnd n))"
  let ?c = "f(1 := Some (WriteEnd n))"
  let ?d = "f(0 := Some (ReadEnd n))"
  have f: "f 3 = None" "f 4 = None" using PIPE.prems by (simp_all add: std_fds_D)
  have l: "?f(1 := None, 1 := ?f 4, 3 := None, 4 := None) = ?c" "?f(0 := None, 0 := ?f 3, 3 := None, 4 := None) = ?d"
    using f by (auto simp: fun_eq_iff)
  note low = lowest_std [OF PIPE.prems(2)]
  have left: "leaves (Close 1 (DupEnd True (CloseEnd False (CloseEnd True (runcmd b c))))) m ?f 3 4 = leaves (runcmd b c) m ?c 3 4"
    for m using low l(1) by (simp del: One_nat_def)
  have right: "leaves (Close 0 (DupEnd False (CloseEnd False (CloseEnd True (runcmd b d))))) m ?f 3 4 = leaves (runcmd b d) m ?d 3 4"
    for m using low l(2) by simp
  obtain n1 xs where c: "leaves (runcmd b c) (n + 1) ?c 3 4 = (n1, xs)" by fastforce
  obtain n2 ys where d: "leaves (runcmd b d) n1 ?d 3 4 = (n2, ys)" by fastforce
  have "leaves (runcmd b (PIPE c d)) n f r w = (n2, xs @ ys)"
    unfolding runcmd.simps fork1_def leaves.simps(6,9) Let_def low left right c by (simp add: d)
  moreover have s: "std_fds ?c" "std_fds ?d" using PIPE.prems by (simp_all add: std_fds_upd)
  have "\<forall>x \<in> set (snd (leaves (runcmd b c) (n + 1) ?c 3 4)). std_fds (snd x)"
    by (rule PIPE.IH(1) [OF _ s(1)]) (use PIPE.prems in simp)
  moreover have "\<forall>x \<in> set (snd (leaves (runcmd b d) n1 ?d 3 4)). std_fds (snd x)"
    by (rule PIPE.IH(2) [OF _ s(2)]) (use PIPE.prems in simp)
  ultimately show ?case using c d by auto
next
  case (LIST c d)
  obtain n1 xs where c: "leaves (runcmd b c) n f r w = (n1, xs)" by fastforce
  obtain n2 ys where d: "leaves (runcmd b d) n1 f r w = (n2, ys)" by fastforce
  show ?case using LIST.IH(1) [OF _ LIST.prems(2), of n r w] LIST.IH(2) [OF _ LIST.prems(2), of n1 r w] LIST.prems(1) c d
    by (auto simp: fork1_def)
next
  case (BACK c)
  obtain n1 xs where c: "leaves (runcmd b c) n f r w = (n1, xs)" by fastforce
  show ?case using BACK.IH [OF _ BACK.prems(2), of n r w] BACK.prems(1) c by (auto simp: fork1_def)
qed

section \<open>Properties\<close>

fun cmd_words :: "cmd \<Rightarrow> (nat \<times> nat) list" where
  "cmd_words (EXEC argv) = argv"
| "cmd_words (REDIR c q eq mode fd) = cmd_words c @ [(q, eq)]"
| "cmd_words (PIPE c d) = cmd_words c @ cmd_words d"
| "cmd_words (LIST c d) = cmd_words c @ cmd_words d"
| "cmd_words (BACK c) = cmd_words c"

lemma cmd_ok_words: "cmd_ok l c \<Longrightarrow> w \<in> set (cmd_words c) \<Longrightarrow> word_ok l w"
  by (induction c) auto

lemma nulterminate_fold: "nulterminate c b = foldl (\<lambda>b (q, eq). b[eq := 0]) b (cmd_words c)"
  by (induction c arbitrary: b) simp_all

lemma nul_fold_nth:
  "length (foldl (\<lambda>b (q, eq). b[eq := 0]) b ws) = length b \<and>
   (k < length b \<longrightarrow> foldl (\<lambda>b (q, eq). b[eq := 0]) b ws ! k = (if k \<in> snd ` set ws then 0 else b ! k))"
  by (induction ws arbitrary: b) (auto simp: nth_list_update image_iff split: prod.splits)

text \<open>A NUL behind a word never falls into another word: the byte there is no word character.\<close>

lemma nulterminate_word:
  assumes ok: "cmd_ok l c" and w: "(q, eq) \<in> set (cmd_words c)" and z: "0 \<notin> set l"
  shows "cstr_at (nulterminate c (l @ [0])) q = take (eq - q) (drop q l)"
proof -
  let ?b = "nulterminate c (l @ [0])"
  have len: "length ?b = length l + 1" and nth: "\<And>k. k \<le> length l \<Longrightarrow>
      ?b ! k = (if k \<in> snd ` set (cmd_words c) then 0 else (l @ [0]) ! k)"
    using nul_fold_nth [of "l @ [0]" "cmd_words c"] by (simp_all add: nulterminate_fold)
  have good: "word_ok l (q, eq)" using cmd_ok_words [OF ok w] .
  then have e: "q < eq" "eq \<le> length l" by (simp_all add: word_ok_def)
  have in_word: "?b ! k = l ! k" if "q \<le> k" "k < eq" for k
  proof -
    have wc: "word_char (l ! k)" using good that by (simp add: word_ok_def)
    have "k \<noteq> eq'" if "(q', eq') \<in> set (cmd_words c)" for q' eq'
    proof -
      have "eq' < length l \<longrightarrow> \<not> word_char (l ! eq')" using cmd_ok_words [OF ok that] by (simp add: word_ok_def)
      then show ?thesis using wc \<open>k < eq\<close> e(2) by auto
    qed
    then have "k \<notin> snd ` set (cmd_words c)" by fastforce
    then show ?thesis using nth [of k] that e(2) by (simp add: nth_append)
  qed
  have at_end: "?b ! eq = 0" using nth [of eq] w e(2) by force
  have "takeWhile (\<lambda>c. c \<noteq> 0) (drop q ?b) = take (eq - q) (drop q ?b)"
  proof (rule takeWhile_eq_take_P_nth)
    fix i assume "i < eq - q" "i < length (drop q ?b)"
    then have "drop q ?b ! i = l ! (q + i)" using in_word [of "q + i"] len e by simp
    moreover have "l ! (q + i) \<in> set l" using \<open>i < eq - q\<close> e(2) by (intro nth_mem) simp
    ultimately show "drop q ?b ! i \<noteq> 0" using z by metis
  next
    assume "eq - q < length (drop q ?b)"
    then show "\<not> drop q ?b ! (eq - q) \<noteq> 0" using at_end e by simp
  qed
  also have "\<dots> = take (eq - q) (drop q l)"
    by (rule nth_equalityI) (use len e in_word in auto)
  finally show ?thesis by (simp add: cstr_at_def)
qed

lemma parseline_ok: "parsed l 0 (parseline (parse_fuel l) l 0)"
  by (rule parser_ok [THEN conjunct1, rule_format]) (simp_all add: parse_fuel_def)

lemma parsecmd_ok: "parsecmd l = POk (c, b) ps \<Longrightarrow> cmd_ok l c \<and> b = nulterminate c (l @ [0])"
proof -
  assume p: "parsecmd l = POk (c, b) ps"
  show ?thesis using p parseline_ok [of l]
    by (cases "parseline (parse_fuel l) l 0") (auto simp: parsecmd_def split: prod.splits if_splits)
qed

text \<open>
  C18. The parser terminates on every command line: its mutual recursion never goes deeper than four calls for each
  character and four more, so \<open>parsecmd\<close> ends with a command or in one of the panics of the code.
\<close>

theorem parsecmd_terminates:
  "(\<exists>c b ps. parsecmd l = POk (c, b) ps) \<or>
   (\<exists>msg. parsecmd l = PPanic msg)"
  using parseline_ok [of l]
  by (cases "parseline (parse_fuel l) l 0") (auto simp: parsecmd_def split: prod.splits)

text \<open>
  C19. What \<open>parsecmd\<close> returns can be run: a command has at most \<open>MAXARGS - 1\<close> words, so that the null pointer behind them is inside
  \<open>argv\<close>; every argument and file name is a maximal run of word characters of the line; and after the NUL bytes are
  put behind all of them, each is still, as a C string in the one buffer, exactly the text it was in the line.
\<close>

theorem parsecmd_words:
  assumes "0 \<notin> set l" "parsecmd l = POk (c, b) ps"
  shows "cmd_ok l c \<and> (\<forall>(q, eq) \<in> set (cmd_words c). cstr_at b q = take (eq - q) (drop q l))"
proof -
  have "cmd_ok l c" "b = nulterminate c (l @ [0])" using parsecmd_ok [OF assms(2)] by simp_all
  then show ?thesis using nulterminate_word [of l c _ _] assms(1) by auto
qed

text \<open>The line \<open>a<b\<close>.\<close>

lemma demo_line: "parsecmd [0x61, 0x3C, 0x62] = POk (REDIR (EXEC [(0, 1)]) 2 3 0 0, [0x61, 0, 0x62, 0]) 3"
  by code_simp

theorem parsecmd_words_witness:
  "parsecmd [0x61, 0x3C, 0x62] = POk (REDIR (EXEC [(0, 1)]) 2 3 0 0, [0x61, 0, 0x62, 0]) 3 \<and>
   cstr_at [0x61, 0, 0x62, 0] 0 = [0x61]"
  using parsecmd_words [OF _ demo_line] demo_line by simp

lemma cmd_ok_redirs: "cmd_ok l c \<Longrightarrow> std_redirs c"
  by (induction c) auto

text \<open>
  C20. A program the shell starts has the descriptors 0, 1 and 2 open and no others: \<open>runcmd\<close> on a command the parser returns,
  however it is built from pipes, lists, background commands, blocks and redirections, leaves no end of a pipe open in a
  process that executes a program, so that a reader sees the end of its input when the writer is done.
\<close>

theorem runcmd_descriptors:
  assumes "parsecmd l = POk (c, b) ps" "std_fds f"
  shows "\<forall>x \<in> set (snd (leaves (runcmd b c) n f r w)). std_fds (snd x)"
  by (rule leaves_std [OF cmd_ok_redirs assms(2)]) (use parsecmd_ok [OF assms(1)] in blast)

definition tty_fds :: fds where
  "tty_fds i = (if i < 3 then Some (Inherited i) else None)"

text \<open>The line \<open>a|b\<close>.\<close>

lemma demo_pipe: "parsecmd [0x61, 0x7C, 0x62] = POk (PIPE (EXEC [(0, 1)]) (EXEC [(2, 3)]), [0x61, 0, 0x62, 0]) 3"
  by code_simp

theorem runcmd_descriptors_witness:
  "\<exists>g h. snd (leaves (runcmd [0x61, 0, 0x62, 0] (PIPE (EXEC [(0, 1)]) (EXEC [(2, 3)]))) 0 tty_fds 0 0) =
     [([[0x61]], g), ([[0x62]], h)] \<and> std_fds g \<and> std_fds h"
proof -
  let ?p = "runcmd [0x61, 0, 0x62, 0] (PIPE (EXEC [(0, 1)]) (EXEC [(2, 3)]))"
  have t: "std_fds tty_fds" by (simp add: std_fds_def tty_fds_def)
  obtain g h where l: "snd (leaves ?p 0 tty_fds 0 0) = [([[0x61]], g), ([[0x62]], h)]"
    by (simp add: fork1_def Let_def cstr_at_def)
  from runcmd_descriptors [OF demo_pipe t, of 0 0 0] l show ?thesis by simp
qed

end
