(* ===== verification/Grep.thy ===== *)
theory Grep
  imports Ulib
begin

text \<open>
  The user program grep (grep.c): the pattern matcher, the loop that cuts the input into lines in its buffer, and
  \<open>main\<close>. The matcher is compared with the language of the pattern, the loop with the list of the lines.
  Strings are byte lists without the NUL that ends them in memory; the buffer is a list of 1024 bytes.
\<close>

section \<open>The matcher\<close>

definition caret :: uchar where "caret = 0x5E"
definition star :: uchar where "star = 0x2A"
definition dollar :: uchar where "dollar = 0x24"
definition dot :: uchar where "dot = 0x2E"

function matchhere :: "uchar list \<Rightarrow> uchar list \<Rightarrow> bool"
  and matchstar :: "uchar \<Rightarrow> uchar list \<Rightarrow> uchar list \<Rightarrow> bool" where
  "matchhere re tx =
     (case re of
        [] \<Rightarrow> True
      | c # re1 \<Rightarrow>
          (if re1 \<noteq> [] \<and> hd re1 = star then matchstar c (tl re1) tx
           else if c = dollar \<and> re1 = [] then tx = []
           else if tx \<noteq> [] \<and> (c = dot \<or> c = hd tx) then matchhere re1 (tl tx)
           else False))"
| "matchstar c re tx =
     (if matchhere re tx then True
      else if tx \<noteq> [] \<and> (hd tx = c \<or> c = dot) then matchstar c re (tl tx)
      else False)"
  by pat_completeness auto

termination
  by (relation "measures [\<lambda>x. case x of Inl (re, tx) \<Rightarrow> length re | Inr (c, re, tx) \<Rightarrow> length re,
      \<lambda>x. case x of Inl (re, tx) \<Rightarrow> length tx | Inr (c, re, tx) \<Rightarrow> length tx,
      \<lambda>x. case x of Inl _ \<Rightarrow> 0 | Inr _ \<Rightarrow> 1]") (auto simp: neq_Nil_conv)

declare matchhere.simps [simp del] matchstar.simps [simp del]

fun match_from :: "uchar list \<Rightarrow> uchar list \<Rightarrow> bool" where
  "match_from re tx = (if matchhere re tx then True else case tx of [] \<Rightarrow> False | c # rest \<Rightarrow> match_from re rest)"

declare match_from.simps [simp del]

definition match :: "uchar list \<Rightarrow> uchar list \<Rightarrow> bool" where
  "match re tx = (if re \<noteq> [] \<and> hd re = caret then matchhere (tl re) tx else match_from re tx)"

section \<open>What a pattern denotes\<close>

text \<open>A pattern is a sequence of single characters and starred characters, and may end in the anchor \<open>$\<close>.\<close>

datatype item = One uchar | Star uchar

fun parse_re :: "uchar list \<Rightarrow> item list \<times> bool" where
  "parse_re [] = ([], False)"
| "parse_re [c] = (if c = dollar then ([], True) else ([One c], False))"
| "parse_re (c # d # re) =
     (if d = star then (case parse_re re of (is, e) \<Rightarrow> (Star c # is, e))
      else (case parse_re (d # re) of (is, e) \<Rightarrow> (One c # is, e)))"

definition accepts :: "uchar \<Rightarrow> uchar \<Rightarrow> bool" where
  "accepts c x \<longleftrightarrow> c = dot \<or> c = x"

inductive lang :: "item list \<Rightarrow> uchar list \<Rightarrow> bool" where
  empty: "lang [] []"
| one: "accepts c x \<Longrightarrow> lang is w \<Longrightarrow> lang (One c # is) (x # w)"
| star: "\<forall>x \<in> set xs. accepts c x \<Longrightarrow> lang is w \<Longrightarrow> lang (Star c # is) (xs @ w)"

inductive_simps lang_Nil: "lang [] w"
inductive_simps lang_One: "lang (One c # is) w"
inductive_simps lang_Star: "lang (Star c # is) w"

text \<open>A pattern matches at the start of a text: some prefix is in its language, and is all of it under the anchor.\<close>

definition begins :: "item list \<times> bool \<Rightarrow> uchar list \<Rightarrow> bool" where
  "begins p tx \<longleftrightarrow> (\<exists>w rest. tx = w @ rest \<and> lang (fst p) w \<and> (snd p \<longrightarrow> rest = []))"

lemma begins_Nil [simp]: "begins ([], e) tx \<longleftrightarrow> e \<longrightarrow> tx = []"
  by (auto simp: begins_def lang_Nil)

lemma begins_One [simp]:
  "begins (One c # is, e) tx \<longleftrightarrow> tx \<noteq> [] \<and> accepts c (hd tx) \<and> begins (is, e) (tl tx)"
  by (cases tx) (auto simp: begins_def lang_One Cons_eq_append_conv)

lemma begins_Star_split:
  "begins (Star c # is, e) tx \<longleftrightarrow> (\<exists>xs u. tx = xs @ u \<and> (\<forall>x \<in> set xs. accepts c x) \<and> begins (is, e) u)"
proof
  assume "begins (Star c # is, e) tx"
  then obtain w rest where w: "tx = w @ rest" "lang (Star c # is) w" "e \<longrightarrow> rest = []" by (auto simp: begins_def)
  from w(2) obtain xs v where "w = xs @ v" "\<forall>x \<in> set xs. accepts c x" "lang is v" unfolding lang_Star by blast
  with w show "\<exists>xs u. tx = xs @ u \<and> (\<forall>x \<in> set xs. accepts c x) \<and> begins (is, e) u"
    by (intro exI [of _ xs] exI [of _ "v @ rest"]) (auto simp: begins_def)
next
  assume "\<exists>xs u. tx = xs @ u \<and> (\<forall>x \<in> set xs. accepts c x) \<and> begins (is, e) u"
  then obtain xs v rest where "tx = xs @ v @ rest" "\<forall>x \<in> set xs. accepts c x" "lang is v" "e \<longrightarrow> rest = []"
    by (auto simp: begins_def)
  moreover from this have "lang (Star c # is) (xs @ v)" by (intro lang.star)
  ultimately show "begins (Star c # is, e) tx"
    unfolding begins_def fst_conv snd_conv by (intro exI [of _ "xs @ v"] exI [of _ rest]) simp
qed

lemma begins_Star:
  "begins (Star c # is, e) tx \<longleftrightarrow>
   begins (is, e) tx \<or> tx \<noteq> [] \<and> accepts c (hd tx) \<and> begins (Star c # is, e) (tl tx)"
proof
  assume "begins (Star c # is, e) tx"
  then obtain xs u where "tx = xs @ u" "\<forall>x \<in> set xs. accepts c x" "begins (is, e) u"
    unfolding begins_Star_split by blast
  then show "begins (is, e) tx \<or> tx \<noteq> [] \<and> accepts c (hd tx) \<and> begins (Star c # is, e) (tl tx)"
    unfolding begins_Star_split by (cases xs) auto
next
  assume "begins (is, e) tx \<or> tx \<noteq> [] \<and> accepts c (hd tx) \<and> begins (Star c # is, e) (tl tx)"
  then show "begins (Star c # is, e) tx"
  proof
    assume "begins (is, e) tx"
    then show ?thesis unfolding begins_Star_split by - (rule exI [of _ "[]"], simp)
  next
    assume "tx \<noteq> [] \<and> accepts c (hd tx) \<and> begins (Star c # is, e) (tl tx)"
    then obtain x t xs u where "tx = x # t" "accepts c x" "t = xs @ u" "\<forall>x \<in> set xs. accepts c x" "begins (is, e) u"
      unfolding begins_Star_split by (metis list.collapse)
    then have "tx = (x # xs) @ u" "\<forall>y \<in> set (x # xs). accepts c y" "begins (is, e) u" by auto
    then show ?thesis unfolding begins_Star_split by blast
  qed
qed

lemma matcher_correct:
  "matchhere re tx \<longleftrightarrow> begins (parse_re re) tx"
  "matchstar c re tx \<longleftrightarrow> begins (Star c # fst (parse_re re), snd (parse_re re)) tx"
proof (induction re tx and c re tx rule: matchhere_matchstar.induct)
  case (1 re tx)
  show ?case
  proof (cases re rule: parse_re.cases)
    case 1
    then show ?thesis by (simp add: matchhere.simps)
  next
    case (2 c)
    then show ?thesis using "1.IH" by (subst matchhere.simps) (auto simp: accepts_def matchhere.simps [of "[]"])
  next
    case (3 c d re')
    then show ?thesis using "1.IH"
      by (subst matchhere.simps) (auto simp: accepts_def split: prod.split)
  qed
next
  case (2 c re tx)
  then show ?case
    by (subst matchstar.simps, subst begins_Star) (auto simp: accepts_def)
qed

lemma match_from_correct: "match_from re tx \<longleftrightarrow> (\<exists>k \<le> length tx. begins (parse_re re) (drop k tx))"
proof (induction tx)
  case Nil
  then show ?case by (simp add: match_from.simps matcher_correct)
next
  case (Cons c tx)
  have "(\<exists>k \<le> length (c # tx). begins (parse_re re) (drop k (c # tx))) \<longleftrightarrow>
      begins (parse_re re) (c # tx) \<or> (\<exists>k \<le> length tx. begins (parse_re re) (drop k tx))"
    (is "?l \<longleftrightarrow> ?r")
  proof
    assume ?l
    then obtain k where "k \<le> length (c # tx)" "begins (parse_re re) (drop k (c # tx))" by blast
    then show ?r by (cases k) auto
  next
    assume ?r
    then show ?l by (auto intro: exI [of _ 0] exI [of _ "Suc k" for k])
  qed
  then show ?case using Cons by (simp add: match_from.simps matcher_correct)
qed

section \<open>The lines of the input\<close>

definition GREPBUF :: nat where "GREPBUF = 1024"

text \<open>The inner loop: the buffer, \<open>p\<close> and the output when no newline is left.\<close>

function grep_lines :: "uchar list \<Rightarrow> uchar list \<Rightarrow> nat \<Rightarrow> uchar list \<Rightarrow> (uchar list \<times> nat \<times> uchar list) option" where
  "grep_lines pattern buf p out =
     (case strchr_list newline (drop p buf) of
        None \<Rightarrow> None
      | Some None \<Rightarrow> Some (buf, p, out)
      | Some (Some k) \<Rightarrow>
          let q = p + k; buf1 = buf[q := 0] in
          if match pattern (takeWhile (\<lambda>x. x \<noteq> 0) (drop p buf1)) then
            let buf2 = buf1[q := newline] in
            grep_lines pattern buf2 (q + 1) (out @ take (q + 1 - p) (drop p buf2))
          else grep_lines pattern buf1 (q + 1) out)"
  by pat_completeness auto

termination
  by (relation "measure (\<lambda>(pattern, buf, p, out). length buf - p)") (auto dest: strchr_list_less)

declare grep_lines.simps [simp del]

text \<open>
  How \<open>grep\<close> ends: it returns, with the buffer and what it has written to descriptor 1; or it reads past the end of its buffer; or a
  \<open>read\<close> stores in front of the buffer.
\<close>

datatype grep_end = Returned "uchar list" "uchar list" | PastBuffer "uchar list" | BeforeBuffer "uchar list"

text \<open>
  \<open>memmove(buf, p, m)\<close> of ulib.c inside the buffer; a negative count moves nothing.
\<close>

definition shift_down :: "nat \<Rightarrow> int \<Rightarrow> uchar list \<Rightarrow> uchar list" where
  "shift_down p m buf = take (nat m) (drop p buf) @ drop (nat m) buf"

lemma reads_shrink:
  "take cap x \<noteq> [] \<Longrightarrow> sum_list (map length (if drop cap x = [] then rest else drop cap x # rest)) <
   sum_list (map length (x # rest))"
  by (cases cap; cases x) auto

text \<open>
  The outer loop. \<open>reads\<close> is what the file has for the successive calls of \<open>read\<close>; a call takes at most the count it is
  given, and returns 0 at the end.
\<close>

function grep_loop :: "uchar list \<Rightarrow> uchar list list \<Rightarrow> uchar list \<Rightarrow> int \<Rightarrow> uchar list \<Rightarrow> grep_end" where
  "grep_loop pattern reads buf m out =
     (case reads of
        [] \<Rightarrow> Returned buf out
      | x # rest \<Rightarrow>
          let cap = nat (int GREPBUF - m); got = take cap x; later = (if drop cap x = [] then rest else drop cap x # rest) in
          if got = [] then Returned buf out
          else if m < 0 then BeforeBuffer out
          else
            let buf1 = take (nat m) buf @ got @ drop (nat m + length got) buf; m1 = m + int (length got) in
            case grep_lines pattern buf1 0 out of
              None \<Rightarrow> PastBuffer out
            | Some (buf2, p, out1) \<Rightarrow>
                let m2 = (if p = 0 then 0 else m1) in
                if m2 > 0 then grep_loop pattern later (shift_down p (m2 - int p) buf2) (m2 - int p) out1
                else grep_loop pattern later buf2 m2 out1)"
  by pat_completeness auto

termination
  by (relation "measure (\<lambda>(pattern, reads, buf, m, out). sum_list (map length reads))")
    (simp_all only: wf_measure in_measure case_prod_conv, (rule reads_shrink, assumption)+)

declare grep_loop.simps [simp del]

definition grep :: "uchar list \<Rightarrow> uchar list list \<Rightarrow> uchar list \<Rightarrow> grep_end" where
  "grep pattern reads buf = grep_loop pattern reads buf 0 []"

text \<open>
  The loop of \<open>main\<close> over the files; \<open>fs\<close> is what \<open>open\<close> finds under a name. The buffer is static: the next file finds what
  the last one left in it. The writes are pairs of a descriptor and bytes; \<open>None\<close> is an access outside the buffer.
\<close>

fun grep_files :: "(uchar list \<Rightarrow> uchar list list option) \<Rightarrow> uchar list \<Rightarrow> uchar list list \<Rightarrow> uchar list \<Rightarrow>
    (nat \<times> uchar list) list option" where
  "grep_files fs pattern [] buf = Some []"
| "grep_files fs pattern (f # rest) buf =
     (case fs f of
        None \<Rightarrow> Some [(1, str_bytes ''grep: cannot open '' @ f @ [newline])]
      | Some reads \<Rightarrow>
          (case grep pattern reads buf of
             Returned buf1 out \<Rightarrow> map_option (Cons (1, out)) (grep_files fs pattern rest buf1)
           | PastBuffer out \<Rightarrow> None
           | BeforeBuffer out \<Rightarrow> None))"

definition no_data :: "uchar list" where "no_data = replicate GREPBUF 0"

text \<open>\<open>main\<close>; \<open>input\<close> is what descriptor 0 delivers, \<open>argv\<close> the arguments after the program name.\<close>

definition grep_main :: "(uchar list \<Rightarrow> uchar list list option) \<Rightarrow> uchar list list \<Rightarrow> uchar list list \<Rightarrow>
    (nat \<times> uchar list) list option" where
  "grep_main fs input argv =
     (case argv of
        [] \<Rightarrow> Some [(2, str_bytes ''usage: grep pattern [file ...]'' @ [newline])]
      | [pattern] \<Rightarrow>
          (case grep pattern input no_data of Returned buf out \<Rightarrow> Some [(1, out)] | PastBuffer out \<Rightarrow> None | BeforeBuffer out \<Rightarrow> None)
      | pattern # files \<Rightarrow> grep_files fs pattern files no_data)"

section \<open>Properties\<close>

lemma lines_of_shorter: "c \<in> set xs \<Longrightarrow> length (tl (dropWhile (\<lambda>x. x \<noteq> c) xs)) < length xs"
  by (induction xs) auto

text \<open>The complete lines of a text, without their newlines.\<close>

function lines_of :: "uchar list \<Rightarrow> uchar list list" where
  "lines_of xs =
     (if newline \<in> set xs then takeWhile (\<lambda>c. c \<noteq> newline) xs # lines_of (tl (dropWhile (\<lambda>c. c \<noteq> newline) xs)) else [])"
  by pat_completeness auto

termination
  by (relation "measure length") (simp_all only: wf_measure in_measure lines_of_shorter)

declare lines_of.simps [simp del]

definition selected :: "uchar list \<Rightarrow> uchar list \<Rightarrow> uchar list" where
  "selected pattern xs = concat (map (\<lambda>l. l @ [newline]) (filter (match pattern) (lines_of xs)))"

lemma lines_of_split:
  assumes "newline \<notin> set l"
  shows "lines_of (l @ newline # r) = l # lines_of r"
proof -
  have "takeWhile (\<lambda>c. c \<noteq> newline) (l @ newline # r) = l" using assms by (subst takeWhile_append2) auto
  moreover have "dropWhile (\<lambda>c. c \<noteq> newline) (l @ newline # r) = newline # r" using assms by (subst dropWhile_append2) auto
  ultimately show ?thesis by (subst lines_of.simps) simp
qed

lemma selected_split:
  "newline \<notin> set l \<Longrightarrow>
   selected pattern (l @ newline # r) = (if match pattern l then l @ [newline] else []) @ selected pattern r"
  by (simp add: selected_def lines_of_split)

lemma selected_none: "newline \<notin> set ds \<Longrightarrow> selected pattern ds = []"
  by (simp add: selected_def lines_of.simps)

text \<open>One turn of the inner loop at a line.\<close>

lemma grep_lines_turn:
  assumes "newline \<notin> set l" "0 \<notin> set l" "length pre = p"
  shows "grep_lines pattern (pre @ l @ newline # rest) p out =
    (if match pattern l then grep_lines pattern (pre @ l @ newline # rest) (p + length l + 1) (out @ l @ [newline])
     else grep_lines pattern (pre @ l @ 0 # rest) (p + length l + 1) out)"
proof -
  have n: "newline \<noteq> 0" by (simp add: newline_def)
  have k: "strchr_list newline (l @ newline # rest) = Some (Some (length l))"
    using assms(1,2) n by (induction l) auto
  have t: "takeWhile (\<lambda>x. x \<noteq> 0) (l @ 0 # rest) = l" using assms(2) by (subst takeWhile_append2) auto
  have u: "(pre @ l @ x # rest)[p + length l := y] = pre @ l @ y # rest" for x y
    using assms(3) by (simp add: list_update_append)
  show ?thesis using assms(3)
    by (subst grep_lines.simps) (simp add: k u t Let_def)
qed

text \<open>One pass of the inner loop over NUL-terminated bytes writes the lines that match, and ends without leaving the buffer.\<close>

lemma grep_lines_selects:
  assumes "0 \<notin> set ds" "length pre = p"
  shows "\<exists>buf' p'. grep_lines pattern (pre @ ds @ 0 # post) p out = Some (buf', p', out @ selected pattern ds)"
  using assms
proof (induction "length ds" arbitrary: ds pre p out rule: less_induct)
  case less
  show ?case
  proof (cases "newline \<in> set ds")
    case False
    then show ?thesis using strchr_list_NUL [OF less.prems(1), of newline post] less.prems(2)
      by (subst grep_lines.simps) (simp add: selected_none)
  next
    case True
    then obtain l r where d: "ds = l @ newline # r" "newline \<notin> set l" by (metis split_list_first)
    then have "\<exists>buf' p'. grep_lines pattern ((pre @ l @ [x]) @ r @ 0 # post) (p + length l + 1) out1 =
        Some (buf', p', out1 @ selected pattern r)" for x out1
      using less.prems by (intro less.hyps) auto
    from this [of newline "out @ l @ [newline]"] this [of 0 out] d less.prems show ?thesis
      by (simp add: grep_lines_turn selected_split)
  qed
qed

text \<open>
  C21. The matcher is correct: \<open>matchhere\<close> accepts a text exactly when a prefix of it is in the language of the pattern (all
  of it if the pattern ends in \<open>$\<close>), and \<open>match\<close> when that holds at some position, or at the first for a pattern that
  starts with \<open>^\<close>. The language is the usual one: \<open>.\<close> is any character, \<open>c*\<close> any number of \<open>c\<close>, and the search
  for the length of a starred run loses no match.
\<close>

theorem match_is_language:
  "match re tx \<longleftrightarrow>
   (if re \<noteq> [] \<and> hd re = caret then begins (parse_re (tl re)) tx
    else (\<exists>k \<le> length tx. begins (parse_re re) (drop k tx)))"
  by (simp add: match_def matcher_correct match_from_correct)

text \<open>
  C22. \<open>grep\<close> on an input that one \<open>read\<close> delivers, of at most 1023 bytes without NUL, returns, stays in its buffer, and
  writes exactly the complete lines that match, in order and each with its newline.
\<close>

theorem grep_selects_lines:
  assumes "0 \<notin> set ds" "length ds < GREPBUF"
  shows "\<exists>buf. grep pattern [ds] no_data = Returned buf (selected pattern ds)"
proof (cases "ds = []")
  case True
  then show ?thesis by (simp add: grep_def grep_loop.simps no_data_def selected_none)
next
  case False
  have r: "replicate (GREPBUF - length ds) 0 = (0 :: uchar) # replicate (GREPBUF - length ds - 1) 0"
    using assms(2) by (cases "GREPBUF - length ds") simp_all
  obtain buf' p' where "grep_lines pattern ([] @ ds @ 0 # replicate (GREPBUF - length ds - 1) 0) 0 [] =
      Some (buf', p', [] @ selected pattern ds)"
    using grep_lines_selects [OF assms(1), of "[]" 0 pattern "replicate (GREPBUF - length ds - 1) 0" "[]"] by auto
  then have g: "grep_lines pattern (ds @ replicate (GREPBUF - length ds) 0) 0 [] = Some (buf', p', selected pattern ds)"
    by (simp only: r append_Nil)
  have e: "grep_loop pattern [] b m out = Returned b out" for b m out by (simp add: grep_loop.simps)
  show ?thesis unfolding grep_def no_data_def
    using False assms(2) g by (subst grep_loop.simps) (simp add: Let_def e)
qed

text \<open>The pattern \<open>a$\<close> on the lines \<open>ba\<close>, \<open>b\<close> and an unfinished line.\<close>

theorem grep_selects_lines_witness:
  "\<exists>buf. grep [0x61, dollar] [[0x62, 0x61, newline, 0x62, newline, 0x61]] no_data = Returned buf [0x62, 0x61, newline]"
proof -
  have n: "newline \<notin> set [0x62, 0x61]" "newline \<notin> set [0x62]" "newline \<notin> set [0x61]" by (simp_all add: newline_def)
  have m: "match [0x61, dollar] [0x62, 0x61]" "\<not> match [0x61, dollar] [0x62]"
    by (simp_all add: match_def caret_def match_from.simps matchhere.simps star_def dollar_def dot_def)
  have "selected [0x61, dollar] ([0x62, 0x61] @ newline # [0x62] @ newline # [0x61]) = [0x62, 0x61, newline]"
    unfolding selected_split [OF n(1)] selected_split [OF n(2)] selected_none [OF n(3)] by (simp add: m)
  then show ?thesis
    using grep_selects_lines [of "[0x62, 0x61, newline, 0x62, newline, 0x61]" "[0x61, dollar]"]
    by (simp add: newline_def GREPBUF_def)
qed


text \<open>
  C40. \<open>grep\<close> does not terminate the bytes it has read, and takes a newline left from an earlier read for the end of the
  present line: after a line that matched, a read that delivers the start of the next line, shorter than the last,
  makes it write that start as a line, count more bytes as consumed than it has, and let the next read store in front
  of its buffer.
\<close>

theorem grep_stale_newline:
  assumes "match pattern [x]" "match pattern [y]" "x \<notin> {0, newline}" "y \<notin> {0, newline}"
  shows "grep pattern [[x, newline], [y], [z]] no_data = BeforeBuffer [x, newline, y, newline]"
proof -
  let ?z = "replicate 1021 (0 :: uchar)"
  have b: "replicate GREPBUF 0 = 0 # 0 # 0 # ?z"
    unfolding GREPBUF_def by (simp flip: replicate_Suc add: numeral_eq_Suc)
  have stop: "grep_lines pattern (c # newline # 0 # ?z) 2 out = Some (c # newline # 0 # ?z, 2, out)" for c out
    by (subst grep_lines.simps) (simp add: numeral_2_eq_2)
  have one: "grep_lines pattern (c # newline # 0 # ?z) 0 out = Some (c # newline # 0 # ?z, 2, out @ [c, newline])"
    if "match pattern [c]" "c \<notin> {0, newline}" for c out
    using grep_lines_turn [of "[c]" "[]" 0 pattern "0 # ?z" out] that stop [of c "out @ [c, newline]"] by (auto simp: numeral_2_eq_2)
  have "grep_loop pattern [[z]] (y # newline # 0 # ?z) (- 1) [x, newline, y, newline] = BeforeBuffer [x, newline, y, newline]"
    by (subst grep_loop.simps) (simp add: Let_def GREPBUF_def)
  then have "grep_loop pattern [[y], [z]] (x # newline # 0 # ?z) 0 [x, newline] = BeforeBuffer [x, newline, y, newline]"
    using assms by (subst grep_loop.simps) (simp add: Let_def GREPBUF_def one shift_down_def)
  then show ?thesis unfolding grep_def no_data_def
    using assms by (subst grep_loop.simps) (simp add: Let_def b one shift_down_def, simp add: GREPBUF_def numeral_2_eq_2)
qed

theorem grep_stale_newline_witness:
  "grep [0x61] [[0x61, newline], [0x61], [0x62]] no_data = BeforeBuffer [0x61, newline, 0x61, newline]"
proof -
  have "match [0x61] [0x61]"
    by (simp add: match_def caret_def match_from.simps matchhere.simps star_def dollar_def dot_def)
  then show ?thesis using grep_stale_newline [of "[0x61]" "0x61" "0x61" "0x62"] by (simp add: newline_def)
qed

end
