(* ===== verification/Spec2Isabelle.thy ===== *)
theory Spec2Isabelle
  imports Trap Fs_Types Refs Shrink Ide Spinlock Shell Grep
begin

text \<open>
  Verification of nunix, a variant of the teaching system xv6 for the x86 in C: its kernel, its user library and the
  user programs with an algorithm of their own.

  \<^bold>\<open>The program and its state.\<close> The kernel is a set of components that call each other downwards:
  traps and system calls, processes, open files and pipes, directories, inodes, the write-ahead log, the
  buffer cache, the disk driver; and, beside them, virtual memory, the page allocator, the console and the
  keyboard. Every component has a theory. The global variables of a component are a record that extends
  the record of the components below it: \<open>mstate\<close> (memory, free list, page table register), \<open>pstate\<close>
  (process table), \<open>bstate\<close> (disk and buffers), \<open>lstate\<close> (log), \<open>istate\<close> (inode cache), \<open>fstate\<close> (file
  table, pipes), \<open>cstate\<close> (console, ticks). A C function is an operation on the state with an outcome: it
  returns a value (\<open>Done\<close>), panics, gives up the processor (\<open>Sleep\<close>), does not end (\<open>Diverge\<close>) or does what
  C leaves undefined (\<open>Fault\<close>), such as an access outside the log header or the addresses of an inode. Machine integers are
  words of their width and wrap around, except for the counters of the log and the reference counts of inodes and files, which are
  integers. Tables are
  functions of an index; a null pointer into a table is \<open>None\<close>; addresses of pages are words.

  \<^bold>\<open>Theories, sources and results.\<close>

  \<^item> \<open>Prelude\<close>, \<open>Bytes\<close>, \<open>Dll\<close>, \<open>Fifo\<close>: outcomes and their combinators, table scans, byte encodings,
    doubly linked lists in a store, ring buffers with wrapping counters and the locale \<open>bounded_fifo\<close>.
  \<^item> \<open>Memory\<close> (string.c): the string functions on byte-addressed memory; overlapping \<open>memmove\<close>, the
    fast path of \<open>memset\<close>, the bounds of the copying functions, the order of the comparing ones.
  \<^item> \<open>Mmu\<close>, \<open>Kalloc\<close>, \<open>Vm\<close> (mmu.h, memlayout.h, kalloc.c, vm.c): pages, the free list kept in the free
    pages, which refines a stack (locale \<open>page_allocator\<close>), and page tables in memory.
  \<^item> \<open>Paging\<close>, \<open>User_Memory\<close>: what the page tables of vm.c mean. \<open>pte_of\<close> is the entry the processor finds for an address;
    \<open>pgdir_ok\<close> says that directory, tables and free pages are different pages, \<open>fresh_pages\<close> what a run of newly mapped
    pages is. \<open>setupkvm\<close> builds the kernel's mappings, \<open>allocuvm\<close> adds cleared pages of the process's own, \<open>copyuvm\<close> a copy of
    a process that shares no byte with it.
  \<^item> \<open>Shrink\<close>: giving memory back. \<open>freed_pages\<close> is what \<open>deallocuvm\<close> does to the pages of a process: their entries are
    cleared and their frames are free; \<open>growproc\<close> does not report it.
  \<^item> \<open>Ptable\<close>, \<open>Process\<close> (proc.h, proc.c): the process table, sleep and wakeup, process creation, exit,
    wait, kill and the scheduler; exit passes on the children and wakes who waits, no wakeup is lost between
    exit and wait, the scheduler starves no process.
  \<^item> \<open>Disk\<close>, \<open>Bio\<close>, \<open>Sector_Cache\<close>, \<open>Fslog\<close> (memide.c, bio.c, log.c): the disk with the sequence of its
    sector writes, the buffer cache as a least-recently-used cache of sectors (locale \<open>sector_cache\<close>), and
    the log; transactions are atomic under a power failure at any sector write, and so is recovery.
  \<^item> \<open>Ide\<close> (ide.c): the driver of the IDE disk, which the kernel has in place of memide.c unless it is built with the
    memory disk. What the disk answers are parameters; the port writes are decoded by \<open>ata\<close> into commands. \<open>ide_run\<close> interleaves
    requests and interrupts; requests are served in order, each command is what its request asked for, and every wait ends.
  \<^item> \<open>Inode\<close>, \<open>Dir\<close> (fs.c, fs.h, stat.h): block and inode allocation, the inode cache, file contents,
    directories and paths; how paths are split and names compared.
  \<^item> \<open>Contents\<close>: what reading a file delivers. \<open>file_data\<close> are the blocks of a file through its direct and indirect
    addresses; \<open>bmap\<close> finds each block and \<open>readi\<close> returns exactly the range asked for, cut at the end of the file.
  \<^item> \<open>Keeps\<close>, \<open>Fs_Types\<close>: invariants of operations. \<open>kinv I f\<close> says that \<open>f\<close> leaves \<open>I\<close> where it returns or sleeps, with
    a rule for each combinator; what the buffer cache, the log and the operations on a locked inode leave alone; no two
    entries of the inode cache are for one inode. \<open>ksafe I f\<close> says that \<open>f\<close> moreover does not fault: no operation of the file
    system leaves the bounds of the log header, of the addresses of an inode or of a block.
  \<^item> \<open>Refs\<close>: the reference counts of open files. \<open>kspec P f Q S\<close> specifies an operation by what holds when it
    returns and when it sleeps; \<open>held_by\<close> counts the references an operation is ahead of the descriptors. The system calls
    that make and remove descriptors, \<open>fork\<close> and the loop of \<open>exit\<close> leave every count equal to the number of descriptors.
  \<^item> \<open>File\<close> (file.c, pipe.c): the file table and pipes; a pipe is a bounded first-in first-out byte stream,
    and \<open>pipewrite\<close> and \<open>piperead\<close> are given in every case.
  \<^item> \<open>Kbd\<close>, \<open>Console\<close> (kbd.c, kbd.h, console.c): scan codes, formatted output, the screen, the input buffer;
    numbers print as they are, the cursor stays on the screen, the input buffer refines a line editor.
  \<^item> \<open>Syscall\<close>, \<open>Exec\<close>, \<open>Sysfile\<close>, \<open>Trap\<close> (syscall.c, exec.c, sysfile.c, sysproc.c, trap.c): access to user
    memory through the page table, system call arguments, program loading, every system call, the
    dispatcher and the trap handler; arguments are fetched from inside the calling process.
  \<^item> \<open>Spinlock\<close> (spinlock.c): \<open>acquire\<close> and \<open>release\<close> as sequences of memory accesses, interleaved between
    processors by the step relation \<open>lstep\<close>; mutual exclusion, the panics, and the nesting of \<open>pushcli\<close>.
  \<^item> \<open>Ulib\<close> (ulib.c, printf.c): the user library; \<open>atoi\<close> reads what \<open>printf\<close> writes.
  \<^item> \<open>Shell\<close> (sh.c): the parser terminates and cuts the line into the right words; the programs it starts have the
    right descriptors.
  \<^item> \<open>Grep\<close> (grep.c): the matcher decides the language of the pattern; which lines are printed, and how a buffer
    without a terminating NUL goes wrong.

  \<^bold>\<open>Loops and fuel.\<close> A loop over a table is \<open>kfor\<close>; a loop that shrinks its argument is a recursive function
  with a termination proof. The loops over the pages of an address range and over the entries of a directory
  take a count of iterations computed from their bounds, one more than the number of pages or entries, and
  end in \<open>Diverge\<close> if it were exceeded. The scans of the buffer list take one step per buffer and one for
  the head. The mutually recursive functions of the shell's parser take fuel, four for each character and four more, which
  is proved to be enough for every line.

  \<^bold>\<open>Concurrency.\<close> Each kernel operation is one step between the acquire and the release of the lock that brackets
  it in the source; \<open>Spinlock\<close> shows that the locks make it so. An operation that sleeps ends there; it is resumed by the caller repeating the test
  that the source repeats. \<open>consoleread\<close> that sleeps after some characters is resumed for the rest; the ones already taken are not
  kept. \<open>commit\<close> is part of the step of \<open>end_op\<close>, which keeps every other operation out of the log meanwhile, and \<open>log_write\<close> is one
  step.

  \<^bold>\<open>Not modelled.\<close> Assembly (context switch, trap entry, boot) and the device drivers that only write
  hardware registers (lapic.c, ioapic.c, picirq.c, uart.c, timer.c) have no effect that the C code
  observes. The segment descriptors and the interrupt descriptor table are encodings for the processor. The
  kernel context saved by \<open>swtch\<close> is represented by the outcome \<open>Sleep\<close> and by the parameter of the
  scheduler. Messages that vm.c prints when memory runs out are left out. The log and the file system are verified on the memory disk only. usertests.c is a test suite, and the small user programs are
  a few system calls in a row.
\<close>

end
